theory Spec2Isabelle
  imports Main "HOL-Library.Monad_Syntax"
begin

section \<open>The B+ tree of \<open>ADS_set.h\<close>\<close>

text \<open>
  \<open>ADS_set<Key, N>\<close> keeps its keys in the leaves (\<open>ExternalNode\<close>) of a B+ tree of
  order \<open>N\<close>; the leaves form a doubly linked chain that the iterator walks.

  An \<open>InternalNode\<close> is referenced by its parent alone, so it is embedded as a value:
  \<open>Internal ks cs\<close> holds the logical contents \<open>values[0..node_size)\<close> and
  \<open>children[0..node_size]\<close>; every \<open>new InternalNode()\<close> and every \<open>delete\<close> of one is
  counted in the memory. An \<open>ExternalNode\<close> is referenced by its parent, by its
  two neighbours and by \<open>left_leaf\<close>, so leaves live in an explicit heap and the tree holds
  their addresses. Keys are of any linearly ordered type (\<open>std::less\<close>,
  \<open>std::equal_to\<close>).

  Every operation returns an option. \<open>None\<close> stands for a run that leaves the defined
  behaviour of the source: a null or dangling pointer is dereferenced, a \<open>dynamic_cast\<close>
  fails, an array is written past its capacity (\<open>2N+1\<close> keys, \<open>2N+2\<close> children), a key
  slot past \<open>node_size\<close> is read into the result, or the node is no object of the source
  (an internal node whose children are not one more than its keys, siblings of
  different kinds or at one address).
\<close>

type_synonym addr = nat

datatype InsertMsg = SUCCESS_I | EXISTS | SPLIT

datatype EraseMsg = SUCCESS_E | NOT_EXISTENT | MERGE

datatype MergeDirection = LEFT | RIGHT

datatype NodeType = INTERNAL | EXTERNAL

record 'k ExternalNode =
  vals :: "'k list"
  left_neighbour :: "addr option"
  right_neighbour :: "addr option"

datatype 'k Node = External addr | Internal "'k list" "'k Node list"

text \<open>The heap of leaves; \<open>brk\<close> is the next address \<open>new\<close> hands out. An
  \<open>InternalNode\<close> has no address here, so its allocation is kept as a count: \<open>internals\<close>
  is the number of \<open>InternalNode\<close> objects that \<open>new\<close> has made and \<open>delete\<close> has not
  destroyed.\<close>

record 'k memory =
  heap :: "addr \<Rightarrow> 'k ExternalNode option"
  brk :: addr
  internals :: int

definition max_size :: "nat \<Rightarrow> nat" where
  "max_size N = N * 2"

definition min_size :: "nat \<Rightarrow> nat" where
  "min_size N = N"

definition new_ExternalNode :: "'k ExternalNode \<Rightarrow> 'k memory \<Rightarrow> addr \<times> 'k memory" where
  "new_ExternalNode l m = (brk m, \<lparr>heap = (heap m)(brk m \<mapsto> l), brk = Suc (brk m), internals = internals m\<rparr>)"

definition delete_ExternalNode :: "addr \<Rightarrow> 'k memory \<Rightarrow> 'k memory" where
  "delete_ExternalNode a m = \<lparr>heap = (heap m)(a := None), brk = brk m, internals = internals m\<rparr>"

definition update :: "addr \<Rightarrow> ('k ExternalNode \<Rightarrow> 'k ExternalNode) \<Rightarrow> 'k memory \<Rightarrow> 'k memory option" where
  "update a f m = (case heap m a of None \<Rightarrow> None
                   | Some l \<Rightarrow> Some \<lparr>heap = (heap m)(a \<mapsto> f l), brk = brk m, internals = internals m\<rparr>)"

text \<open>\<open>new InternalNode()\<close> and the end of \<open>~InternalNode\<close>.\<close>

definition new_InternalNode :: "'k memory \<Rightarrow> 'k memory" where
  "new_InternalNode m = m\<lparr>internals := internals m + 1\<rparr>"

definition delete_InternalNode :: "'k memory \<Rightarrow> 'k memory" where
  "delete_InternalNode m = m\<lparr>internals := internals m - 1\<rparr>"

text \<open>\<open>delete\<close> of a node: \<open>~InternalNode\<close> deletes \<open>children[0..node_size]\<close> and then the
  node itself; \<open>delete nullptr\<close> does nothing, so a child slot set to \<open>nullptr\<close> is left out
  of the list.\<close>

lemma size_take_children [termination_simp]:
  "x \<in> set (take n cs) \<Longrightarrow> size x \<le> size_list size cs"
  by (meson in_set_takeD order_refl size_list_estimation')

fun delete_Node :: "'k Node \<Rightarrow> 'k memory \<Rightarrow> 'k memory" where
  "delete_Node (External a) m = delete_ExternalNode a m"
| "delete_Node (Internal ks cs) m =
     delete_InternalNode (fold delete_Node (take (Suc (length ks)) cs) m)"

definition child_at :: "'a list \<Rightarrow> nat \<Rightarrow> 'a option" where
  "child_at cs i = (if i < length cs then Some (cs ! i) else None)"

definition node_type :: "'k Node \<Rightarrow> NodeType" where
  "node_type c = (case c of External a \<Rightarrow> EXTERNAL | Internal ks cs \<Rightarrow> INTERNAL)"

definition node_size :: "'k memory \<Rightarrow> 'k Node \<Rightarrow> nat option" where
  "node_size m c = (case c of External a \<Rightarrow> map_option (\<lambda>l. length (vals l)) (heap m a)
                    | Internal ks cs \<Rightarrow> Some (length ks))"

definition as_External :: "'k memory \<Rightarrow> 'k Node \<Rightarrow> (addr \<times> 'k ExternalNode) option" where
  "as_External m c = (case c of External a \<Rightarrow> map_option (\<lambda>l. (a, l)) (heap m a)
                      | Internal ks cs \<Rightarrow> None)"

definition as_Internal :: "'k Node \<Rightarrow> ('k list \<times> 'k Node list) option" where
  "as_Internal c = (case c of External a \<Rightarrow> None
                    | Internal ks cs \<Rightarrow> if length cs = Suc (length ks) then Some (ks, cs) else None)"

text \<open>Shifting an array up from slot \<open>i\<close> and writing there; closing the gap at slot \<open>i\<close>.\<close>

definition ins_at :: "nat \<Rightarrow> 'a \<Rightarrow> 'a list \<Rightarrow> 'a list" where
  "ins_at i x xs = take i xs @ x # drop i xs"

definition del_at :: "nat \<Rightarrow> 'a list \<Rightarrow> 'a list" where
  "del_at i xs = take i xs @ drop (Suc i) xs"

subsection \<open>Searching\<close>

text \<open>\<open>ExternalNode::find_pos\<close>: binary search with \<open>int\<close> bounds, \<open>-1\<close> when absent.\<close>

function bsearch :: "'k::linorder list \<Rightarrow> 'k \<Rightarrow> int \<Rightarrow> int \<Rightarrow> int" where
  "bsearch vs elem low high =
     (if low \<le> high then
        (let mid = low + (high - low) div 2 in
         if vs ! nat mid = elem then mid
         else if vs ! nat mid < elem then bsearch vs elem (mid + 1) high
         else bsearch vs elem low (mid - 1))
      else - 1)"
  by pat_completeness auto
termination
  by (relation "measure (\<lambda>(vs, elem, low, high). nat (high - low + 1))") auto

declare bsearch.simps [simp del]

definition find_pos_E :: "'k::linorder list \<Rightarrow> 'k \<Rightarrow> int" where
  "find_pos_E vs elem = (if length vs = 0 then - 1 else bsearch vs elem 0 (int (length vs) - 1))"

text \<open>\<open>InternalNode::find_pos\<close>: the first slot whose key is greater than \<open>elem\<close>, else
  \<open>node_size\<close>. The first loop of \<open>ExternalNode::add_elem\<close> is the same scan.\<close>

fun find_pos_I :: "'k::linorder \<Rightarrow> 'k list \<Rightarrow> nat" where
  "find_pos_I elem [] = 0"
| "find_pos_I elem (v # vs) = (if elem < v then 0 else Suc (find_pos_I elem vs))"

subsection \<open>Splitting an overfull child\<close>

definition split_E ::
  "nat \<Rightarrow> nat \<Rightarrow> 'k list \<Rightarrow> 'k Node list \<Rightarrow> addr \<Rightarrow> 'k memory \<Rightarrow> ('k Node \<times> 'k memory) option" where
  "split_E N pos ks cs a m = do {
     l \<leftarrow> heap m a;
     let n = length (vals l);
     let h = n div 2;
     if \<not> 2 * h < n \<or> max_size N < length ks then None
     else do {
       let rv = map (\<lambda>e. vals l ! (e + h)) [0..<Suc h];
       let (r, m1) = new_ExternalNode
              \<lparr>vals = rv, left_neighbour = Some a, right_neighbour = right_neighbour l\<rparr> m;
       m2 \<leftarrow> update a (\<lambda>x. x\<lparr>vals := take h (vals x)\<rparr>) m1;
       m3 \<leftarrow> (case right_neighbour l of None \<Rightarrow> Some m2
              | Some b \<Rightarrow> update b (\<lambda>x. x\<lparr>left_neighbour := Some r\<rparr>) m2);
       m4 \<leftarrow> update a (\<lambda>x. x\<lparr>right_neighbour := Some r\<rparr>) m3;
       Some (Internal (ins_at pos (rv ! 0) ks) (ins_at (Suc pos) (External r) cs), m4)
     }
   }"

definition split_I ::
  "nat \<Rightarrow> nat \<Rightarrow> 'k list \<Rightarrow> 'k Node list \<Rightarrow> 'k list \<Rightarrow> 'k Node list \<Rightarrow> 'k Node option" where
  "split_I N pos ks cs cks ccs =
     (let n = length cks; h = n div 2 in
      if \<not> 2 * h < n \<or> max_size N < length ks then None
      else
        (let new_key = cks ! h;
             rks = map (\<lambda>i. cks ! (i + h + 1)) [0..<h];
             rcs = map (\<lambda>i. ccs ! (i + h + 1)) [0..<Suc h];
             left = Internal (take h cks) (take (Suc h) ccs)
         in Some (Internal (ins_at pos new_key ks)
                           (ins_at (Suc pos) (Internal rks rcs) (cs[pos := left])))))"

text \<open>\<open>InternalNode::split(pos)\<close>; \<open>ExternalNode::split\<close> only traces. The right half of an
  internal child is a \<open>new InternalNode()\<close> (line 282).\<close>

definition split :: "nat \<Rightarrow> nat \<Rightarrow> 'k Node \<Rightarrow> 'k memory \<Rightarrow> ('k Node \<times> 'k memory) option" where
  "split N pos p m =
     (case p of
        External a \<Rightarrow> Some (External a, m)
      | Internal ks cs \<Rightarrow>
          if length cs \<noteq> Suc (length ks) then None
          else do {
            c \<leftarrow> child_at cs pos;
            case c of
              External a \<Rightarrow> split_E N pos ks cs a m
            | Internal cks ccs \<Rightarrow>
                if length ccs \<noteq> Suc (length cks) then None
                else map_option (\<lambda>p'. (p', new_InternalNode m)) (split_I N pos ks cs cks ccs)
          })"

subsection \<open>Insertion into a node\<close>

definition add_elem_E ::
  "nat \<Rightarrow> 'k::linorder \<Rightarrow> addr \<Rightarrow> 'k memory \<Rightarrow> (InsertMsg \<times> 'k memory) option" where
  "add_elem_E N elem a m = do {
     l \<leftarrow> heap m a;
     if find_pos_E (vals l) elem \<noteq> - 1 then Some (EXISTS, m)
     else if max_size N < length (vals l) then None
     else do {
       m' \<leftarrow> update a (\<lambda>x. x\<lparr>vals := ins_at (find_pos_I elem (vals x)) elem (vals x)\<rparr>) m;
       Some (if max_size N < Suc (length (vals l)) then SPLIT else SUCCESS_I, m')
     }
   }"

lemma find_pos_I_le: "find_pos_I elem ks \<le> length ks"
  by (induction ks) auto

lemma size_nth_children:
  "pos < length cs \<Longrightarrow> size (cs ! pos) < Suc (size_list size cs)"
proof (induction cs arbitrary: pos)
  case Nil
  then show ?case by simp
next
  case (Cons c cs)
  then show ?case by (cases pos) fastforce+
qed

function add_elem ::
  "nat \<Rightarrow> 'k::linorder \<Rightarrow> 'k Node \<Rightarrow> 'k memory \<Rightarrow> (InsertMsg \<times> 'k Node \<times> 'k memory) option" where
  "add_elem N elem (External a) m =
     map_option (\<lambda>(result, m'). (result, External a, m')) (add_elem_E N elem a m)"
| "add_elem N elem (Internal ks cs) m =
     (if length cs \<noteq> Suc (length ks) then None
      else
        (case add_elem N elem (cs ! find_pos_I elem ks) m of
           None \<Rightarrow> None
         | Some (result, c', m') \<Rightarrow>
             if result = SPLIT then
               (case split N (find_pos_I elem ks) (Internal ks (cs[find_pos_I elem ks := c'])) m' of
                  None \<Rightarrow> None
                | Some (p', m'') \<Rightarrow>
                    (case node_size m'' p' of
                       None \<Rightarrow> None
                     | Some n \<Rightarrow> Some (if n \<le> max_size N then SUCCESS_I else SPLIT, p', m'')))
             else Some (result, Internal ks (cs[find_pos_I elem ks := c']), m')))"
  by pat_completeness auto
termination
proof (relation "measure (\<lambda>(N, elem, t, m). size t)")
  show "wf (measure (\<lambda>(N, elem, t, m). size t))" by simp
next
  fix N :: nat and elem :: "'k::linorder" and ks :: "'k list" and cs :: "'k Node list"
    and m :: "'k memory"
  assume "\<not> length cs \<noteq> Suc (length ks)"
  then have "find_pos_I elem ks < length cs"
    using find_pos_I_le [of elem ks] by simp
  then show "((N, elem, cs ! find_pos_I elem ks, m), N, elem, Internal ks cs, m)
               \<in> measure (\<lambda>(N, elem, t, m). size t)"
    using size_nth_children [of "find_pos_I elem ks" cs] by simp
qed

subsection \<open>Removal from a node and rebalancing\<close>

definition remove_elem_E ::
  "nat \<Rightarrow> 'k::linorder \<Rightarrow> addr \<Rightarrow> 'k memory \<Rightarrow> (EraseMsg \<times> 'k memory) option" where
  "remove_elem_E N elem a m = do {
     l \<leftarrow> heap m a;
     let i = find_pos_E (vals l) elem;
     if i = - 1 then Some (NOT_EXISTENT, m)
     else do {
       m' \<leftarrow> update a (\<lambda>x. x\<lparr>vals := del_at (nat i) (vals x)\<rparr>) m;
       Some (if length (vals l) - 1 < min_size N then MERGE else SUCCESS_E, m')
     }
   }"

text \<open>The head of \<open>InternalNode::merge\<close>: the direction, and the two tests that guard
  the moves of one key. \<open>&&\<close> and \<open>||\<close> evaluate their right operand only when needed,
  so a sibling is read only where the source reads it.\<close>

definition merge_direction ::
  "nat \<Rightarrow> 'k list \<Rightarrow> 'k Node list \<Rightarrow> 'k memory \<Rightarrow> MergeDirection option" where
  "merge_direction pos ks cs m =
     (if pos = length ks then Some LEFT
      else if pos = 0 then Some RIGHT
      else do {
        l \<leftarrow> child_at cs (pos - 1);
        sl \<leftarrow> node_size m l;
        r \<leftarrow> child_at cs (pos + 1);
        sr \<leftarrow> node_size m r;
        Some (if sl < sr then LEFT else RIGHT)
      })"

definition from_right_cond ::
  "nat \<Rightarrow> nat \<Rightarrow> MergeDirection \<Rightarrow> 'k list \<Rightarrow> 'k Node list \<Rightarrow> 'k memory \<Rightarrow> bool option" where
  "from_right_cond N pos direction ks cs m =
     (if pos = 0 \<or> (direction = LEFT \<and> pos < length ks) then do {
        r \<leftarrow> child_at cs (pos + 1);
        sr \<leftarrow> node_size m r;
        Some (min_size N < sr)
      } else Some False)"

definition from_left_cond ::
  "nat \<Rightarrow> nat \<Rightarrow> MergeDirection \<Rightarrow> 'k list \<Rightarrow> 'k Node list \<Rightarrow> 'k memory \<Rightarrow> bool option" where
  "from_left_cond N pos direction ks cs m =
     (if pos = length ks \<or> (direction = RIGHT \<and> 0 < pos) then
        (if pos = 0 then None
         else do {
           l \<leftarrow> child_at cs (pos - 1);
           sl \<leftarrow> node_size m l;
           Some (min_size N < sl)
         })
      else Some False)"

datatype MergeAction = MoveFromRight | MoveFromLeft | Fuse MergeDirection

definition merge_action ::
  "nat \<Rightarrow> nat \<Rightarrow> 'k list \<Rightarrow> 'k Node list \<Rightarrow> 'k memory \<Rightarrow> MergeAction option" where
  "merge_action N pos ks cs m = do {
     direction \<leftarrow> merge_direction pos ks cs m;
     c1 \<leftarrow> from_right_cond N pos direction ks cs m;
     if c1 then Some MoveFromRight
     else do {
       c2 \<leftarrow> from_left_cond N pos direction ks cs m;
       if c2 then Some MoveFromLeft else Some (Fuse direction)
     }
   }"

text \<open>Moving one key between leaves (lines 334--340 and 347--353). The loop that closes
  the gap in the right sibling (lines 335--337) reads \<open>values[i + 1]\<close> for every
  \<open>i < node_size\<close>, so a sibling with \<open>2N+1\<close> keys is read past its array.\<close>

definition move_from_right_E ::
  "nat \<Rightarrow> nat \<Rightarrow> 'k list \<Rightarrow> 'k Node list \<Rightarrow> 'k memory \<Rightarrow> ('k Node \<times> 'k memory) option" where
  "move_from_right_E N pos ks cs m = do {
     c \<leftarrow> child_at cs pos;
     (a, la) \<leftarrow> as_External m c;
     s \<leftarrow> child_at cs (pos + 1);
     (b, lb) \<leftarrow> as_External m s;
     if a = b \<or> max_size N < length (vals la) \<or> length (vals lb) < 2
        \<or> max_size N < length (vals lb) \<or> \<not> pos < length ks
     then None
     else do {
       m1 \<leftarrow> update a (\<lambda>x. x\<lparr>vals := vals x @ [vals lb ! 0]\<rparr>) m;
       m2 \<leftarrow> update b (\<lambda>x. x\<lparr>vals := tl (vals x)\<rparr>) m1;
       Some (Internal (ks[pos := tl (vals lb) ! 0]) cs, m2)
     }
   }"

definition move_from_left_E ::
  "nat \<Rightarrow> nat \<Rightarrow> 'k list \<Rightarrow> 'k Node list \<Rightarrow> 'k memory \<Rightarrow> ('k Node \<times> 'k memory) option" where
  "move_from_left_E N pos ks cs m = do {
     c \<leftarrow> child_at cs pos;
     (a, la) \<leftarrow> as_External m c;
     s \<leftarrow> (if pos = 0 then None else child_at cs (pos - 1));
     (b, lb) \<leftarrow> as_External m s;
     if a = b \<or> max_size N < length (vals la) \<or> vals lb = [] \<or> \<not> pos - 1 < length ks
     then None
     else do {
       m1 \<leftarrow> update a (\<lambda>x. x\<lparr>vals := last (vals lb) # vals x\<rparr>) m;
       m2 \<leftarrow> update b (\<lambda>x. x\<lparr>vals := butlast (vals x)\<rparr>) m1;
       Some (Internal (ks[pos - 1 := last (vals lb)]) cs, m2)
     }
   }"

text \<open>Moving one key and one child between internal nodes, through the parent
  (lines 362--376 and 384--398). The loop over the right sibling (lines 369--373) reads
  \<open>values[i + 1]\<close> and \<open>children[i + 2]\<close> for every \<open>i < node_size\<close>: with \<open>2N+1\<close> keys that
  is past both arrays.\<close>

definition move_from_right_I ::
  "nat \<Rightarrow> nat \<Rightarrow> 'k list \<Rightarrow> 'k Node list \<Rightarrow> 'k Node option" where
  "move_from_right_I N pos ks cs = do {
     c \<leftarrow> child_at cs pos;
     (cks, ccs) \<leftarrow> as_Internal c;
     s \<leftarrow> child_at cs (pos + 1);
     (sks, scs) \<leftarrow> as_Internal s;
     if max_size N < length cks \<or> sks = [] \<or> max_size N < length sks \<or> \<not> pos < length ks
     then None
     else Some (Internal (ks[pos := sks ! 0])
                  (cs[pos := Internal (cks @ [ks ! pos]) (ccs @ [scs ! 0]),
                      pos + 1 := Internal (tl sks) (tl scs)]))
   }"

definition move_from_left_I ::
  "nat \<Rightarrow> nat \<Rightarrow> 'k list \<Rightarrow> 'k Node list \<Rightarrow> 'k Node option" where
  "move_from_left_I N pos ks cs = do {
     c \<leftarrow> child_at cs pos;
     (cks, ccs) \<leftarrow> as_Internal c;
     s \<leftarrow> (if pos = 0 then None else child_at cs (pos - 1));
     (sks, scs) \<leftarrow> as_Internal s;
     if max_size N < length cks \<or> sks = [] \<or> \<not> pos - 1 < length ks then None
     else Some (Internal (ks[pos - 1 := last sks])
                  (cs[pos := Internal (ks ! (pos - 1) # cks) (last scs # ccs),
                      pos - 1 := Internal (butlast sks) (butlast scs)]))
   }"

text \<open>Fusing the child at \<open>pos\<close> into its left sibling. The loop that closes the gap in the
  parent (lines 455--459) copies \<open>values[j]\<close> to \<open>values[j-1]\<close> for
  \<open>pos \<le> j < node_size - 1\<close> only: \<open>left_keys\<close> is what it leaves in
  \<open>values[0..node_size-1)\<close>.\<close>

definition left_keys :: "nat \<Rightarrow> 'k list \<Rightarrow> 'k list" where
  "left_keys pos ks =
     map (\<lambda>i. if pos \<le> Suc i \<and> Suc (Suc i) < length ks then ks ! Suc i else ks ! i)
         [0..<length ks - 1]"

definition fuse_left_E ::
  "nat \<Rightarrow> nat \<Rightarrow> 'k list \<Rightarrow> 'k Node list \<Rightarrow> 'k memory \<Rightarrow> ('k Node \<times> 'k memory) option" where
  "fuse_left_E N pos ks cs m = do {
     c \<leftarrow> child_at cs pos;
     (a, la) \<leftarrow> as_External m c;
     s \<leftarrow> (if pos = 0 then None else child_at cs (pos - 1));
     (b, lb) \<leftarrow> as_External m s;
     if a = b \<or> Suc (max_size N) < length (vals lb) + length (vals la) then None
     else do {
       m1 \<leftarrow> update b (\<lambda>x. x\<lparr>vals := vals x @ vals la\<rparr>) m;
       m2 \<leftarrow> update b (\<lambda>x. x\<lparr>right_neighbour := right_neighbour la\<rparr>) m1;
       m3 \<leftarrow> (case right_neighbour la of None \<Rightarrow> Some m2
              | Some n \<Rightarrow> update n (\<lambda>x. x\<lparr>left_neighbour := Some b\<rparr>) m2);
       Some (Internal (left_keys pos ks) (del_at pos cs), delete_ExternalNode a m3)
     }
   }"

definition fuse_left_I ::
  "nat \<Rightarrow> nat \<Rightarrow> 'k list \<Rightarrow> 'k Node list \<Rightarrow> 'k Node option" where
  "fuse_left_I N pos ks cs = do {
     c \<leftarrow> child_at cs pos;
     (aks, acs) \<leftarrow> as_Internal c;
     s \<leftarrow> (if pos = 0 then None else child_at cs (pos - 1));
     (bks, bcs) \<leftarrow> as_Internal s;
     if max_size N < length bks + length aks \<or> \<not> pos - 1 < length ks then None
     else Some (Internal (left_keys pos ks)
                  (del_at pos (cs[pos - 1 := Internal (bks @ [ks ! (pos - 1)] @ aks) (bcs @ acs)])))
   }"

text \<open>Fusing the right sibling into the child at \<open>pos\<close> (lines 474--520).\<close>

definition fuse_right_E ::
  "nat \<Rightarrow> nat \<Rightarrow> 'k list \<Rightarrow> 'k Node list \<Rightarrow> 'k memory \<Rightarrow> ('k Node \<times> 'k memory) option" where
  "fuse_right_E N pos ks cs m = do {
     c \<leftarrow> child_at cs pos;
     (a, la) \<leftarrow> as_External m c;
     s \<leftarrow> child_at cs (pos + 1);
     (b, lb) \<leftarrow> as_External m s;
     if a = b \<or> Suc (max_size N) < length (vals la) + length (vals lb) then None
     else do {
       m1 \<leftarrow> update a (\<lambda>x. x\<lparr>vals := vals x @ vals lb\<rparr>) m;
       m2 \<leftarrow> update a (\<lambda>x. x\<lparr>right_neighbour := right_neighbour lb\<rparr>) m1;
       m3 \<leftarrow> (case right_neighbour lb of None \<Rightarrow> Some m2
              | Some n \<Rightarrow> update n (\<lambda>x. x\<lparr>left_neighbour := Some a\<rparr>) m2);
       Some (Internal (del_at pos ks) (del_at (pos + 1) cs), delete_ExternalNode b m3)
     }
   }"

definition fuse_right_I ::
  "nat \<Rightarrow> nat \<Rightarrow> 'k list \<Rightarrow> 'k Node list \<Rightarrow> 'k Node option" where
  "fuse_right_I N pos ks cs = do {
     c \<leftarrow> child_at cs pos;
     (aks, acs) \<leftarrow> as_Internal c;
     s \<leftarrow> child_at cs (pos + 1);
     (bks, bcs) \<leftarrow> as_Internal s;
     if max_size N < length aks + length bks \<or> \<not> pos < length ks then None
     else Some (Internal (del_at pos ks)
                  (del_at (pos + 1) (cs[pos := Internal (aks @ [ks ! pos] @ bks) (acs @ bcs)])))
   }"

text \<open>The test that ends both fusing branches (lines 461--465 and 521--524): a fused
  child larger than \<open>max_size\<close> is split again.\<close>

definition resplit_needed :: "nat \<Rightarrow> nat \<Rightarrow> 'k Node \<Rightarrow> 'k memory \<Rightarrow> bool option" where
  "resplit_needed N i p m =
     (case p of External a \<Rightarrow> None
      | Internal ks cs \<Rightarrow> do {
          c \<leftarrow> child_at cs i;
          n \<leftarrow> node_size m c;
          Some (max_size N < n)
        })"

definition resplit :: "nat \<Rightarrow> nat \<Rightarrow> 'k Node \<Rightarrow> 'k memory \<Rightarrow> ('k Node \<times> 'k memory) option" where
  "resplit N i p m = do {
     b \<leftarrow> resplit_needed N i p m;
     if b then split N i p m else Some (p, m)
   }"

text \<open>The two fusing branches of the \<open>switch (direction)\<close>, and the child that holds the
  fused keys afterwards. An internal node that has been emptied into its sibling gets
  \<open>node_size = 0\<close> and \<open>children[0] = nullptr\<close> before its \<open>delete\<close> (lines 449--451 and
  510--512).\<close>

definition fuse ::
  "nat \<Rightarrow> MergeDirection \<Rightarrow> nat \<Rightarrow> 'k list \<Rightarrow> 'k Node list \<Rightarrow> 'k memory
     \<Rightarrow> ('k Node \<times> 'k memory) option" where
  "fuse N direction pos ks cs m = do {
     c \<leftarrow> child_at cs pos;
     case direction of
       LEFT \<Rightarrow>
         (if node_type c = EXTERNAL then fuse_left_E N pos ks cs m
          else map_option (\<lambda>p. (p, delete_Node (Internal [] []) m)) (fuse_left_I N pos ks cs))
     | RIGHT \<Rightarrow>
         (if node_type c = EXTERNAL then fuse_right_E N pos ks cs m
          else map_option (\<lambda>p. (p, delete_Node (Internal [] []) m)) (fuse_right_I N pos ks cs))
   }"

definition fused_at :: "MergeDirection \<Rightarrow> nat \<Rightarrow> nat" where
  "fused_at direction pos = (case direction of LEFT \<Rightarrow> pos - 1 | RIGHT \<Rightarrow> pos)"

text \<open>\<open>InternalNode::merge(pos)\<close> on the node with keys \<open>ks\<close> and children \<open>cs\<close>.\<close>

definition merge ::
  "nat \<Rightarrow> nat \<Rightarrow> 'k list \<Rightarrow> 'k Node list \<Rightarrow> 'k memory \<Rightarrow> ('k Node \<times> 'k memory) option" where
  "merge N pos ks cs m =
     (if length cs \<noteq> Suc (length ks) then None
      else do {
        c \<leftarrow> child_at cs pos;
        action \<leftarrow> merge_action N pos ks cs m;
        case action of
          MoveFromRight \<Rightarrow>
            (if node_type c = EXTERNAL then move_from_right_E N pos ks cs m
             else map_option (\<lambda>p. (p, m)) (move_from_right_I N pos ks cs))
        | MoveFromLeft \<Rightarrow>
            (if node_type c = EXTERNAL then move_from_left_E N pos ks cs m
             else map_option (\<lambda>p. (p, m)) (move_from_left_I N pos ks cs))
        | Fuse direction \<Rightarrow> do {
            (p, m') \<leftarrow> fuse N direction pos ks cs m;
            resplit N (fused_at direction pos) p m'
          }
      })"

function remove_elem ::
  "nat \<Rightarrow> 'k::linorder \<Rightarrow> 'k Node \<Rightarrow> 'k memory \<Rightarrow> (EraseMsg \<times> 'k Node \<times> 'k memory) option" where
  "remove_elem N elem (External a) m =
     map_option (\<lambda>(result, m'). (result, External a, m')) (remove_elem_E N elem a m)"
| "remove_elem N elem (Internal ks cs) m =
     (if length cs \<noteq> Suc (length ks) then None
      else
        (case remove_elem N elem (cs ! find_pos_I elem ks) m of
           None \<Rightarrow> None
         | Some (result, c', m') \<Rightarrow>
             if result = MERGE then
               (case merge N (find_pos_I elem ks) ks (cs[find_pos_I elem ks := c']) m' of
                  None \<Rightarrow> None
                | Some (p', m'') \<Rightarrow>
                    (case node_size m'' p' of
                       None \<Rightarrow> None
                     | Some n \<Rightarrow> Some (if min_size N \<le> n then SUCCESS_E else MERGE, p', m'')))
             else Some (result, Internal ks (cs[find_pos_I elem ks := c']), m')))"
  by pat_completeness auto
termination
proof (relation "measure (\<lambda>(N, elem, t, m). size t)")
  show "wf (measure (\<lambda>(N, elem, t, m). size t))" by simp
next
  fix N :: nat and elem :: "'k::linorder" and ks :: "'k list" and cs :: "'k Node list"
    and m :: "'k memory"
  assume "\<not> length cs \<noteq> Suc (length ks)"
  then have "find_pos_I elem ks < length cs"
    using find_pos_I_le [of elem ks] by simp
  then show "((N, elem, cs ! find_pos_I elem ks, m), N, elem, Internal ks cs, m)
               \<in> measure (\<lambda>(N, elem, t, m). size t)"
    using size_nth_children [of "find_pos_I elem ks" cs] by simp
qed

subsection \<open>Lookup\<close>

record Iterator =
  current_node :: "addr option"
  current_element :: nat

definition Iterator_end :: Iterator where
  "Iterator_end = \<lparr>current_node = None, current_element = 0\<rparr>"

definition find_E :: "'k::linorder \<Rightarrow> addr \<Rightarrow> 'k memory \<Rightarrow> Iterator option" where
  "find_E elem a m = do {
     l \<leftarrow> heap m a;
     if length (vals l) = 0 then Some Iterator_end
     else (let i = find_pos_E (vals l) elem in
           if i \<noteq> - 1 then Some \<lparr>current_node = Some a, current_element = nat i\<rparr>
           else Some Iterator_end)
   }"

function find_Node :: "'k::linorder \<Rightarrow> 'k Node \<Rightarrow> 'k memory \<Rightarrow> Iterator option" where
  "find_Node key (External a) m = find_E key a m"
| "find_Node key (Internal ks cs) m =
     (if length cs \<noteq> Suc (length ks) then None
      else find_Node key (cs ! find_pos_I key ks) m)"
  by pat_completeness auto
termination
proof (relation "measure (\<lambda>(key, t, m). size t)")
  show "wf (measure (\<lambda>(key, t, m). size t))" by simp
next
  fix key :: "'k::linorder" and ks :: "'k list" and cs :: "'k Node list" and m :: "'k memory"
  assume "\<not> length cs \<noteq> Suc (length ks)"
  then have "find_pos_I key ks < length cs"
    using find_pos_I_le [of key ks] by simp
  then show "((key, cs ! find_pos_I key ks, m), key, Internal ks cs, m)
               \<in> measure (\<lambda>(key, t, m). size t)"
    using size_nth_children [of "find_pos_I key ks" cs] by simp
qed

function count_Node :: "'k::linorder \<Rightarrow> 'k Node \<Rightarrow> 'k memory \<Rightarrow> bool option" where
  "count_Node key (External a) m = map_option (\<lambda>l. find_pos_E (vals l) key \<noteq> - 1) (heap m a)"
| "count_Node key (Internal ks cs) m =
     (if length cs \<noteq> Suc (length ks) then None
      else count_Node key (cs ! find_pos_I key ks) m)"
  by pat_completeness auto
termination
proof (relation "measure (\<lambda>(key, t, m). size t)")
  show "wf (measure (\<lambda>(key, t, m). size t))" by simp
next
  fix key :: "'k::linorder" and ks :: "'k list" and cs :: "'k Node list" and m :: "'k memory"
  assume "\<not> length cs \<noteq> Suc (length ks)"
  then have "find_pos_I key ks < length cs"
    using find_pos_I_le [of key ks] by simp
  then show "((key, cs ! find_pos_I key ks, m), key, Internal ks cs, m)
               \<in> measure (\<lambda>(key, t, m). size t)"
    using size_nth_children [of "find_pos_I key ks" cs] by simp
qed

subsection \<open>The container\<close>

text \<open>\<open>sz\<close> is a \<open>size_t\<close>, taken to be 64 bits wide. It counts keys held in memory, so
  \<open>++sz\<close> stays below \<open>2^64\<close>; \<open>--sz\<close> at zero wraps around and is written out.\<close>

record 'k ADS_set =
  sz :: nat
  root :: "'k Node"
  left_leaf :: addr

definition decrement :: "nat \<Rightarrow> nat" where
  "decrement n = (if n = 0 then 2 ^ 64 - 1 else n - 1)"

definition empty_leaf :: "'k ExternalNode" where
  "empty_leaf = \<lparr>vals = [], left_neighbour = None, right_neighbour = None\<rparr>"

text \<open>The default constructor \<open>ADS_set()\<close>.\<close>

definition ADS_set_new :: "'k memory \<Rightarrow> 'k ADS_set \<times> 'k memory" where
  "ADS_set_new m =
     (let (a, m') = new_ExternalNode empty_leaf m
      in (\<lparr>sz = 0, root = External a, left_leaf = a\<rparr>, m'))"

definition size_of :: "'k ADS_set \<Rightarrow> nat" where
  "size_of s = sz s"

definition find_S :: "'k::linorder \<Rightarrow> 'k ADS_set \<Rightarrow> 'k memory \<Rightarrow> Iterator option" where
  "find_S key s m = find_Node key (root s) m"

definition count_S :: "'k::linorder \<Rightarrow> 'k ADS_set \<Rightarrow> 'k memory \<Rightarrow> nat option" where
  "count_S key s m = map_option (\<lambda>b. if b then 1 else 0) (count_Node key (root s) m)"

definition insert_S ::
  "nat \<Rightarrow> 'k::linorder \<Rightarrow> 'k ADS_set \<Rightarrow> 'k memory
     \<Rightarrow> ((Iterator \<times> bool) \<times> 'k ADS_set \<times> 'k memory) option" where
  "insert_S N key s m = do {
     (result, r, m') \<leftarrow> add_elem N key (root s) m;
     case result of
       EXISTS \<Rightarrow> do {
         let s' = s\<lparr>root := r\<rparr>;
         it \<leftarrow> find_S key s' m';
         Some ((it, False), s', m')
       }
     | SUCCESS_I \<Rightarrow> do {
         let s' = s\<lparr>root := r, sz := sz s + 1\<rparr>;
         it \<leftarrow> find_S key s' m';
         Some ((it, True), s', m')
       }
     | SPLIT \<Rightarrow> do {
         (new_root, m'') \<leftarrow> split N 0 (Internal [] [r]) (new_InternalNode m');
         let s' = s\<lparr>root := new_root, sz := sz s + 1\<rparr>;
         it \<leftarrow> find_S key s' m'';
         Some ((it, True), s', m'')
       }
   }"

definition clear :: "'k ADS_set \<Rightarrow> 'k memory \<Rightarrow> 'k ADS_set \<times> 'k memory" where
  "clear s m =
     (let (a, m') = new_ExternalNode empty_leaf (delete_Node (root s) m)
      in (\<lparr>sz = 0, root = External a, left_leaf = a\<rparr>, m'))"

text \<open>\<open>erase\<close>. In the \<open>MERGE\<close> case an internal root without keys hands its only child
  over: \<open>children[0]\<close> is set to \<open>nullptr\<close> before \<open>delete root\<close>.\<close>

definition erase ::
  "nat \<Rightarrow> 'k::linorder \<Rightarrow> 'k ADS_set \<Rightarrow> 'k memory \<Rightarrow> (nat \<times> 'k ADS_set \<times> 'k memory) option" where
  "erase N key s m = do {
     (result, r, m') \<leftarrow> remove_elem N key (root s) m;
     case result of
       SUCCESS_E \<Rightarrow> Some (1, s\<lparr>root := r, sz := decrement (sz s)\<rparr>, m')
     | NOT_EXISTENT \<Rightarrow> Some (0, s\<lparr>root := r\<rparr>, m')
     | MERGE \<Rightarrow>
         (case r of
            Internal [] cs \<Rightarrow> do {
              new_root \<leftarrow> child_at cs 0;
              let m'' = delete_Node (Internal [] []) m';
              Some (1, s\<lparr>root := new_root, sz := decrement (sz s)\<rparr>, m'')
            }
          | _ \<Rightarrow> Some (1, s\<lparr>root := r, sz := decrement (sz s)\<rparr>, m'))
   }"

subsection \<open>Iteration\<close>

definition begin_S :: "'k ADS_set \<Rightarrow> Iterator" where
  "begin_S s = (if sz s = 0 then Iterator_end
              else \<lparr>current_node = Some (left_leaf s), current_element = 0\<rparr>)"

definition deref :: "'k memory \<Rightarrow> Iterator \<Rightarrow> 'k option" where
  "deref m it = do {
     a \<leftarrow> current_node it;
     l \<leftarrow> heap m a;
     child_at (vals l) (current_element it)
   }"

text \<open>\<open>Iterator::operator++\<close>.\<close>

definition increment :: "'k memory \<Rightarrow> Iterator \<Rightarrow> Iterator option" where
  "increment m it =
     (case current_node it of
        None \<Rightarrow> Some it
      | Some a \<Rightarrow> do {
          l \<leftarrow> heap m a;
          if length (vals l) \<le> current_element it + 1
          then Some \<lparr>current_node = right_neighbour l, current_element = 0\<rparr>
          else Some \<lparr>current_node = Some a, current_element = current_element it + 1\<rparr>
        })"

text \<open>The loop \<open>for (; first != last; ++first)\<close> that reads \<open>*first\<close>; it need not end.\<close>

partial_function (option) walk :: "'k memory \<Rightarrow> Iterator \<Rightarrow> Iterator \<Rightarrow> 'k list option" where
  "walk m first fin =
     (if first = fin then Some []
      else do {
        x \<leftarrow> deref m first;
        first' \<leftarrow> increment m first;
        xs \<leftarrow> walk m first' fin;
        Some (x # xs)
      })"

declare walk.simps [code]

definition elements :: "'k ADS_set \<Rightarrow> 'k memory \<Rightarrow> 'k list option" where
  "elements s m = walk m (begin_S s) Iterator_end"

text \<open>\<open>insert(InputIt first, InputIt last)\<close> over iterators of an \<open>ADS_set\<close>.\<close>

partial_function (option) insert_range ::
  "nat \<Rightarrow> Iterator \<Rightarrow> Iterator \<Rightarrow> 'k::linorder ADS_set \<Rightarrow> 'k memory
     \<Rightarrow> ('k ADS_set \<times> 'k memory) option" where
  "insert_range N first fin s m =
     (if first = fin then Some (s, m)
      else do {
        x \<leftarrow> deref m first;
        (r, s', m') \<leftarrow> insert_S N x s m;
        first' \<leftarrow> increment m' first;
        insert_range N first' fin s' m'
      })"

declare insert_range.simps [code]

text \<open>Copy assignment \<open>operator=(const ADS_set &other)\<close>. \<open>this\<close> and \<open>other\<close> name
  container objects in a store, so that they may be the same object: \<open>other.begin()\<close> is
  evaluated after \<open>clear()\<close> has run on \<open>this\<close>.\<close>

record 'k world =
  objects :: "nat \<Rightarrow> 'k ADS_set option"
  mem :: "'k memory"

definition assign :: "nat \<Rightarrow> nat \<Rightarrow> nat \<Rightarrow> 'k::linorder world \<Rightarrow> 'k world option" where
  "assign N this other w = do {
     s \<leftarrow> objects w this;
     let (s1, m1) = clear s (mem w);
     let objects1 = (objects w)(this \<mapsto> s1);
     other1 \<leftarrow> objects1 other;
     (s2, m2) \<leftarrow> insert_range N (begin_S other1) Iterator_end s1 m1;
     Some \<lparr>objects = objects1(this \<mapsto> s2), mem = m2\<rparr>
   }"

text \<open>\<open>insert(std::initializer_list)\<close>: the keys one after the other.\<close>

fun insert_list ::
  "nat \<Rightarrow> 'k::linorder list \<Rightarrow> 'k ADS_set \<Rightarrow> 'k memory \<Rightarrow> ('k ADS_set \<times> 'k memory) option" where
  "insert_list N [] s m = Some (s, m)"
| "insert_list N (x # xs) s m =
     (case insert_S N x s m of None \<Rightarrow> None | Some (r, s', m') \<Rightarrow> insert_list N xs s' m')"

subsection \<open>Sequences of public operations\<close>

text \<open>The public operations that change a container, and a run of them on the state that the
  constructor leaves. \<open>effect\<close> is what an operation does to the set of keys held.\<close>

datatype 'k operation = Insert 'k | Erase 'k | Clear

fun apply_op ::
  "nat \<Rightarrow> 'k::linorder operation \<Rightarrow> 'k ADS_set \<times> 'k memory \<Rightarrow> ('k ADS_set \<times> 'k memory) option" where
  "apply_op N (Insert k) (s, m) = map_option snd (insert_S N k s m)"
| "apply_op N (Erase k) (s, m) = map_option snd (erase N k s m)"
| "apply_op N Clear (s, m) = Some (clear s m)"

fun run ::
  "nat \<Rightarrow> 'k::linorder operation list \<Rightarrow> 'k ADS_set \<times> 'k memory
     \<Rightarrow> ('k ADS_set \<times> 'k memory) option" where
  "run N [] st = Some st"
| "run N (f # fs) st = (case apply_op N f st of None \<Rightarrow> None | Some st' \<Rightarrow> run N fs st')"

fun effect :: "'k operation \<Rightarrow> 'k set \<Rightarrow> 'k set" where
  "effect (Insert k) S = insert k S"
| "effect (Erase k) S = S - {k}"
| "effect Clear S = {}"

subsection \<open>The shape of a tree in memory\<close>

text \<open>The fill of the nodes of a tree in memory: \<open>filled\<close> for a node below the root,
  \<open>root_filled\<close> for the root, which may hold fewer than \<open>N\<close> keys.\<close>

fun filled :: "nat \<Rightarrow> 'k memory \<Rightarrow> 'k Node \<Rightarrow> bool" where
  "filled N m (External a) =
     (case heap m a of None \<Rightarrow> False
      | Some l \<Rightarrow> N \<le> length (vals l) \<and> length (vals l) \<le> 2 * N)"
| "filled N m (Internal ks cs) =
     (N \<le> length ks \<and> length ks \<le> 2 * N \<and> length cs = Suc (length ks)
      \<and> (\<forall>c\<in>set cs. filled N m c))"

definition root_filled :: "nat \<Rightarrow> 'k memory \<Rightarrow> 'k Node \<Rightarrow> bool" where
  "root_filled N m t =
     (case t of
        External a \<Rightarrow> (case heap m a of None \<Rightarrow> False | Some l \<Rightarrow> length (vals l) \<le> 2 * N)
      | Internal ks cs \<Rightarrow> length ks \<le> 2 * N \<and> length cs = Suc (length ks)
                          \<and> (\<forall>c\<in>set cs. filled N m c))"

text \<open>The number of levels of a tree, and the number of its internal nodes.\<close>

fun height :: "'k Node \<Rightarrow> nat" where
  "height (External a) = 1"
| "height (Internal ks cs) = Suc (fold max (map height cs) 0)"

fun inodes :: "'k Node \<Rightarrow> int" where
  "inodes (External a) = 0"
| "inodes (Internal ks cs) = 1 + sum_list (map inodes cs)"

section \<open>The tree as a value\<close>

text \<open>
  For the proofs about whole trees, the leaves are read out of the heap: \<open>tree_of m t\<close> is the
  tree \<open>t\<close> with the keys of every leaf in place of its address. The functions \<open>t_add\<close>,
  \<open>t_split\<close>, \<open>t_remove\<close> and \<open>t_merge\<close> say what \<open>add_elem\<close>, \<open>split\<close>, \<open>remove_elem\<close> and
  \<open>merge\<close> do to these values on the trees the container builds; the section on refinement
  proves that they do.
\<close>

datatype 'k tree = Leaf "'k list" | Node "'k list" "'k tree list"

fun leaves :: "'k Node \<Rightarrow> addr list" where
  "leaves (External a) = [a]"
| "leaves (Internal ks cs) = concat (map leaves cs)"

definition vals_at :: "'k memory \<Rightarrow> addr \<Rightarrow> 'k list" where
  "vals_at m a = (case heap m a of None \<Rightarrow> [] | Some l \<Rightarrow> vals l)"

fun tree_of :: "'k memory \<Rightarrow> 'k Node \<Rightarrow> 'k tree" where
  "tree_of m (External a) = Leaf (vals_at m a)"
| "tree_of m (Internal ks cs) = Node ks (map (tree_of m) cs)"

fun t_size :: "'k tree \<Rightarrow> nat" where
  "t_size (Leaf vs) = length vs"
| "t_size (Node ks cs) = length ks"

fun t_keys :: "'k tree \<Rightarrow> 'k list" where
  "t_keys (Leaf vs) = vs"
| "t_keys (Node ks cs) = concat (map t_keys cs)"

fun is_leaf :: "'k tree \<Rightarrow> bool" where
  "is_leaf (Leaf vs) = True"
| "is_leaf (Node ks cs) = False"

fun depth :: "'k tree \<Rightarrow> nat" where
  "depth (Leaf vs) = 0"
| "depth (Node ks []) = 1"
| "depth (Node ks (c # cs)) = Suc (depth c)"

text \<open>The fill of a node: \<open>t_fill N h\<close> for a node below the root, \<open>t_node lo hi N h\<close> for
  a node with between \<open>lo\<close> and \<open>hi\<close> keys whose children are filled. Both say that every
  leaf of the node is \<open>h\<close> levels below it.\<close>

fun t_fill :: "nat \<Rightarrow> nat \<Rightarrow> 'k tree \<Rightarrow> bool" where
  "t_fill N h (Leaf vs) = (h = 0 \<and> N \<le> length vs \<and> length vs \<le> 2 * N)"
| "t_fill N h (Node ks cs) =
     (0 < h \<and> N \<le> length ks \<and> length ks \<le> 2 * N \<and> length cs = Suc (length ks)
      \<and> (\<forall>c\<in>set cs. t_fill N (h - 1) c))"

definition t_node :: "nat \<Rightarrow> nat \<Rightarrow> nat \<Rightarrow> nat \<Rightarrow> 'k tree \<Rightarrow> bool" where
  "t_node lo hi N h t =
     (case t of
        Leaf vs \<Rightarrow> h = 0 \<and> lo \<le> length vs \<and> length vs \<le> hi
      | Node ks cs \<Rightarrow> 0 < h \<and> lo \<le> length ks \<and> length ks \<le> hi \<and> length cs = Suc (length ks)
                      \<and> (\<forall>c\<in>set cs. t_fill N (h - 1) c))"

text \<open>The order of a tree: its keys and separators in one row, every key smaller than
  what follows it and every separator at most what follows it.\<close>

datatype 'k item = Key 'k | Sep 'k

fun item_val :: "'k item \<Rightarrow> 'k" where
  "item_val (Key v) = v"
| "item_val (Sep v) = v"

fun before :: "'k::linorder item \<Rightarrow> 'k item \<Rightarrow> bool" where
  "before (Key v) y = (v < item_val y)"
| "before (Sep v) y = (v \<le> item_val y)"

fun inter :: "'k list \<Rightarrow> 'k item list list \<Rightarrow> 'k item list" where
  "inter ks [] = []"
| "inter [] (x # xs) = x @ inter [] xs"
| "inter (k # ks) (x # xs) = x @ Sep k # inter ks xs"

fun flat :: "'k tree \<Rightarrow> 'k item list" where
  "flat (Leaf vs) = map Key vs"
| "flat (Node ks cs) = inter ks (map flat cs)"

definition t_ord :: "'k::linorder tree \<Rightarrow> bool" where
  "t_ord t = sorted_wrt before (flat t)"

text \<open>The leaf chain: the leaves at \<open>as\<close> are live and linked in this order, the first
  one back to \<open>p\<close> and the last one on to \<open>n\<close>.\<close>

fun chain :: "'k memory \<Rightarrow> addr option \<Rightarrow> addr list \<Rightarrow> addr option \<Rightarrow> bool" where
  "chain m p [] n = True"
| "chain m p (a # as) n =
     (case heap m a of
        None \<Rightarrow> False
      | Some l \<Rightarrow> left_neighbour l = p
                  \<and> right_neighbour l = (case as of [] \<Rightarrow> n | b # bs \<Rightarrow> Some b)
                  \<and> chain m (Some a) as n)"

text \<open>The state of a container that the public operations keep: the root is filled as a
  root with all leaves at one depth, the tree is ordered, \<open>sz\<close> counts the keys, the leaves of the tree are
  distinct allocated objects and form the chain that starts at \<open>left_leaf\<close>.\<close>

definition root_fill :: "nat \<Rightarrow> 'k tree \<Rightarrow> bool" where
  "root_fill N t =
     (t_node 0 (2 * N) N (depth t) t \<and> (case t of Leaf vs \<Rightarrow> True | Node ks cs \<Rightarrow> ks \<noteq> []))"

definition heap_ok :: "'k memory \<Rightarrow> addr list \<Rightarrow> bool" where
  "heap_ok m as = (distinct as \<and> chain m None as None \<and> (\<forall>a\<in>set as. a < brk m))"

definition invariant :: "nat \<Rightarrow> 'k::linorder ADS_set \<Rightarrow> 'k memory \<Rightarrow> bool" where
  "invariant N s m =
     (root_fill N (tree_of m (root s)) \<and> t_ord (tree_of m (root s))
      \<and> sz s = length (t_keys (tree_of m (root s)))
      \<and> heap_ok m (leaves (root s)) \<and> left_leaf s = hd (leaves (root s)))"

subsection \<open>The operations on values\<close>

definition t_split :: "nat \<Rightarrow> 'k list \<Rightarrow> 'k tree list \<Rightarrow> 'k tree" where
  "t_split pos ks cs =
     (case cs ! pos of
        Leaf vs \<Rightarrow>
          (let h = length vs div 2
           in Node (ins_at pos (vs ! h) ks)
                   (ins_at (Suc pos) (Leaf (drop h vs)) (cs[pos := Leaf (take h vs)])))
      | Node cks ccs \<Rightarrow>
          (let h = length cks div 2
           in Node (ins_at pos (cks ! h) ks)
                   (ins_at (Suc pos) (Node (drop (Suc h) cks) (drop (Suc h) ccs))
                      (cs[pos := Node (take h cks) (take (Suc h) ccs)]))))"

lemma size_nth_subtrees:
  "pos < length cs \<Longrightarrow> size (cs ! pos) < Suc (size_list size cs)"
proof (induction cs arbitrary: pos)
  case Nil
  then show ?case by simp
next
  case (Cons c cs)
  then show ?case by (cases pos) fastforce+
qed

function t_add :: "nat \<Rightarrow> 'k::linorder \<Rightarrow> 'k tree \<Rightarrow> InsertMsg \<times> 'k tree" where
  "t_add N x (Leaf vs) =
     (if find_pos_E vs x \<noteq> - 1 then (EXISTS, Leaf vs)
      else (if max_size N < Suc (length vs) then SPLIT else SUCCESS_I,
            Leaf (ins_at (find_pos_I x vs) x vs)))"
| "t_add N x (Node ks cs) =
     (if length cs \<noteq> Suc (length ks) then (EXISTS, Node ks cs)
      else
        (case t_add N x (cs ! find_pos_I x ks) of
           (result, c') \<Rightarrow>
             if result = SPLIT then
               (let p = t_split (find_pos_I x ks) ks (cs[find_pos_I x ks := c'])
                in (if t_size p \<le> max_size N then SUCCESS_I else SPLIT, p))
             else (result, Node ks (cs[find_pos_I x ks := c']))))"
  by pat_completeness auto
termination
proof (relation "measure (\<lambda>(N, x, t). size t)")
  show "wf (measure (\<lambda>(N, x, t). size t))" by simp
next
  fix N :: nat and x :: "'k::linorder" and ks :: "'k list" and cs :: "'k tree list"
  assume "\<not> length cs \<noteq> Suc (length ks)"
  then have "find_pos_I x ks < length cs"
    using find_pos_I_le [of x ks] by simp
  then show "((N, x, cs ! find_pos_I x ks), N, x, Node ks cs) \<in> measure (\<lambda>(N, x, t). size t)"
    using size_nth_subtrees [of "find_pos_I x ks" cs] by simp
qed

text \<open>The decision of \<open>merge_action\<close> from the sizes of the children.\<close>

definition decide :: "nat \<Rightarrow> nat \<Rightarrow> nat \<Rightarrow> (nat \<Rightarrow> nat) \<Rightarrow> MergeAction" where
  "decide N pos n sizes =
     (let direction = (if pos = n \<or> (pos \<noteq> 0 \<and> sizes (pos - 1) < sizes (pos + 1))
                       then LEFT else RIGHT)
      in if (pos = 0 \<or> (direction = LEFT \<and> pos < n)) \<and> N < sizes (pos + 1) then MoveFromRight
         else if (pos = n \<or> (direction = RIGHT \<and> 0 < pos)) \<and> N < sizes (pos - 1)
         then MoveFromLeft
         else Fuse direction)"

definition t_move_from_right :: "nat \<Rightarrow> 'k list \<Rightarrow> 'k tree list \<Rightarrow> 'k tree" where
  "t_move_from_right pos ks cs =
     (case (cs ! pos, cs ! Suc pos) of
        (Leaf a, Leaf b) \<Rightarrow>
          Node (ks[pos := tl b ! 0]) (cs[pos := Leaf (a @ [b ! 0]), Suc pos := Leaf (tl b)])
      | (Node aks acs, Node bks bcs) \<Rightarrow>
          Node (ks[pos := bks ! 0])
               (cs[pos := Node (aks @ [ks ! pos]) (acs @ [bcs ! 0]), Suc pos := Node (tl bks) (tl bcs)])
      | _ \<Rightarrow> Node ks cs)"

definition t_move_from_left :: "nat \<Rightarrow> 'k list \<Rightarrow> 'k tree list \<Rightarrow> 'k tree" where
  "t_move_from_left pos ks cs =
     (case (cs ! pos, cs ! (pos - 1)) of
        (Leaf a, Leaf b) \<Rightarrow>
          Node (ks[pos - 1 := last b]) (cs[pos := Leaf (last b # a), pos - 1 := Leaf (butlast b)])
      | (Node aks acs, Node bks bcs) \<Rightarrow>
          Node (ks[pos - 1 := last bks])
               (cs[pos := Node (ks ! (pos - 1) # aks) (last bcs # acs),
                   pos - 1 := Node (butlast bks) (butlast bcs)])
      | _ \<Rightarrow> Node ks cs)"

definition t_fuse_left :: "nat \<Rightarrow> 'k list \<Rightarrow> 'k tree list \<Rightarrow> 'k tree" where
  "t_fuse_left pos ks cs =
     (case (cs ! pos, cs ! (pos - 1)) of
        (Leaf a, Leaf b) \<Rightarrow> Node (left_keys pos ks) (del_at pos (cs[pos - 1 := Leaf (b @ a)]))
      | (Node aks acs, Node bks bcs) \<Rightarrow>
          Node (left_keys pos ks)
               (del_at pos (cs[pos - 1 := Node (bks @ [ks ! (pos - 1)] @ aks) (bcs @ acs)]))
      | _ \<Rightarrow> Node ks cs)"

definition t_fuse_right :: "nat \<Rightarrow> 'k list \<Rightarrow> 'k tree list \<Rightarrow> 'k tree" where
  "t_fuse_right pos ks cs =
     (case (cs ! pos, cs ! Suc pos) of
        (Leaf a, Leaf b) \<Rightarrow> Node (del_at pos ks) (del_at (Suc pos) (cs[pos := Leaf (a @ b)]))
      | (Node aks acs, Node bks bcs) \<Rightarrow>
          Node (del_at pos ks)
               (del_at (Suc pos) (cs[pos := Node (aks @ [ks ! pos] @ bks) (acs @ bcs)]))
      | _ \<Rightarrow> Node ks cs)"

definition t_merge :: "nat \<Rightarrow> nat \<Rightarrow> 'k list \<Rightarrow> 'k tree list \<Rightarrow> 'k tree" where
  "t_merge N pos ks cs =
     (case decide N pos (length ks) (\<lambda>i. t_size (cs ! i)) of
        MoveFromRight \<Rightarrow> t_move_from_right pos ks cs
      | MoveFromLeft \<Rightarrow> t_move_from_left pos ks cs
      | Fuse LEFT \<Rightarrow> t_fuse_left pos ks cs
      | Fuse RIGHT \<Rightarrow> t_fuse_right pos ks cs)"

function t_remove :: "nat \<Rightarrow> 'k::linorder \<Rightarrow> 'k tree \<Rightarrow> EraseMsg \<times> 'k tree" where
  "t_remove N x (Leaf vs) =
     (if find_pos_E vs x = - 1 then (NOT_EXISTENT, Leaf vs)
      else (if length vs - 1 < min_size N then MERGE else SUCCESS_E,
            Leaf (del_at (nat (find_pos_E vs x)) vs)))"
| "t_remove N x (Node ks cs) =
     (if length cs \<noteq> Suc (length ks) then (NOT_EXISTENT, Node ks cs)
      else
        (case t_remove N x (cs ! find_pos_I x ks) of
           (result, c') \<Rightarrow>
             if result = MERGE then
               (let p = t_merge N (find_pos_I x ks) ks (cs[find_pos_I x ks := c'])
                in (if min_size N \<le> t_size p then SUCCESS_E else MERGE, p))
             else (result, Node ks (cs[find_pos_I x ks := c']))))"
  by pat_completeness auto
termination
proof (relation "measure (\<lambda>(N, x, t). size t)")
  show "wf (measure (\<lambda>(N, x, t). size t))" by simp
next
  fix N :: nat and x :: "'k::linorder" and ks :: "'k list" and cs :: "'k tree list"
  assume "\<not> length cs \<noteq> Suc (length ks)"
  then have "find_pos_I x ks < length cs"
    using find_pos_I_le [of x ks] by simp
  then show "((N, x, cs ! find_pos_I x ks), N, x, Node ks cs) \<in> measure (\<lambda>(N, x, t). size t)"
    using size_nth_subtrees [of "find_pos_I x ks" cs] by simp
qed

subsection \<open>The steps of an operation\<close>

text \<open>The first address of a list of leaves, or what follows it; the last one, or what
  precedes it.\<close>

definition first_or :: "addr option \<Rightarrow> addr list \<Rightarrow> addr option" where
  "first_or n as = (case as of [] \<Rightarrow> n | b # bs \<Rightarrow> Some b)"

definition last_or :: "addr option \<Rightarrow> addr list \<Rightarrow> addr option" where
  "last_or p as = (if as = [] then p else Some (last as))"

text \<open>A step of an operation on the subtree \<open>t\<close>, whose leaves lie in the chain between those
  at \<open>pre\<close> and those at \<open>post\<close>: the chain is intact, the leaves outside the subtree keep
  their keys, and the first leaf of the subtree stays in place.\<close>

definition step ::
  "'k memory \<Rightarrow> addr list \<Rightarrow> 'k Node \<Rightarrow> addr list \<Rightarrow> 'k memory \<Rightarrow> 'k Node \<Rightarrow> bool" where
  "step m pre t post m' t' =
     (heap_ok m' (pre @ leaves t' @ post)
      \<and> (\<forall>a\<in>set pre \<union> set post. vals_at m' a = vals_at m a)
      \<and> leaves t' \<noteq> [] \<and> hd (leaves t') = hd (leaves t))"

definition vals_changed :: "addr set \<Rightarrow> 'k memory \<Rightarrow> 'k memory \<Rightarrow> bool" where
  "vals_changed A m m' =
     (brk m' = brk m \<and> (\<forall>b. b \<notin> A \<longrightarrow> heap m' b = heap m b)
      \<and> (\<forall>a\<in>A. \<forall>l. heap m a = Some l \<longrightarrow>
            (\<exists>l'. heap m' a = Some l' \<and> left_neighbour l' = left_neighbour l
               \<and> right_neighbour l' = right_neighbour l)))"



subsection \<open>Rows of keys and separators\<close>

text \<open>The keys of a row, and the rows to the left and to the right of a child: the
  children with the separators after them, or before them.\<close>

fun keys_of :: "'k item list \<Rightarrow> 'k list" where
  "keys_of [] = []"
| "keys_of (Key v # xs) = v # keys_of xs"
| "keys_of (Sep v # xs) = keys_of xs"

definition items_left :: "'k list \<Rightarrow> 'k item list list \<Rightarrow> 'k item list" where
  "items_left ks xs = concat (map (\<lambda>(k, x). x @ [Sep k]) (zip ks xs))"

definition items_right :: "'k list \<Rightarrow> 'k item list list \<Rightarrow> 'k item list" where
  "items_right ks xs = concat (map (\<lambda>(k, x). Sep k # x) (zip ks xs))"

text \<open>\<open>keeps L L'\<close>: putting \<open>L'\<close> in place of \<open>L\<close> keeps a row ordered; \<open>tidy L L'\<close>: and
  keeps its keys.\<close>

definition keeps :: "'k::linorder item list \<Rightarrow> 'k item list \<Rightarrow> bool" where
  "keeps L L' = (\<forall>A B. sorted_wrt before (A @ L @ B) \<longrightarrow> sorted_wrt before (A @ L' @ B))"

definition tidy :: "'k::linorder item list \<Rightarrow> 'k item list \<Rightarrow> bool" where
  "tidy L L' = (keeps L L' \<and> keys_of L' = keys_of L)"

section \<open>Searching a node\<close>

text \<open>The binary search of a leaf returns \<open>-1\<close> or the slot of the key; in a strictly increasing
  array it finds every key that is there.\<close>

lemma bsearch_result:
  "bsearch vs x lo hi = - 1 \<or> (lo \<le> bsearch vs x lo hi \<and> bsearch vs x lo hi \<le> hi \<and> vs ! nat (bsearch vs x lo hi) = x)"
proof (induction vs x lo hi rule: bsearch.induct)
  case (1 vs elem low high)
  show ?case
  proof (cases "low \<le> high")
    case False
    then show ?thesis by (subst bsearch.simps) simp
  next
    case True
    define mid where "mid = low + (high - low) div 2"
    have mid: "low \<le> mid" "mid \<le> high" using True by (auto simp: mid_def)
    show ?thesis
    proof (cases "vs ! nat mid = elem")
      case eq: True
      then show ?thesis using True mid
        by (subst (1 2 3 4) bsearch.simps) (simp add: mid_def Let_def)
    next
      case ne: False
      show ?thesis
      proof (cases "vs ! nat mid < elem")
        case lt: True
        have "bsearch vs elem low high = bsearch vs elem (mid + 1) high"
          using True ne lt by (subst bsearch.simps) (simp add: mid_def Let_def)
        moreover have "bsearch vs elem (mid + 1) high = - 1 \<or>
           (mid + 1 \<le> bsearch vs elem (mid + 1) high \<and> bsearch vs elem (mid + 1) high \<le> high
            \<and> vs ! nat (bsearch vs elem (mid + 1) high) = elem)"
          using "1.IH"(1) [OF True mid_def ne lt] .
        ultimately show ?thesis using mid by auto
      next
        case ge: False
        have "bsearch vs elem low high = bsearch vs elem low (mid - 1)"
          using True ne ge by (subst bsearch.simps) (simp add: mid_def Let_def)
        moreover have "bsearch vs elem low (mid - 1) = - 1 \<or>
           (low \<le> bsearch vs elem low (mid - 1) \<and> bsearch vs elem low (mid - 1) \<le> mid - 1
            \<and> vs ! nat (bsearch vs elem low (mid - 1)) = elem)"
          using "1.IH"(2) [OF True mid_def ne ge] .
        ultimately show ?thesis using mid by auto
      qed
    qed
  qed
qed

lemma bsearch_finds:
  "sorted_wrt (<) vs \<Longrightarrow> 0 \<le> lo \<Longrightarrow> hi < int (length vs) \<Longrightarrow>
   lo \<le> int i \<Longrightarrow> int i \<le> hi \<Longrightarrow> vs ! i = x \<Longrightarrow> bsearch vs x lo hi = int i"
proof (induction vs x lo hi rule: bsearch.induct)
  case (1 vs elem low high)
  have True: "low \<le> high" using 1 by simp
  define mid where "mid = low + (high - low) div 2"
  have mid: "low \<le> mid" "mid \<le> high" using True by (auto simp: mid_def)
  have ilen: "i < length vs" using 1 by simp
  have mlen: "nat mid < length vs" using 1 mid by simp
  show ?case
  proof (cases "vs ! nat mid = elem")
    case eq: True
    have "nat mid = i"
    proof (rule ccontr)
      assume "nat mid \<noteq> i"
      then consider "nat mid < i" | "i < nat mid" by linarith
      then show False
        using sorted_wrt_nth_less [OF "1.prems"(1)] ilen mlen eq "1.prems"(6)
        by (metis less_irrefl)
    qed
    then show ?thesis using True eq mid 1
      by (subst bsearch.simps) (simp add: mid_def Let_def)
  next
    case ne: False
    show ?thesis
    proof (cases "vs ! nat mid < elem")
      case lt: True
      have "\<not> i \<le> nat mid"
      proof
        assume "i \<le> nat mid"
        then have "i < nat mid" using ne "1.prems"(6) by (cases "i = nat mid") auto
        then have "vs ! i < vs ! nat mid" using sorted_wrt_nth_less [OF "1.prems"(1)] mlen by simp
        then show False using lt "1.prems"(6) by simp
      qed
      then have "mid + 1 \<le> int i" by linarith
      then have "bsearch vs elem (mid + 1) high = int i"
        using "1.IH"(1) [OF True mid_def ne lt] 1 mid by simp
      moreover have "bsearch vs elem low high = bsearch vs elem (mid + 1) high"
        using True ne lt by (subst bsearch.simps) (simp add: mid_def Let_def)
      ultimately show ?thesis by simp
    next
      case ge: False
      have "\<not> nat mid \<le> i"
      proof
        assume "nat mid \<le> i"
        then have "nat mid < i" using ne "1.prems"(6) by (cases "i = nat mid") auto
        then have "vs ! nat mid < vs ! i" using sorted_wrt_nth_less [OF "1.prems"(1)] ilen by simp
        then show False using ge "1.prems"(6) by simp
      qed
      then have "int i \<le> mid - 1" by linarith
      then have "bsearch vs elem low (mid - 1) = int i"
        using "1.IH"(2) [OF True mid_def ne ge] 1 mid by simp
      moreover have "bsearch vs elem low high = bsearch vs elem low (mid - 1)"
        using True ne ge by (subst bsearch.simps) (simp add: mid_def Let_def)
      ultimately show ?thesis by simp
    qed
  qed
qed

lemma find_pos_E_result:
  "find_pos_E vs x = - 1 \<or> (0 \<le> find_pos_E vs x \<and> nat (find_pos_E vs x) < length vs \<and> vs ! nat (find_pos_E vs x) = x)"
  using bsearch_result [of vs x 0 "int (length vs) - 1"]
  by (auto simp: find_pos_E_def)

lemma find_pos_E_absent: "x \<notin> set vs \<Longrightarrow> find_pos_E vs x = - 1"
  using find_pos_E_result [of vs x] by (metis nth_mem)

lemma find_pos_E_present:
  "sorted_wrt (<) vs \<Longrightarrow> i < length vs \<Longrightarrow> find_pos_E vs (vs ! i) = int i"
  using bsearch_finds [of vs 0 "int (length vs) - 1" i "vs ! i"]
  by (auto simp: find_pos_E_def)

section \<open>The heap\<close>

text \<open>Writing to a live leaf, and the slot that \<open>InternalNode::find_pos\<close> returns.\<close>

lemma update_Some:
  "heap m a = Some l \<Longrightarrow> update a f m = Some \<lparr>heap = (heap m)(a \<mapsto> f l), brk = brk m, internals = internals m\<rparr>"
  by (simp add: update_def)

lemma update_None: "heap m a = None \<Longrightarrow> update a f m = None"
  by (simp add: update_def)

text \<open>Making and destroying an internal node leaves the leaves alone.\<close>

lemma new_InternalNode_simps [simp]:
  "heap (new_InternalNode m) = heap m"
  "brk (new_InternalNode m) = brk m"
  "internals (new_InternalNode m) = internals m + 1"
  by (simp_all add: new_InternalNode_def)

lemma delete_InternalNode_simps [simp]:
  "heap (delete_InternalNode m) = heap m"
  "brk (delete_InternalNode m) = brk m"
  "internals (delete_InternalNode m) = internals m - 1"
  by (simp_all add: delete_InternalNode_def)

lemma update_internals:
  "update a f m = Some m' \<Longrightarrow> internals m' = internals m"
  by (auto simp: update_def split: option.splits)

lemma delete_ExternalNode_internals [simp]:
  "internals (delete_ExternalNode a m) = internals m"
  by (simp add: delete_ExternalNode_def)

lemma vals_at_same: "heap m' = heap m \<Longrightarrow> vals_at m' a = vals_at m a"
  by (simp add: vals_at_def)

lemma tree_of_same: "heap m' = heap m \<Longrightarrow> tree_of m' t = tree_of m t"
  by (induction t) (simp_all add: vals_at_def)

lemma chain_same: "heap m' = heap m \<Longrightarrow> chain m' p as n = chain m p as n"
proof (induction as arbitrary: p)
  case Nil
  then show ?case by simp
next
  case (Cons a as)
  show ?case using Cons.IH [OF Cons.prems] Cons.prems by (simp split: option.splits)
qed

lemma heap_ok_same:
  "heap m' = heap m \<Longrightarrow> brk m' = brk m \<Longrightarrow> heap_ok m' as = heap_ok m as"
  using chain_same [of m' m None as None] by (simp add: heap_ok_def)

lemma node_size_same: "heap m' = heap m \<Longrightarrow> node_size m' c = node_size m c"
  by (simp add: node_size_def split: Node.splits)

lemma find_Node_same: "heap m' = heap m \<Longrightarrow> find_Node k t m' = find_Node k t m"
proof (induction t)
  case (External a)
  then show ?case by (simp add: find_E_def)
next
  case (Internal ks cs)
  show ?case
  proof (cases "length cs = Suc (length ks)")
    case True
    then have "cs ! find_pos_I k ks \<in> set cs"
      using find_pos_I_le [of k ks] by simp
    then show ?thesis using Internal by simp
  next
    case False
    then show ?thesis by simp
  qed
qed

lemma new_InternalNode_frame [simp]:
  "vals_at (new_InternalNode m) = vals_at m"
  "tree_of (new_InternalNode m) = tree_of m"
  "heap_ok (new_InternalNode m) = heap_ok m"
  "node_size (new_InternalNode m) = node_size m"
  using vals_at_same [of "new_InternalNode m" m] tree_of_same [of "new_InternalNode m" m]
    heap_ok_same [of "new_InternalNode m" m] node_size_same [of "new_InternalNode m" m]
  by (simp_all add: fun_eq_iff)

lemma find_Node_new_InternalNode [simp]:
  "find_Node k t (new_InternalNode m) = find_Node k t m"
  using find_Node_same [of "new_InternalNode m" m k t] by simp

lemma delete_InternalNode_frame [simp]:
  "vals_at (delete_InternalNode m) = vals_at m"
  "tree_of (delete_InternalNode m) = tree_of m"
  "heap_ok (delete_InternalNode m) = heap_ok m"
  "node_size (delete_InternalNode m) = node_size m"
  using vals_at_same [of "delete_InternalNode m" m] tree_of_same [of "delete_InternalNode m" m]
    heap_ok_same [of "delete_InternalNode m" m] node_size_same [of "delete_InternalNode m" m]
  by (simp_all add: fun_eq_iff)

lemma find_Node_delete_InternalNode [simp]:
  "find_Node k t (delete_InternalNode m) = find_Node k t m"
  using find_Node_same [of "delete_InternalNode m" m k t] by simp

lemma step_InternalNode [simp]:
  "step m pre t post (new_InternalNode m') t' = step m pre t post m' t'"
  "step m pre t post (delete_InternalNode m') t' = step m pre t post m' t'"
  "step (new_InternalNode m) pre t post m' t' = step m pre t post m' t'"
  "step (delete_InternalNode m) pre t post m' t' = step m pre t post m' t'"
  by (simp_all add: step_def)

lemma find_pos_I_all_less: "\<forall>v\<in>set vs. v < x \<Longrightarrow> find_pos_I x vs = length vs"
  by (induction vs) auto

lemma find_pos_I_bounds:
  "(\<forall>i<find_pos_I x ks. ks ! i \<le> x) \<and> (find_pos_I x ks < length ks \<longrightarrow> x < ks ! find_pos_I x ks)"
proof (induction ks)
  case Nil
  then show ?case by simp
next
  case (Cons k ks)
  then show ?case by (auto simp: nth_Cons split: nat.splits)
qed

section \<open>Walking the chain of leaves\<close>

text \<open>From a slot of a leaf the loop yields the rest of the leaf and goes on with the right
  neighbour.\<close>

lemma walk_end [simp]: "walk m Iterator_end Iterator_end = Some []"
  by (subst walk.simps) simp

lemma walk_leaf:
  assumes "heap m a = Some l" and "i < length (vals l)"
  shows "walk m \<lparr>current_node = Some a, current_element = i\<rparr> Iterator_end =
           map_option (\<lambda>xs. drop i (vals l) @ xs)
             (walk m \<lparr>current_node = right_neighbour l, current_element = 0\<rparr> Iterator_end)"
  using assms(2)
proof (induction "length (vals l) - i" arbitrary: i)
  case 0
  then show ?case by simp
next
  case (Suc n)
  have ne: "\<lparr>current_node = Some a, current_element = i\<rparr> \<noteq> Iterator_end"
    by (simp add: Iterator_end_def)
  have d: "deref m \<lparr>current_node = Some a, current_element = i\<rparr> = Some (vals l ! i)"
    using assms(1) Suc.prems by (simp add: deref_def child_at_def)
  show ?case
  proof (cases "length (vals l) \<le> i + 1")
    case True
    then have inc: "increment m \<lparr>current_node = Some a, current_element = i\<rparr> =
        Some \<lparr>current_node = right_neighbour l, current_element = 0\<rparr>"
      using assms(1) by (simp add: increment_def)
    have dr: "drop i (vals l) = [vals l ! i]"
      using True Suc.prems by (metis Cons_nth_drop_Suc Suc_eq_plus1 drop_all)
    show ?thesis
      by (subst walk.simps) (simp add: ne d inc dr map_option_case split: option.splits)
  next
    case False
    then have inc: "increment m \<lparr>current_node = Some a, current_element = i\<rparr> =
        Some \<lparr>current_node = Some a, current_element = i + 1\<rparr>"
      using assms(1) by (simp add: increment_def)
    have ih: "walk m \<lparr>current_node = Some a, current_element = Suc i\<rparr> Iterator_end =
           map_option (\<lambda>xs. drop (Suc i) (vals l) @ xs)
             (walk m \<lparr>current_node = right_neighbour l, current_element = 0\<rparr> Iterator_end)"
      using Suc.hyps(1) [of "Suc i"] Suc.hyps(2) False by simp
    have dr: "drop i (vals l) = vals l ! i # drop (Suc i) (vals l)"
      using Suc.prems by (simp add: Cons_nth_drop_Suc)
    show ?thesis
      by (subst walk.simps) (simp add: ne d inc ih dr map_option_case split: option.splits)
  qed
qed


section \<open>Growing the root\<close>

lemma ins_at_end: "ins_at (length xs) x xs = xs @ [x]"
  by (simp add: ins_at_def)

lemma add_elem_E_append:
  assumes "heap m a = Some l" and "\<forall>v\<in>set (vals l). v < x" and "length (vals l) \<le> max_size N"
  shows "add_elem_E N x a m =
           Some (if max_size N < Suc (length (vals l)) then SPLIT else SUCCESS_I,
                 \<lparr>heap = (heap m)(a \<mapsto> l\<lparr>vals := vals l @ [x]\<rparr>), brk = brk m, internals = internals m\<rparr>)"
proof -
  have "x \<notin> set (vals l)" using assms(2) by auto
  then have "find_pos_E (vals l) x = - 1" by (rule find_pos_E_absent)
  then show ?thesis
    using assms
    by (simp add: add_elem_E_def update_Some find_pos_I_all_less ins_at_end)
qed

lemma find_E_Some: "heap m a = Some l \<Longrightarrow> \<exists>it. find_E x a m = Some it"
  by (simp add: find_E_def Let_def)

lemma insert_list_leaf:
  "heap m a = Some l \<Longrightarrow> root s = External a \<Longrightarrow> sorted_wrt (<) (vals l @ xs) \<Longrightarrow>
   length (vals l @ xs) \<le> max_size N \<Longrightarrow>
   insert_list N xs s m =
     Some (s\<lparr>sz := sz s + length xs\<rparr>,
           \<lparr>heap = (heap m)(a \<mapsto> l\<lparr>vals := vals l @ xs\<rparr>), brk = brk m, internals = internals m\<rparr>)"
proof (induction xs arbitrary: s m l)
  case Nil
  then show ?case by (simp add: map_upd_triv)
next
  case (Cons x xs)
  let ?l = "l\<lparr>vals := vals l @ [x]\<rparr>"
  let ?m = "\<lparr>heap = (heap m)(a \<mapsto> ?l), brk = brk m, internals = internals m\<rparr>"
  let ?s = "s\<lparr>sz := sz s + 1\<rparr>"
  have less: "\<forall>v\<in>set (vals l). v < x"
    using Cons.prems(3) by (auto simp: sorted_wrt_append)
  have add: "add_elem_E N x a m = Some (SUCCESS_I, ?m)"
    using add_elem_E_append [OF Cons.prems(1) less, of N] Cons.prems(4) by simp
  obtain it where it: "find_E x a ?m = Some it"
    using find_E_Some [of ?m a ?l x] by auto
  have root_eq: "s\<lparr>root := External a, sz := sz s + 1\<rparr> = ?s"
    using Cons.prems(2) by (cases s) simp
  have ins: "insert_S N x s m = Some ((it, True), ?s, ?m)"
    using add it Cons.prems(2) root_eq by (simp add: insert_S_def find_S_def)
  have "insert_list N xs ?s ?m =
     Some (?s\<lparr>sz := sz ?s + length xs\<rparr>,
           \<lparr>heap = (heap ?m)(a \<mapsto> ?l\<lparr>vals := vals ?l @ xs\<rparr>), brk = brk ?m, internals = internals ?m\<rparr>)"
    using Cons.prems by (intro Cons.IH) simp_all
  then show ?case using ins by (auto simp: fun_eq_iff)
qed


lemma map_nth_drop: "length vs = h + k \<Longrightarrow> map (\<lambda>e. vs ! (e + h)) [0..<k] = drop h vs"
  by (auto intro!: nth_equalityI simp: add.commute)

lemma split_E_result:
  assumes l: "heap m a = Some l"
    and n: "length (vals l) = 2 * h + 1"
    and cap: "length ks \<le> max_size N"
    and fresh: "a \<noteq> brk m"
    and nb: "\<forall>b. right_neighbour l = Some b \<longrightarrow> b \<noteq> brk m \<and> b \<noteq> a \<and> heap m b \<noteq> None"
  shows "\<exists>m'. split_E N pos ks cs a m =
            Some (Internal (ins_at pos (vals l ! h) ks) (ins_at (Suc pos) (External (brk m)) cs), m')
          \<and> brk m' = Suc (brk m)
          \<and> (\<forall>x. heap m' x =
                (if x = a then Some (l\<lparr>vals := take h (vals l), right_neighbour := Some (brk m)\<rparr>)
                 else if x = brk m
                 then Some \<lparr>vals = drop h (vals l), left_neighbour = Some a,
                            right_neighbour = right_neighbour l\<rparr>
                 else if right_neighbour l = Some x
                 then map_option (\<lambda>lb. lb\<lparr>left_neighbour := Some (brk m)\<rparr>) (heap m x)
                 else heap m x))"
proof -
  have h: "length (vals l) div 2 = h" using n by simp
  have rv: "map (\<lambda>e. vals l ! (e + h)) [0..<Suc h] = drop h (vals l)"
    using n by (intro map_nth_drop) simp
  have rv0: "drop h (vals l) ! 0 = vals l ! h" using n by simp
  show ?thesis
  proof (cases "right_neighbour l")
    case None
    then show ?thesis
      using l n cap fresh
      by (simp add: split_E_def h rv rv0 Let_def new_ExternalNode_def update_def del: upt_Suc)
  next
    case (Some b)
    then obtain lb where lb: "heap m b = Some lb" "b \<noteq> brk m" "b \<noteq> a" using nb by auto
    then show ?thesis
      using l n cap fresh Some
      by (simp add: split_E_def h rv rv0 Let_def new_ExternalNode_def update_def del: upt_Suc)
  qed
qed


lemma insert_list_append:
  "insert_list N (xs @ ys) s m =
     (case insert_list N xs s m of None \<Rightarrow> None | Some (s', m') \<Rightarrow> insert_list N ys s' m')"
  by (induction xs arbitrary: s m) (auto split: option.splits)

text \<open>
  Claim C5. Inserting \<open>2N+1\<close> strictly increasing keys into a freshly constructed container
  of order \<open>N \<ge> 1\<close> ends with an internal root that has one separator and two leaves: the
  left leaf holds the lower \<open>N\<close> keys, the right leaf the upper \<open>N+1\<close> keys, the separator is
  the right leaf's first key, and walking from \<open>begin()\<close> to \<open>end()\<close> yields the keys in
  order. For \<open>N = 3\<close> and the keys \<open>1,\<dots>,7\<close> this is the scenario of the specification:
  leaves of 3 and 4 keys.
\<close>

theorem insert_increasing_grows_root:
  assumes N: "0 < N" and sorted: "sorted_wrt (<) xs" and len: "length xs = 2 * N + 1"
  shows "\<exists>s m' a b la lb.
           insert_list N xs (fst (ADS_set_new m)) (snd (ADS_set_new m)) = Some (s, m') \<and>
           root s = Internal [xs ! N] [External a, External b] \<and> a \<noteq> b \<and>
           heap m' a = Some la \<and> vals la = take N xs \<and>
           heap m' b = Some lb \<and> vals lb = drop N xs \<and>
           elements s m' = Some xs \<and> size_of s = length xs"
proof -
  define a where "a = brk m"
  define s0 :: "'a ADS_set" where "s0 = \<lparr>sz = 0, root = External a, left_leaf = a\<rparr>"
  define m0 where "m0 = \<lparr>heap = (heap m)(a \<mapsto> empty_leaf), brk = Suc a, internals = internals m\<rparr>"
  have new: "ADS_set_new m = (s0, m0)"
    by (simp add: ADS_set_new_def new_ExternalNode_def s0_def m0_def a_def)
  obtain ys z where xs: "xs = ys @ [z]"
    using len by (cases xs rule: rev_cases) auto
  have lys: "length ys = max_size N" using len xs by (simp add: max_size_def)
  define l1 where "l1 = (empty_leaf :: 'a ExternalNode)\<lparr>vals := ys\<rparr>"
  define m1 where "m1 = \<lparr>heap = (heap m0)(a \<mapsto> l1), brk = Suc a, internals = internals m\<rparr>"
  define s1 where "s1 = s0\<lparr>sz := length ys\<rparr>"
  have stage1: "insert_list N ys s0 m0 = Some (s1, m1)"
    using insert_list_leaf [of m0 a empty_leaf s0 ys N] sorted lys
    by (simp add: xs sorted_wrt_append m0_def s0_def empty_leaf_def l1_def m1_def s1_def)
  define l2 where "l2 = l1\<lparr>vals := xs\<rparr>"
  define m2 where "m2 = \<lparr>heap = (heap m1)(a \<mapsto> l2), brk = Suc a, internals = internals m\<rparr>"
  have less: "\<forall>v\<in>set (vals l1). v < z"
    using sorted by (auto simp: xs l1_def sorted_wrt_append)
  have add: "add_elem N z (External a) m1 = Some (SPLIT, External a, m2)"
    using add_elem_E_append [of m1 a l1 z N] less lys
    by (simp add: m1_def l1_def l2_def m2_def xs)
  have l2: "heap (new_InternalNode m2) a = Some l2" "length (vals l2) = 2 * N + 1"
    "right_neighbour l2 = None" "left_neighbour l2 = None" "vals l2 = xs"
    "brk (new_InternalNode m2) = Suc a"
    by (simp_all add: m2_def l2_def l1_def len empty_leaf_def)
  obtain m3 where split: "split_E N 0 [] [External a] a (new_InternalNode m2) =
        Some (Internal (ins_at 0 (xs ! N) []) (ins_at (Suc 0) (External (Suc a)) [External a]), m3)"
    and m3: "\<forall>x. heap m3 x =
                (if x = a then Some (l2\<lparr>vals := take N xs, right_neighbour := Some (Suc a)\<rparr>)
                 else if x = Suc a
                 then Some \<lparr>vals = drop N xs, left_neighbour = Some a, right_neighbour = None\<rparr>
                 else heap m2 x)"
    using split_E_result [of "new_InternalNode m2" a l2 N "[]" N 0 "[External a]"] l2 by auto
  define la where "la = l2\<lparr>vals := take N xs, right_neighbour := Some (Suc a)\<rparr>"
  define lb :: "'a ExternalNode"
    where "lb = \<lparr>vals = drop N xs, left_neighbour = Some a, right_neighbour = None\<rparr>"
  have ha: "heap m3 a = Some la" and hb: "heap m3 (Suc a) = Some lb"
    using m3 by (simp_all add: la_def lb_def)
  define r where "r = Internal [xs ! N] [External a, External (Suc a)]"
  have split': "split N 0 (Internal [] [External a]) (new_InternalNode m2) = Some (r, m3)"
    using split by (simp add: split_def child_at_def ins_at_def r_def)
  obtain it where it: "find_Node z r m3 = Some it"
  proof (cases "z < xs ! N")
    case True
    then show ?thesis using find_E_Some [OF ha, of z] that by (auto simp: r_def)
  next
    case False
    then show ?thesis using find_E_Some [OF hb, of z] that by (auto simp: r_def)
  qed
  define s2 where "s2 = s1\<lparr>root := r, sz := sz s1 + 1\<rparr>"
  have ins: "insert_S N z s1 m1 = Some ((it, True), s2, m3)"
    using add split' it by (simp add: insert_S_def find_S_def s1_def s0_def s2_def)
  have all: "insert_list N xs s0 m0 = Some (s2, m3)"
    using stage1 ins by (simp add: xs insert_list_append)
  have w2: "walk m3 \<lparr>current_node = Some (Suc a), current_element = 0\<rparr> Iterator_end
              = Some (drop N xs)"
    using walk_leaf [OF hb, of 0] len
    by (simp add: lb_def) (simp add: Iterator_end_def [symmetric])
  have w1: "walk m3 \<lparr>current_node = Some a, current_element = 0\<rparr> Iterator_end = Some xs"
    using walk_leaf [OF ha, of 0] len N w2 by (simp add: la_def)
  have el: "elements s2 m3 = Some xs"
    using w1 by (simp add: elements_def begin_S_def s2_def s1_def s0_def)
  show ?thesis
    using all el ha hb len lys
    by (intro exI [of _ s2] exI [of _ m3] exI [of _ a] exI [of _ "Suc a"] exI [of _ la]
        exI [of _ lb])
      (simp add: new s2_def r_def la_def lb_def size_of_def s1_def s0_def max_size_def)
qed

text \<open>The scenario \<open>N = 3\<close>, keys \<open>1,\<dots>,7\<close>.\<close>

theorem insert_1_to_7_witness:
  "0 < (3::nat) \<and> sorted_wrt (<) [1, 2, 3, 4, 5, 6, 7 :: int]
   \<and> length [1, 2, 3, 4, 5, 6, 7 :: int] = 2 * 3 + 1
   \<and> (\<exists>s m' sep a b la lb.
         insert_list 3 [1, 2, 3, 4, 5, 6, 7 :: int]
           (fst (ADS_set_new \<lparr>heap = (\<lambda>a. None), brk = 0, internals = 0\<rparr>))
           (snd (ADS_set_new \<lparr>heap = (\<lambda>a. None), brk = 0, internals = 0\<rparr>)) = Some (s, m') \<and>
         root s = Internal [sep] [External a, External b] \<and>
         heap m' a = Some la \<and> length (vals la) = 3 \<and>
         heap m' b = Some lb \<and> length (vals lb) = 4 \<and>
         elements s m' = Some [1, 2, 3, 4, 5, 6, 7])"
proof -
  have "\<exists>s m' a b la lb.
           insert_list 3 [1, 2, 3, 4, 5, 6, 7 :: int]
             (fst (ADS_set_new \<lparr>heap = (\<lambda>a. None), brk = 0, internals = 0\<rparr>))
             (snd (ADS_set_new \<lparr>heap = (\<lambda>a. None), brk = 0, internals = 0\<rparr>)) = Some (s, m') \<and>
           root s = Internal [[1, 2, 3, 4, 5, 6, 7 :: int] ! 3] [External a, External b] \<and> a \<noteq> b \<and>
           heap m' a = Some la \<and> vals la = take 3 [1, 2, 3, 4, 5, 6, 7] \<and>
           heap m' b = Some lb \<and> vals lb = drop 3 [1, 2, 3, 4, 5, 6, 7] \<and>
           elements s m' = Some [1, 2, 3, 4, 5, 6, 7] \<and> size_of s = length [1, 2, 3, 4, 5, 6, 7 :: int]"
    by (rule insert_increasing_grows_root) simp_all
  then obtain s m' a b la lb where
    "insert_list 3 [1, 2, 3, 4, 5, 6, 7 :: int]
             (fst (ADS_set_new \<lparr>heap = (\<lambda>a. None), brk = 0, internals = 0\<rparr>))
             (snd (ADS_set_new \<lparr>heap = (\<lambda>a. None), brk = 0, internals = 0\<rparr>)) = Some (s, m')"
    "root s = Internal [[1, 2, 3, 4, 5, 6, 7 :: int] ! 3] [External a, External b]"
    "heap m' a = Some la" "vals la = take 3 [1, 2, 3, 4, 5, 6, 7]"
    "heap m' b = Some lb" "vals lb = drop 3 [1, 2, 3, 4, 5, 6, 7]"
    "elements s m' = Some [1, 2, 3, 4, 5, 6, 7]"
    by blast
  then show ?thesis by force
qed

section \<open>Splitting a leaf\<close>

text \<open>
  Claim C4. \<open>split(pos)\<close> on a leaf child with \<open>2N+1\<close> keys, in a node with room for one more
  key, where the next address is free and the leaf's right neighbour (if any) is another live
  leaf: the left leaf keeps the lower \<open>N\<close> keys, the new leaf at the fresh address holds the
  upper \<open>N+1\<close> keys, the new leaf points back to the left leaf and on to the former right
  neighbour, the left leaf and the former right neighbour point to the new leaf, and the key
  put at slot \<open>pos\<close> of the parent is the new leaf's first key.
\<close>

theorem split_leaf_child:
  assumes shape: "length cs = Suc (length ks)" and pos: "pos < length cs"
    and child: "cs ! pos = External a"
    and l: "heap m a = Some l" and full: "length (vals l) = 2 * N + 1"
    and cap: "length ks \<le> max_size N"
    and fresh: "heap m (brk m) = None"
    and nb: "\<forall>b. right_neighbour l = Some b \<longrightarrow> b \<noteq> a \<and> heap m b \<noteq> None"
  shows "\<exists>m'. split N pos (Internal ks cs) m =
            Some (Internal (ins_at pos (vals l ! N) ks) (ins_at (Suc pos) (External (brk m)) cs), m')
          \<and> heap m' a = Some \<lparr>vals = take N (vals l), left_neighbour = left_neighbour l,
                               right_neighbour = Some (brk m)\<rparr>
          \<and> heap m' (brk m) = Some \<lparr>vals = drop N (vals l), left_neighbour = Some a,
                                     right_neighbour = right_neighbour l\<rparr>
          \<and> (\<forall>b lb. right_neighbour l = Some b \<longrightarrow> heap m b = Some lb \<longrightarrow>
                 heap m' b = Some (lb\<lparr>left_neighbour := Some (brk m)\<rparr>))
          \<and> ins_at pos (vals l ! N) ks ! pos = hd (drop N (vals l))
          \<and> length (take N (vals l)) = N \<and> length (drop N (vals l)) = N + 1"
proof -
  have a: "a \<noteq> brk m" using l fresh by auto
  have nb': "\<forall>b. right_neighbour l = Some b \<longrightarrow> b \<noteq> brk m \<and> b \<noteq> a \<and> heap m b \<noteq> None"
    using nb fresh by auto
  obtain m' where s: "split_E N pos ks cs a m =
            Some (Internal (ins_at pos (vals l ! N) ks) (ins_at (Suc pos) (External (brk m)) cs), m')"
    and h: "\<forall>x. heap m' x =
                (if x = a then Some (l\<lparr>vals := take N (vals l), right_neighbour := Some (brk m)\<rparr>)
                 else if x = brk m
                 then Some \<lparr>vals = drop N (vals l), left_neighbour = Some a,
                            right_neighbour = right_neighbour l\<rparr>
                 else if right_neighbour l = Some x
                 then map_option (\<lambda>lb. lb\<lparr>left_neighbour := Some (brk m)\<rparr>) (heap m x)
                 else heap m x)"
    using split_E_result [OF l full cap a nb', of pos cs] by blast
  have sp: "split N pos (Internal ks cs) m =
            Some (Internal (ins_at pos (vals l ! N) ks) (ins_at (Suc pos) (External (brk m)) cs), m')"
    using shape pos child s by (simp add: split_def child_at_def)
  have sep: "ins_at pos (vals l ! N) ks ! pos = hd (drop N (vals l))"
    using shape pos full by (simp add: ins_at_def nth_append hd_drop_conv_nth)
  have nbs: "\<forall>b lb. right_neighbour l = Some b \<longrightarrow> heap m b = Some lb \<longrightarrow>
                 heap m' b = Some (lb\<lparr>left_neighbour := Some (brk m)\<rparr>)"
    using h nb' by auto
  show ?thesis
    using sp h a sep nbs full by (intro exI [of _ m']) simp
qed

text \<open>A leaf \<open>[1,2,3]\<close> of a tree of order 1, with a right neighbour.\<close>

theorem split_leaf_child_witness:
  "\<exists>m'. split 1 0 (Internal [5] [External 0, External 1])
           \<lparr>heap = (\<lambda>a. None)
              (0 \<mapsto> \<lparr>vals = [1, 2, 3 :: int], left_neighbour = None, right_neighbour = Some 1\<rparr>,
               1 \<mapsto> \<lparr>vals = [5, 6], left_neighbour = Some 0, right_neighbour = None\<rparr>),
             brk = 2, internals = 1\<rparr>
         = Some (Internal [2, 5] [External 0, External 2, External 1], m')
       \<and> heap m' 0 = Some \<lparr>vals = [1], left_neighbour = None, right_neighbour = Some 2\<rparr>
       \<and> heap m' 2 = Some \<lparr>vals = [2, 3], left_neighbour = Some 0, right_neighbour = Some 1\<rparr>
       \<and> heap m' 1 = Some \<lparr>vals = [5, 6], left_neighbour = Some 2, right_neighbour = None\<rparr>"
  using split_leaf_child [of "[External 0, External 1]" "[5 :: int]" 0 0
      "\<lparr>heap = (\<lambda>a. None)
              (0 \<mapsto> \<lparr>vals = [1, 2, 3 :: int], left_neighbour = None, right_neighbour = Some 1\<rparr>,
               1 \<mapsto> \<lparr>vals = [5, 6], left_neighbour = Some 0, right_neighbour = None\<rparr>),
             brk = 2, internals = 1\<rparr>"
      "\<lparr>vals = [1, 2, 3 :: int], left_neighbour = None, right_neighbour = Some 1\<rparr>" 1]
  by (simp add: ins_at_def max_size_def)

section \<open>Self-assignment\<close>

text \<open>
  Claim C10. Assigning a container to itself leaves it empty: after \<open>clear()\<close> the source
  range \<open>[other.begin(), other.end())\<close> is the range of the cleared container, so nothing is
  inserted. The root is a fresh empty leaf and iteration yields no key.
\<close>

theorem self_assignment_empties:
  assumes "objects w this = Some s"
  shows "\<exists>w' s' a. assign N this this w = Some w' \<and> objects w' this = Some s'
           \<and> size_of s' = 0 \<and> root s' = External a \<and> heap (mem w') a = Some empty_leaf
           \<and> elements s' (mem w') = Some []"
proof -
  define a where "a = brk (delete_Node (root s) (mem w))"
  define m1 where "m1 = snd (new_ExternalNode (empty_leaf :: 'a ExternalNode)
                               (delete_Node (root s) (mem w)))"
  define s1 :: "'a ADS_set" where "s1 = \<lparr>sz = 0, root = External a, left_leaf = a\<rparr>"
  have c: "clear s (mem w) = (s1, m1)"
    by (simp add: clear_def new_ExternalNode_def s1_def m1_def a_def)
  have b: "begin_S s1 = Iterator_end" by (simp add: begin_S_def s1_def)
  have i: "insert_range N Iterator_end Iterator_end s1 m1 = Some (s1, m1)"
    by (subst insert_range.simps) simp
  have "assign N this this w = Some \<lparr>objects = (objects w)(this \<mapsto> s1), mem = m1\<rparr>"
    using assms c b i by (simp add: assign_def)
  moreover have "heap m1 a = Some empty_leaf"
    by (simp add: m1_def a_def new_ExternalNode_def)
  moreover have "elements s1 m1 = Some []"
    by (simp add: elements_def b)
  ultimately show ?thesis
    by (intro exI [of _ "\<lparr>objects = (objects w)(this \<mapsto> s1), mem = m1\<rparr>"] exI [of _ s1]
        exI [of _ a]) (simp add: size_of_def s1_def)
qed

text \<open>A container holding 1 and 2 is empty after \<open>s = s\<close>.\<close>

theorem self_assignment_empties_witness:
  "elements \<lparr>sz = 2, root = External 0, left_leaf = 0\<rparr>
     \<lparr>heap = (\<lambda>a. None)(0 \<mapsto> \<lparr>vals = [1, 2 :: int], left_neighbour = None,
                                right_neighbour = None\<rparr>), brk = 1, internals = 0\<rparr> = Some [1, 2]
   \<and> (\<exists>w' s' a. assign 3 0 0
         \<lparr>objects = (\<lambda>c. None)(0 \<mapsto> \<lparr>sz = 2, root = External 0, left_leaf = 0\<rparr>),
          mem = \<lparr>heap = (\<lambda>a. None)(0 \<mapsto> \<lparr>vals = [1, 2 :: int], left_neighbour = None,
                                         right_neighbour = None\<rparr>), brk = 1, internals = 0\<rparr>\<rparr> = Some w'
        \<and> objects w' 0 = Some s' \<and> size_of s' = 0 \<and> root s' = External a
        \<and> heap (mem w') a = Some empty_leaf \<and> elements s' (mem w') = Some [])"
proof -
  let ?l = "\<lparr>vals = [1, 2 :: int], left_neighbour = None, right_neighbour = None\<rparr>"
  let ?m = "\<lparr>heap = (\<lambda>a. None)(0 \<mapsto> ?l), brk = 1, internals = 0\<rparr>"
  have "walk ?m \<lparr>current_node = Some 0, current_element = 0\<rparr> Iterator_end = Some [1, 2]"
    using walk_leaf [of ?m 0 ?l 0] by (simp add: Iterator_end_def [symmetric])
  then have "elements \<lparr>sz = 2, root = External 0, left_leaf = 0\<rparr> ?m = Some [1, 2]"
    by (simp add: elements_def begin_S_def)
  then show ?thesis
    using self_assignment_empties
      [of "\<lparr>objects = (\<lambda>c. None)(0 \<mapsto> \<lparr>sz = 2, root = External 0, left_leaf = 0\<rparr>),
            mem = ?m\<rparr>" 0 "\<lparr>sz = 2, root = External 0, left_leaf = 0\<rparr>" 3]
    by simp
qed

section \<open>Lists\<close>

text \<open>The arrays after \<open>ins_at\<close> and \<open>del_at\<close>.\<close>

lemma length_ins_at [simp]: "length (ins_at i x xs) = Suc (length xs)"
  by (simp add: ins_at_def)

lemma length_del_at [simp]: "i < length xs \<Longrightarrow> length (del_at i xs) = length xs - 1"
  by (simp add: del_at_def)

lemma nth_ins_at:
  "i \<le> length xs \<Longrightarrow> ins_at i x xs ! j = (if j < i then xs ! j else if j = i then x else xs ! (j - 1))"
proof -
  assume i: "i \<le> length xs"
  have "i + (j - i - 1) = j - 1" if "i < j" using that by arith
  then show ?thesis
    using i by (auto simp: ins_at_def nth_append min_def nth_Cons')
qed

lemma nth_del_at:
  "j < length xs - 1 \<Longrightarrow> del_at i xs ! j = (if j < i then xs ! j else xs ! Suc j)"
  by (auto simp: del_at_def nth_append min_def)

lemma set_ins_at [simp]: "set (ins_at i x xs) = insert x (set xs)"
proof -
  have "set (take i xs) \<union> set (drop i xs) = set xs"
    by (metis append_take_drop_id set_append)
  then show ?thesis by (auto simp: ins_at_def)
qed

lemma set_del_at_subset: "set (del_at i xs) \<subseteq> set xs"
  by (auto simp: del_at_def dest: in_set_takeD in_set_dropD)

lemma left_keys_last: "left_keys (length ks) ks = butlast ks"
  by (auto simp: left_keys_def intro!: nth_equalityI simp: nth_butlast)

lemma length_left_keys [simp]: "length (left_keys pos ks) = length ks - 1"
  by (simp add: left_keys_def)

section \<open>Filled nodes\<close>

text \<open>Splitting the one child that holds \<open>2N + 1\<close> keys leaves every child filled; so \<open>t_add\<close>
  returns a node with filled children, one key too many when it reports \<open>SPLIT\<close>.\<close>

lemma t_fill_t_node: "t_fill N h t = t_node N (2 * N) N h t"
  by (cases t) (auto simp: t_node_def)

lemma t_node_is_leaf: "t_node lo hi N h t \<Longrightarrow> is_leaf t = (h = 0)"
  by (cases t) (auto simp: t_node_def)

lemma t_node_size: "t_node lo hi N h t \<Longrightarrow> lo \<le> t_size t \<and> t_size t \<le> hi"
  by (cases t) (auto simp: t_node_def)

lemma t_node_weaken:
  "t_node lo hi N h t \<Longrightarrow> lo' \<le> t_size t \<Longrightarrow> t_size t \<le> hi' \<Longrightarrow> t_node lo' hi' N h t"
  by (cases t) (auto simp: t_node_def)

lemma t_split_fill:
  assumes shape: "length cs = Suc (length ks)" and pos: "pos \<le> length ks" and N: "0 < N"
    and over: "t_node (2 * N + 1) (2 * N + 1) N h (cs ! pos)"
    and others: "\<forall>i<length cs. i \<noteq> pos \<longrightarrow> t_fill N h (cs ! i)"
  shows "t_node (Suc (length ks)) (Suc (length ks)) N (Suc h) (t_split pos ks cs)"
proof (cases "cs ! pos")
  case (Leaf vs)
  then have len: "length vs = 2 * N + 1" and h: "h = 0" using over by (simp_all add: t_node_def)
  let ?cs = "ins_at (Suc pos) (Leaf (drop N vs)) (cs[pos := Leaf (take N vs)])"
  have split: "t_split pos ks cs = Node (ins_at pos (vs ! N) ks) ?cs"
    using Leaf len by (simp add: t_split_def)
  have fill: "t_fill N h (?cs ! i)" if "i < length ?cs" for i
    using that others shape pos len N h
    by (auto simp: nth_ins_at nth_list_update)
  then show ?thesis
    using shape by (auto simp: split t_node_def all_set_conv_all_nth simp del: set_ins_at)
next
  case (Node cks ccs)
  then have len: "length cks = 2 * N + 1" "length ccs = 2 * N + 2" and h: "0 < h"
    and sub: "\<forall>c\<in>set ccs. t_fill N (h - 1) c"
    using over by (simp_all add: t_node_def)
  let ?l = "Node (take N cks) (take (Suc N) ccs)"
  let ?r = "Node (drop (Suc N) cks) (drop (Suc N) ccs)"
  let ?cs = "ins_at (Suc pos) ?r (cs[pos := ?l])"
  have split: "t_split pos ks cs = Node (ins_at pos (cks ! N) ks) ?cs"
    using Node len by (simp add: t_split_def)
  have l: "t_fill N h ?l" and r: "t_fill N h ?r"
    using len sub h by (auto dest: in_set_takeD in_set_dropD)
  have fill: "t_fill N h (?cs ! i)" if "i < length ?cs" for i
    using that others shape pos l r
    by (auto simp: nth_ins_at nth_list_update simp del: t_fill.simps)
  then show ?thesis
    using shape
    by (auto simp: split t_node_def all_set_conv_all_nth simp del: set_ins_at t_fill.simps)
qed

lemma t_add_fill:
  assumes "t_node lo (2 * N) N h t" and "0 < N"
  shows "case t_add N x t of (r, t') \<Rightarrow>
           (r = SPLIT \<longrightarrow> t_node (2 * N + 1) (2 * N + 1) N h t')
           \<and> (r \<noteq> SPLIT \<longrightarrow> t_node lo (2 * N) N h t')
           \<and> (r = EXISTS \<longrightarrow> t' = t)"
  using assms
proof (induction N x t arbitrary: lo h rule: t_add.induct)
  case (1 N x vs)
  then show ?case by (auto simp: t_node_def max_size_def)
next
  case (2 N x ks cs)
  define pos where "pos = find_pos_I x ks"
  have shape: "length cs = Suc (length ks)" and ks: "lo \<le> length ks" "length ks \<le> 2 * N"
    and sub: "\<forall>c\<in>set cs. t_fill N (h - 1) c" and h: "0 < h"
    using "2.prems"(1) by (simp_all add: t_node_def)
  have pos: "pos \<le> length ks" "pos < length cs"
    using find_pos_I_le [of x ks] shape by (simp_all add: pos_def)
  obtain r c' where rec: "t_add N x (cs ! pos) = (r, c')" by (cases "t_add N x (cs ! pos)")
  have child: "t_node N (2 * N) N (h - 1) (cs ! pos)"
    using sub pos by (simp add: t_fill_t_node [symmetric])
  have nshape: "\<not> length cs \<noteq> Suc (length ks)" using shape by simp
  from "2.IH" [OF nshape child [unfolded pos_def] "2.prems"(2)] rec
  have ih: "r = SPLIT \<Longrightarrow> t_node (2 * N + 1) (2 * N + 1) N (h - 1) c'"
    "r \<noteq> SPLIT \<Longrightarrow> t_fill N (h - 1) c'" "r = EXISTS \<Longrightarrow> c' = cs ! pos"
    by (auto simp: pos_def t_fill_t_node)
  let ?cs = "cs[pos := c']"
  have others: "\<forall>i<length ?cs. i \<noteq> pos \<longrightarrow> t_fill N (h - 1) (?cs ! i)"
    using sub by (simp add: all_set_conv_all_nth)
  show ?case
  proof (cases "r = SPLIT")
    case True
    have "t_node (Suc (length ks)) (Suc (length ks)) N (Suc (h - 1)) (t_split pos ks ?cs)"
      using shape pos "2.prems"(2) ih(1) [OF True] others
      by (intro t_split_fill) simp_all
    then have node: "t_node (Suc (length ks)) (Suc (length ks)) N h (t_split pos ks ?cs)"
      using h by simp
    then have "t_size (t_split pos ks ?cs) = Suc (length ks)"
      using t_node_size by fastforce
    then show ?thesis
      using True shape rec ks t_node_weaken [OF node]
      by (auto simp: pos_def [symmetric] Let_def max_size_def)
  next
    case False
    have "\<forall>c\<in>set ?cs. t_fill N (h - 1) c"
      using others ih(2) [OF False] pos by (auto simp: all_set_conv_all_nth nth_list_update)
    then have node: "t_node lo (2 * N) N h (Node ks ?cs)"
      using shape ks h by (simp add: t_node_def)
    have "?cs = cs" if "r = EXISTS" using ih(3) [OF that] by simp
    then show ?thesis
      using False shape rec node by (auto simp: pos_def [symmetric])
  qed
qed

section \<open>Rebalancing filled nodes\<close>

text \<open>On a node whose child at \<open>pos\<close> holds \<open>N - 1\<close> keys and whose other children are filled,
  every branch of \<open>t_merge\<close> leaves the children filled and takes at most one key from the
  node; so \<open>t_remove\<close> returns a node with filled children, one key short when it reports
  \<open>MERGE\<close>.\<close>

lemma decide_cases:
  assumes "0 < n" and "pos \<le> n" and "\<forall>i\<le>n. i \<noteq> pos \<longrightarrow> N \<le> sizes i"
  shows "decide N pos n sizes =
           (if pos = 0 then (if N < sizes 1 then MoveFromRight else Fuse RIGHT)
            else if pos = n then (if N < sizes (pos - 1) then MoveFromLeft else Fuse LEFT)
            else if sizes (pos - 1) < sizes (pos + 1) then MoveFromRight
            else if N < sizes (pos - 1) then MoveFromLeft
            else Fuse RIGHT)"
proof -
  consider "pos = 0" | "pos = n" "0 < pos" | "0 < pos" "pos < n"
    using assms(2) by linarith
  then show ?thesis
  proof cases
    case 1
    then show ?thesis using assms(1) by (simp add: decide_def)
  next
    case 2
    then show ?thesis by (simp add: decide_def)
  next
    case 3
    then have "N \<le> sizes (pos - 1)" "N \<le> sizes (pos + 1)" using assms(3) by simp_all
    then show ?thesis using 3 by (auto simp: decide_def)
  qed
qed

lemma nth_update_if: "xs[i := x] ! j = (if i = j \<and> i < length xs then x else xs ! j)"
  by (cases "i < length xs") (auto simp: nth_list_update list_update_beyond)

lemma all_but_update2:
  assumes "\<forall>i<length cs. i \<noteq> p \<longrightarrow> P (cs ! i)" and "P A" and "P B"
  shows "\<forall>c\<in>set (cs[p := A, q := B]). P c" and "\<forall>c\<in>set (cs[q := B, p := A]). P c"
  using assms by (auto simp: all_set_conv_all_nth nth_update_if)

lemma all_but_update_del:
  assumes "\<forall>i<length cs. i \<noteq> p \<longrightarrow> P (cs ! i)" and "P A"
  shows "\<forall>c\<in>set (del_at q (cs[p := A])). P c"
proof -
  have "\<forall>c\<in>set (cs[p := A]). P c"
    using assms by (auto simp: all_set_conv_all_nth nth_update_if)
  then show ?thesis using set_del_at_subset by fastforce
qed

lemma all_but_del_update:
  assumes "\<forall>i<length cs. i \<noteq> p \<longrightarrow> P (cs ! i)" and "P A" and "q \<noteq> p"
  shows "\<forall>c\<in>set (del_at p (cs[q := A])). P c"
proof
  fix c
  assume "c \<in> set (del_at p (cs[q := A]))"
  then consider "c \<in> set (take p (cs[q := A]))" | "c \<in> set (drop (Suc p) (cs[q := A]))"
    by (auto simp: del_at_def)
  then obtain i where "i < length cs" "i \<noteq> p" "c = cs[q := A] ! i"
  proof cases
    case 1
    then show ?thesis using that by (auto simp: in_set_conv_nth)
  next
    case 2
    then obtain j where "j < length cs - Suc p" "c = cs[q := A] ! (Suc p + j)"
      by (auto simp: in_set_conv_nth)
    then show ?thesis using that [of "Suc p + j"] by auto
  qed
  then show "P c" using assms by (auto simp: nth_update_if)
qed


lemma t_move_from_right_fill:
  assumes shape: "length cs = Suc (length ks)" and pos: "pos < length ks" and N: "0 < N"
    and under: "t_node (N - 1) (N - 1) N h (cs ! pos)"
    and sib: "N < t_size (cs ! Suc pos)"
    and others: "\<forall>i<length cs. i \<noteq> pos \<longrightarrow> t_fill N h (cs ! i)"
  shows "t_node (length ks) (length ks) N (Suc h) (t_move_from_right pos ks cs)"
proof -
  have sf: "t_fill N h (cs ! Suc pos)" using others shape pos by simp
  show ?thesis
  proof (cases "cs ! pos")
    case (Leaf a)
    then have a: "length a = N - 1" and h: "h = 0" using under by (simp_all add: t_node_def)
    then obtain b where b: "cs ! Suc pos = Leaf b" using sf by (cases "cs ! Suc pos") auto
    then have lb: "N < length b" "length b \<le> 2 * N" using sf sib by simp_all
    let ?cs = "cs[pos := Leaf (a @ [b ! 0]), Suc pos := Leaf (tl b)]"
    have "\<forall>c\<in>set ?cs. t_fill N h c"
      using a lb N h by (intro all_but_update2 [OF others]) auto
    then show ?thesis
      using Leaf b shape by (simp add: t_move_from_right_def t_node_def)
  next
    case (Node aks acs)
    then have a0: "length aks = N - 1" "length acs = Suc (length aks)" and h: "0 < h"
      and asub: "\<forall>c\<in>set acs. t_fill N (h - 1) c"
      using under by (simp_all add: t_node_def)
    have a: "length aks = N - 1" "length acs = N" using a0 N by simp_all
    obtain bks bcs where b: "cs ! Suc pos = Node bks bcs"
      using sf h by (cases "cs ! Suc pos") auto
    then have lb: "N < length bks" "length bks \<le> 2 * N" "length bcs = Suc (length bks)"
      and bsub: "\<forall>c\<in>set bcs. t_fill N (h - 1) c"
      using sf sib by simp_all
    have b0: "t_fill N (h - 1) (bcs ! 0)" using bsub lb by simp
    have btl: "\<forall>c\<in>set (tl bcs). t_fill N (h - 1) c"
      using bsub by (cases bcs) auto
    let ?A = "Node (aks @ [ks ! pos]) (acs @ [bcs ! 0])"
    let ?B = "Node (tl bks) (tl bcs)"
    have A: "t_fill N h ?A" using a asub b0 h N by auto
    have B: "t_fill N h ?B" using lb btl h by auto
    let ?cs = "cs[pos := ?A, Suc pos := ?B]"
    have "\<forall>c\<in>set ?cs. t_fill N h c"
      by (intro all_but_update2 [OF others] A B)
    then show ?thesis
      using Node b shape by (simp add: t_move_from_right_def t_node_def del: t_fill.simps)
  qed
qed

lemma t_move_from_left_fill:
  assumes shape: "length cs = Suc (length ks)" and pos: "0 < pos" "pos \<le> length ks"
    and N: "0 < N"
    and under: "t_node (N - 1) (N - 1) N h (cs ! pos)"
    and sib: "N < t_size (cs ! (pos - 1))"
    and others: "\<forall>i<length cs. i \<noteq> pos \<longrightarrow> t_fill N h (cs ! i)"
  shows "t_node (length ks) (length ks) N (Suc h) (t_move_from_left pos ks cs)"
proof -
  have pm: "pos - 1 < length cs" "pos - 1 \<noteq> pos" using shape pos by arith+
  then have sf: "t_fill N h (cs ! (pos - 1))" using others by blast
  show ?thesis
  proof (cases "cs ! pos")
    case (Leaf a)
    then have a: "length a = N - 1" and h: "h = 0" using under by (simp_all add: t_node_def)
    then obtain b where b: "cs ! (pos - 1) = Leaf b" using sf by (cases "cs ! (pos - 1)") auto
    then have lb: "N < length b" "length b \<le> 2 * N" using sf sib by simp_all
    let ?cs = "cs[pos := Leaf (last b # a), pos - 1 := Leaf (butlast b)]"
    have "\<forall>c\<in>set ?cs. t_fill N h c"
      using a lb N h by (intro all_but_update2 [OF others]) auto
    then show ?thesis
      using Leaf b shape by (simp add: t_move_from_left_def t_node_def)
  next
    case (Node aks acs)
    then have a0: "length aks = N - 1" "length acs = Suc (length aks)" and h: "0 < h"
      and asub: "\<forall>c\<in>set acs. t_fill N (h - 1) c"
      using under by (simp_all add: t_node_def)
    have a: "length aks = N - 1" "length acs = N" using a0 N by simp_all
    obtain bks bcs where b: "cs ! (pos - 1) = Node bks bcs"
      using sf h by (cases "cs ! (pos - 1)") auto
    then have lb: "N < length bks" "length bks \<le> 2 * N" "length bcs = Suc (length bks)"
      and bsub: "\<forall>c\<in>set bcs. t_fill N (h - 1) c"
      using sf sib by simp_all
    have "bcs \<noteq> []" using lb by auto
    then have bl: "t_fill N (h - 1) (last bcs)" using bsub by (auto intro: last_in_set)
    have bbl: "\<forall>c\<in>set (butlast bcs). t_fill N (h - 1) c"
      using bsub by (auto dest: in_set_butlastD)
    let ?A = "Node (ks ! (pos - 1) # aks) (last bcs # acs)"
    let ?B = "Node (butlast bks) (butlast bcs)"
    have A: "t_fill N h ?A" using a asub bl h N by auto
    have B: "t_fill N h ?B" using lb bbl h by auto
    let ?cs = "cs[pos := ?A, pos - 1 := ?B]"
    have "\<forall>c\<in>set ?cs. t_fill N h c"
      by (intro all_but_update2 [OF others] A B)
    then show ?thesis
      using Node b shape by (simp add: t_move_from_left_def t_node_def del: t_fill.simps)
  qed
qed

lemma t_fuse_right_fill:
  assumes shape: "length cs = Suc (length ks)" and pos: "pos < length ks" and N: "0 < N"
    and under: "t_node (N - 1) (N - 1) N h (cs ! pos)"
    and sib: "t_size (cs ! Suc pos) = N"
    and others: "\<forall>i<length cs. i \<noteq> pos \<longrightarrow> t_fill N h (cs ! i)"
  shows "t_node (length ks - 1) (length ks - 1) N (Suc h) (t_fuse_right pos ks cs)"
proof -
  have sf: "t_fill N h (cs ! Suc pos)" using others shape pos by simp
  show ?thesis
  proof (cases "cs ! pos")
    case (Leaf a)
    then have a: "length a = N - 1" and h: "h = 0" using under by (simp_all add: t_node_def)
    then obtain b where b: "cs ! Suc pos = Leaf b" using sf by (cases "cs ! Suc pos") auto
    then have lb: "length b = N" using sib by simp
    let ?cs = "del_at (Suc pos) (cs[pos := Leaf (a @ b)])"
    have "\<forall>c\<in>set ?cs. t_fill N h c"
      using a lb N h by (intro all_but_update_del [OF others]) auto
    then show ?thesis
      using Leaf b shape pos by (simp add: t_fuse_right_def t_node_def del_at_def)
  next
    case (Node aks acs)
    then have a0: "length aks = N - 1" "length acs = Suc (length aks)" and h: "0 < h"
      and asub: "\<forall>c\<in>set acs. t_fill N (h - 1) c"
      using under by (simp_all add: t_node_def)
    have a: "length aks = N - 1" "length acs = N" using a0 N by simp_all
    obtain bks bcs where b: "cs ! Suc pos = Node bks bcs"
      using sf h by (cases "cs ! Suc pos") auto
    then have lb: "length bks = N" "length bcs = Suc N"
      and bsub: "\<forall>c\<in>set bcs. t_fill N (h - 1) c"
      using sf sib by simp_all
    let ?A = "Node (aks @ [ks ! pos] @ bks) (acs @ bcs)"
    have A: "t_fill N h ?A" using a asub lb bsub h N by auto
    let ?cs = "del_at (Suc pos) (cs[pos := ?A])"
    have "\<forall>c\<in>set ?cs. t_fill N h c"
      by (intro all_but_update_del [OF others] A)
    then show ?thesis
      using Node b shape pos
      by (simp add: t_fuse_right_def t_node_def del_at_def del: t_fill.simps)
  qed
qed

lemma t_fuse_left_fill:
  assumes shape: "length cs = Suc (length ks)" and pos: "0 < pos" "pos = length ks"
    and N: "0 < N"
    and under: "t_node (N - 1) (N - 1) N h (cs ! pos)"
    and sib: "t_size (cs ! (pos - 1)) = N"
    and others: "\<forall>i<length cs. i \<noteq> pos \<longrightarrow> t_fill N h (cs ! i)"
  shows "t_node (length ks - 1) (length ks - 1) N (Suc h) (t_fuse_left pos ks cs)"
proof -
  have pm: "pos - 1 < length cs" "pos - 1 \<noteq> pos" using shape pos by arith+
  then have sf: "t_fill N h (cs ! (pos - 1))" using others by blast
  show ?thesis
  proof (cases "cs ! pos")
    case (Leaf a)
    then have a: "length a = N - 1" and h: "h = 0" using under by (simp_all add: t_node_def)
    then obtain b where b: "cs ! (pos - 1) = Leaf b" using sf by (cases "cs ! (pos - 1)") auto
    then have lb: "length b = N" using sib by simp
    let ?cs = "del_at pos (cs[pos - 1 := Leaf (b @ a)])"
    have "t_fill N h (Leaf (b @ a))" using a lb N h by auto
    then have "\<forall>c\<in>set ?cs. t_fill N h c"
      by (intro all_but_del_update [OF others _ pm(2)])
    then show ?thesis
      using Leaf b shape pos by (simp add: t_fuse_left_def t_node_def del_at_def)
  next
    case (Node aks acs)
    then have a0: "length aks = N - 1" "length acs = Suc (length aks)" and h: "0 < h"
      and asub: "\<forall>c\<in>set acs. t_fill N (h - 1) c"
      using under by (simp_all add: t_node_def)
    have a: "length aks = N - 1" "length acs = N" using a0 N by simp_all
    obtain bks bcs where b: "cs ! (pos - 1) = Node bks bcs"
      using sf h by (cases "cs ! (pos - 1)") auto
    then have lb: "length bks = N" "length bcs = Suc N"
      and bsub: "\<forall>c\<in>set bcs. t_fill N (h - 1) c"
      using sf sib by simp_all
    let ?A = "Node (bks @ [ks ! (pos - 1)] @ aks) (bcs @ acs)"
    have A: "t_fill N h ?A" using a asub lb bsub h N by auto
    let ?cs = "del_at pos (cs[pos - 1 := ?A])"
    have "\<forall>c\<in>set ?cs. t_fill N h c"
      by (intro all_but_del_update [OF others A pm(2)])
    then show ?thesis
      using Node b shape pos
      by (simp add: t_fuse_left_def t_node_def del_at_def del: t_fill.simps)
  qed
qed

lemma t_fill_size: "t_fill N h t \<Longrightarrow> N \<le> t_size t \<and> t_size t \<le> 2 * N"
  by (cases t) auto

lemma t_merge_fill:
  assumes shape: "length cs = Suc (length ks)" and pos: "pos \<le> length ks"
    and ks: "0 < length ks" and N: "0 < N"
    and under: "t_node (N - 1) (N - 1) N h (cs ! pos)"
    and others: "\<forall>i<length cs. i \<noteq> pos \<longrightarrow> t_fill N h (cs ! i)"
  shows "t_node (length ks - 1) (length ks) N (Suc h) (t_merge N pos ks cs)"
proof -
  let ?sizes = "\<lambda>i. t_size (cs ! i)"
  have sz: "\<forall>i\<le>length ks. i \<noteq> pos \<longrightarrow> N \<le> ?sizes i"
  proof (intro allI impI)
    fix i
    assume "i \<le> length ks" "i \<noteq> pos"
    then have "t_fill N h (cs ! i)" using others shape by simp
    then show "N \<le> ?sizes i" using t_fill_size by blast
  qed
  note d = decide_cases [OF ks pos sz]
  have up: "\<And>t. t_node (length ks) (length ks) N (Suc h) t
              \<Longrightarrow> t_node (length ks - 1) (length ks) N (Suc h) t"
    and down: "\<And>t. t_node (length ks - 1) (length ks - 1) N (Suc h) t
              \<Longrightarrow> t_node (length ks - 1) (length ks) N (Suc h) t"
    by (auto simp: t_node_def split: tree.splits)
  have mr: "t_node (length ks - 1) (length ks) N (Suc h) (t_merge N pos ks cs)"
    if "decide N pos (length ks) ?sizes = MoveFromRight" "pos < length ks" "N < ?sizes (Suc pos)"
  proof -
    have "t_node (length ks) (length ks) N (Suc h) (t_move_from_right pos ks cs)"
      using shape that(2) N under that(3) others by (rule t_move_from_right_fill)
    then have "t_node (length ks - 1) (length ks) N (Suc h) (t_move_from_right pos ks cs)" by (rule up)
    then show ?thesis using that(1) by (simp add: t_merge_def)
  qed
  have ml: "t_node (length ks - 1) (length ks) N (Suc h) (t_merge N pos ks cs)"
    if "decide N pos (length ks) ?sizes = MoveFromLeft" "0 < pos" "N < ?sizes (pos - 1)"
  proof -
    have "t_node (length ks) (length ks) N (Suc h) (t_move_from_left pos ks cs)"
      using shape that(2) pos N under that(3) others by (rule t_move_from_left_fill)
    then have "t_node (length ks - 1) (length ks) N (Suc h) (t_move_from_left pos ks cs)" by (rule up)
    then show ?thesis using that(1) by (simp add: t_merge_def)
  qed
  have fr: "t_node (length ks - 1) (length ks) N (Suc h) (t_merge N pos ks cs)"
    if "decide N pos (length ks) ?sizes = Fuse RIGHT" "pos < length ks" "?sizes (Suc pos) = N"
  proof -
    have "t_node (length ks - 1) (length ks - 1) N (Suc h) (t_fuse_right pos ks cs)"
      using shape that(2) N under that(3) others by (rule t_fuse_right_fill)
    then have "t_node (length ks - 1) (length ks) N (Suc h) (t_fuse_right pos ks cs)" by (rule down)
    then show ?thesis using that(1) by (simp add: t_merge_def)
  qed
  have fl: "t_node (length ks - 1) (length ks) N (Suc h) (t_merge N pos ks cs)"
    if "decide N pos (length ks) ?sizes = Fuse LEFT" "0 < pos" "pos = length ks"
      "?sizes (pos - 1) = N"
  proof -
    have "t_node (length ks - 1) (length ks - 1) N (Suc h) (t_fuse_left pos ks cs)"
      using shape that(2) that(3) N under that(4) others by (rule t_fuse_left_fill)
    then have "t_node (length ks - 1) (length ks) N (Suc h) (t_fuse_left pos ks cs)" by (rule down)
    then show ?thesis using that(1) by (simp add: t_merge_def)
  qed
  consider "pos = 0" | "pos = length ks" "0 < pos" | "0 < pos" "pos < length ks"
    using pos by linarith
  then show ?thesis
  proof cases
    case 1
    have one: "(1::nat) \<le> length ks" "(1::nat) \<noteq> pos" "pos < length ks" "Suc pos = 1"
      using ks 1 by (simp_all add: Suc_le_eq)
    then have s: "N \<le> ?sizes 1" using sz by blast
    show ?thesis
    proof (cases "N < ?sizes 1")
      case True
      then show ?thesis using d 1 one by (intro mr) simp_all
    next
      case False
      then have "?sizes 1 = N" using s by simp
      then show ?thesis using d 1 one False by (intro fr) simp_all
    qed
  next
    case 2
    have "pos - 1 \<le> length ks" "pos - 1 \<noteq> pos" using 2 by arith+
    then have s: "N \<le> ?sizes (pos - 1)" using sz by blast
    have ne: "pos \<noteq> 0" using 2 by simp
    show ?thesis
    proof (cases "N < ?sizes (pos - 1)")
      case True
      then show ?thesis using d 2 ne by (intro ml) simp_all
    next
      case False
      then have "?sizes (pos - 1) = N" using s by simp
      then show ?thesis using d 2 ne False by (intro fl) simp_all
    qed
  next
    case 3
    have "pos - 1 \<le> length ks" "pos - 1 \<noteq> pos" "Suc pos \<le> length ks" "Suc pos \<noteq> pos"
      using 3 by arith+
    then have l: "N \<le> ?sizes (pos - 1)" and r: "N \<le> ?sizes (Suc pos)" using sz by blast+
    have ne: "pos \<noteq> 0" "pos \<noteq> length ks" using 3 by simp_all
    show ?thesis
    proof (cases "?sizes (pos - 1) < ?sizes (pos + 1)")
      case True
      then have "N < ?sizes (Suc pos)" using l by simp
      then show ?thesis using d 3 ne True by (intro mr) simp_all
    next
      case ge: False
      show ?thesis
      proof (cases "N < ?sizes (pos - 1)")
        case True
        then show ?thesis using d 3 ne ge by (intro ml) simp_all
      next
        case False
        then have "?sizes (Suc pos) = N" using ge l r by simp
        then show ?thesis using d 3 ne ge False by (intro fr) simp_all
      qed
    qed
  qed
qed


lemma t_remove_fill:
  assumes "t_node lo (2 * N) N h t" and "lo \<le> N" and "0 < N" and "is_leaf t \<or> 0 < t_size t"
  shows "case t_remove N x t of (r, t') \<Rightarrow>
           (r = MERGE \<longrightarrow> t_node (lo - 1) (N - 1) N h t')
           \<and> (r \<noteq> MERGE \<longrightarrow> t_node lo (2 * N) N h t')
           \<and> (r = NOT_EXISTENT \<longrightarrow> t' = t)"
  using assms
proof (induction N x t arbitrary: lo h rule: t_remove.induct)
  case (1 N x vs)
  show ?case
  proof (cases "find_pos_E vs x = - 1")
    case True
    then show ?thesis using "1.prems" by simp
  next
    case False
    then have "nat (find_pos_E vs x) < length vs"
      using find_pos_E_result [of vs x] by simp
    then have "length (del_at (nat (find_pos_E vs x)) vs) = length vs - 1" by simp
    then show ?thesis
      using False "1.prems" by (auto simp: t_node_def min_size_def)
  qed
next
  case (2 N x ks cs)
  define pos where "pos = find_pos_I x ks"
  have shape: "length cs = Suc (length ks)" and ks: "lo \<le> length ks" "length ks \<le> 2 * N"
    and sub: "\<forall>c\<in>set cs. t_fill N (h - 1) c" and h: "0 < h"
    using "2.prems"(1) by (simp_all add: t_node_def)
  have ks0: "0 < length ks" using "2.prems"(4) by simp
  have pos: "pos \<le> length ks" "pos < length cs"
    using find_pos_I_le [of x ks] shape by (simp_all add: pos_def)
  obtain r c' where rec: "t_remove N x (cs ! pos) = (r, c')" by (cases "t_remove N x (cs ! pos)")
  have cf: "t_fill N (h - 1) (cs ! pos)" using sub pos by simp
  then have child: "t_node N (2 * N) N (h - 1) (cs ! pos)"
    by (simp add: t_fill_t_node [symmetric])
  have csize: "is_leaf (cs ! pos) \<or> 0 < t_size (cs ! pos)"
    using t_fill_size [OF cf] "2.prems"(3) by simp
  have nshape: "\<not> length cs \<noteq> Suc (length ks)" using shape by simp
  from "2.IH" [OF nshape child [unfolded pos_def] order_refl "2.prems"(3) csize [unfolded pos_def]]
    rec
  have ih: "r = MERGE \<Longrightarrow> t_node (N - 1) (N - 1) N (h - 1) c'"
    "r \<noteq> MERGE \<Longrightarrow> t_fill N (h - 1) c'" "r = NOT_EXISTENT \<Longrightarrow> c' = cs ! pos"
    by (auto simp: pos_def t_fill_t_node)
  let ?cs = "cs[pos := c']"
  have others: "\<forall>i<length ?cs. i \<noteq> pos \<longrightarrow> t_fill N (h - 1) (?cs ! i)"
    using sub by (simp add: all_set_conv_all_nth)
  show ?case
  proof (cases "r = MERGE")
    case True
    have "t_node (length ks - 1) (length ks) N (Suc (h - 1)) (t_merge N pos ks ?cs)"
      using shape pos ks0 "2.prems"(3) ih(1) [OF True] others
      by (intro t_merge_fill) simp_all
    then have node: "t_node (length ks - 1) (length ks) N h (t_merge N pos ks ?cs)"
      using h by simp
    have sz: "length ks - 1 \<le> t_size (t_merge N pos ks ?cs)"
      "t_size (t_merge N pos ks ?cs) \<le> length ks"
      using t_node_size [OF node] by simp_all
    have a: "t_node (lo - 1) (N - 1) N h (t_merge N pos ks ?cs)"
      if "\<not> N \<le> t_size (t_merge N pos ks ?cs)"
      using that sz ks by (intro t_node_weaken [OF node]) arith+
    have b: "t_node lo (2 * N) N h (t_merge N pos ks ?cs)"
      if "N \<le> t_size (t_merge N pos ks ?cs)"
      using that sz ks "2.prems"(2) by (intro t_node_weaken [OF node]) arith+
    show ?thesis
      using True shape rec a b
      by (auto simp: pos_def [symmetric] Let_def min_size_def)
  next
    case False
    have "\<forall>c\<in>set ?cs. t_fill N (h - 1) c"
      using others ih(2) [OF False] pos by (auto simp: all_set_conv_all_nth nth_list_update)
    then have node: "t_node lo (2 * N) N h (Node ks ?cs)"
      using shape ks h by (simp add: t_node_def)
    have "?cs = cs" if "r = NOT_EXISTENT" using ih(3) [OF that] by simp
    then show ?thesis
      using False shape rec node by (auto simp: pos_def [symmetric])
  qed
qed

section \<open>The chain of leaves\<close>

text \<open>The chain of a list of leaves in parts, with a leaf linked in after another, and with a leaf
  taken out.\<close>

lemma first_or_simps [simp]:
  "first_or n [] = n" "first_or n (b # bs) = Some b"
  "as \<noteq> [] \<Longrightarrow> first_or n (as @ bs) = first_or n' as"
  by (cases as; simp add: first_or_def)+

lemma first_or_append: "first_or n (as @ bs) = first_or (first_or n bs) as"
  by (cases as) (simp_all add: first_or_def)

lemma last_or_simps [simp]:
  "last_or p [] = p" "last_or p (b # bs) = Some (last (b # bs))" "last_or p (as @ [a]) = Some a"
  by (simp_all add: last_or_def)

lemma chain_Cons [simp]:
  "chain m p (a # as) n =
     (\<exists>l. heap m a = Some l \<and> left_neighbour l = p \<and> right_neighbour l = first_or n as
          \<and> chain m (Some a) as n)"
  by (auto simp: first_or_def split: option.splits list.splits)

declare chain.simps(2) [simp del]

lemma chain_append:
  "chain m p (xs @ ys) n = (chain m p xs (first_or n ys) \<and> chain m (last_or p xs) ys n)"
proof (induction xs arbitrary: p)
  case Nil
  then show ?case by simp
next
  case (Cons x xs)
  have "last_or (Some x) xs = last_or p (x # xs)" by (simp add: last_or_def)
  then show ?case by (auto simp: Cons.IH first_or_append)
qed

lemma chain_live: "chain m p as n \<Longrightarrow> a \<in> set as \<Longrightarrow> \<exists>l. heap m a = Some l"
  by (induction as arbitrary: p) auto

lemma chain_cong:
  assumes "\<forall>a\<in>set as. \<forall>l. heap m a = Some l \<longrightarrow>
              (\<exists>l'. heap m' a = Some l' \<and> left_neighbour l' = left_neighbour l
                 \<and> right_neighbour l' = right_neighbour l)"
  shows "chain m p as n \<Longrightarrow> chain m' p as n"
  using assms
proof (induction as arbitrary: p)
  case Nil
  then show ?case by simp
next
  case (Cons a as)
  from Cons.prems(1) obtain l where l: "heap m a = Some l" "left_neighbour l = p"
    "right_neighbour l = first_or n as" "chain m (Some a) as n"
    by auto
  from Cons.prems(2) l(1) obtain l' where l': "heap m' a = Some l'"
    "left_neighbour l' = left_neighbour l" "right_neighbour l' = right_neighbour l"
    by auto
  have "chain m' (Some a) as n" using l(4) Cons.prems(2) by (intro Cons.IH) auto
  then show ?case using l l' by simp
qed

lemma chain_outside: "\<forall>a\<in>set as. heap m' a = heap m a \<Longrightarrow> chain m p as n \<Longrightarrow> chain m' p as n"
  by (rule chain_cong) auto

lemma chain_insert:
  assumes ch: "chain m p (X @ a # Y) None" and d: "distinct (X @ a # Y)"
    and r: "r \<notin> set (X @ a # Y)" and l: "heap m a = Some l"
    and a': "heap m' a = Some la'" "left_neighbour la' = left_neighbour l"
      "right_neighbour la' = Some r"
    and r': "heap m' r = Some lr" "left_neighbour lr = Some a"
      "right_neighbour lr = right_neighbour l"
    and rest: "\<forall>x. x \<noteq> a \<longrightarrow> x \<noteq> r \<longrightarrow> heap m' x =
        (if right_neighbour l = Some x
         then map_option (\<lambda>lb. lb\<lparr>left_neighbour := Some r\<rparr>) (heap m x) else heap m x)"
  shows "chain m' p (X @ a # r # Y) None"
proof -
  from ch have X: "chain m p X (Some a)" and aY: "chain m (last_or p X) (a # Y) None"
    by (simp_all add: chain_append)
  from aY l have la: "left_neighbour l = last_or p X" "right_neighbour l = first_or None Y"
    and Y: "chain m (Some a) Y None"
    by auto
  have nY: "first_or None Y = Some x \<Longrightarrow> x \<in> set Y" for x
    by (cases Y) auto
  have out: "heap m' x = heap m x" if "x \<noteq> a" "x \<noteq> r" "x \<notin> set Y" for x
  proof -
    have "right_neighbour l \<noteq> Some x" using la(2) nY that(3) by auto
    then show ?thesis using rest that by simp
  qed
  have "\<forall>x\<in>set X. heap m' x = heap m x"
    using d r by (auto intro!: out)
  then have X': "chain m' p X (Some a)" using X by (rule chain_outside)
  have Y': "chain m' (Some r) Y None"
  proof (cases Y)
    case Nil
    then show ?thesis by simp
  next
    case (Cons y Y')
    with Y obtain ly where ly: "heap m y = Some ly" "left_neighbour ly = Some a"
      "right_neighbour ly = first_or None Y'" "chain m (Some y) Y' None"
      by auto
    have y: "y \<noteq> a" "y \<noteq> r" using d r Cons by auto
    have "heap m' y = Some (ly\<lparr>left_neighbour := Some r\<rparr>)"
      using rest y la(2) ly(1) Cons by simp
    moreover have "\<forall>x\<in>set Y'. heap m' x = heap m x"
      using rest d r la(2) Cons by auto
    then have "chain m' (Some y) Y' None" using ly(4) by (rule chain_outside)
    ultimately show ?thesis using ly Cons by simp
  qed
  show ?thesis
    using X' Y' a' r' la by (simp add: chain_append)
qed

lemma chain_remove:
  assumes ch: "chain m p (X @ a # b # Y) None" and d: "distinct (X @ a # b # Y)"
    and la: "heap m a = Some la" and lb: "heap m b = Some lb"
    and a': "heap m' a = Some la'" "left_neighbour la' = left_neighbour la"
      "right_neighbour la' = right_neighbour lb"
    and rest: "\<forall>x. x \<noteq> a \<longrightarrow> x \<noteq> b \<longrightarrow> heap m' x =
        (if right_neighbour lb = Some x
         then map_option (\<lambda>l. l\<lparr>left_neighbour := Some a\<rparr>) (heap m x) else heap m x)"
  shows "chain m' p (X @ a # Y) None"
proof -
  from ch have X: "chain m p X (Some a)" and abY: "chain m (last_or p X) (a # b # Y) None"
    by (simp_all add: chain_append)
  from abY la lb have pa: "left_neighbour la = last_or p X"
    and pb: "right_neighbour lb = first_or None Y"
    and Y: "chain m (Some b) Y None"
    by auto
  have nY: "first_or None Y = Some x \<Longrightarrow> x \<in> set Y" for x
    by (cases Y) auto
  have out: "heap m' x = heap m x" if "x \<noteq> a" "x \<noteq> b" "x \<notin> set Y" for x
  proof -
    have "right_neighbour lb \<noteq> Some x" using pb nY that(3) by auto
    then show ?thesis using rest that by simp
  qed
  have "\<forall>x\<in>set X. heap m' x = heap m x"
    using d by (auto intro!: out)
  then have X': "chain m' p X (Some a)" using X by (rule chain_outside)
  have Y': "chain m' (Some a) Y None"
  proof (cases Y)
    case Nil
    then show ?thesis by simp
  next
    case (Cons y Y')
    with Y obtain ly where ly: "heap m y = Some ly" "left_neighbour ly = Some b"
      "right_neighbour ly = first_or None Y'" "chain m (Some y) Y' None"
      by auto
    have y: "y \<noteq> a" "y \<noteq> b" using d Cons by auto
    have "heap m' y = Some (ly\<lparr>left_neighbour := Some a\<rparr>)"
      using rest y pb ly(1) Cons by simp
    moreover have "\<forall>x\<in>set Y'. heap m' x = heap m x"
      using rest d pb Cons by auto
    then have "chain m' (Some y) Y' None" using ly(4) by (rule chain_outside)
    ultimately show ?thesis using ly Cons by simp
  qed
  show ?thesis
    using X' Y' a' pa pb by (simp add: chain_append)
qed

section \<open>Reading a tree out of the heap\<close>

text \<open>The value of a tree depends on its leaves only; \<open>vals_changed A\<close> says that an operation
  wrote keys into the leaves at \<open>A\<close> and nothing else.\<close>

lemma tree_of_frame:
  "\<forall>a\<in>set (leaves t). vals_at m' a = vals_at m a \<Longrightarrow> tree_of m' t = tree_of m t"
  by (induction t) auto

lemma leaves_nonempty_fill: "t_fill N h (tree_of m t) \<Longrightarrow> leaves t \<noteq> []"
proof (induction t arbitrary: h)
  case (External a)
  then show ?case by simp
next
  case (Internal ks cs)
  then have "cs \<noteq> []" and "t_fill N (h - 1) (tree_of m (hd cs))"
    by (cases cs; simp)+
  then have "leaves (hd cs) \<noteq> []" using Internal.IH [of "hd cs"] by simp
  then show ?case using \<open>cs \<noteq> []\<close> by (cases cs) auto
qed

lemma leaves_nonempty: "t_node lo hi N h (tree_of m t) \<Longrightarrow> leaves t \<noteq> []"
proof (cases t)
  case (External a)
  then show ?thesis by simp
next
  case (Internal ks cs)
  assume "t_node lo hi N h (tree_of m t)"
  then have "cs \<noteq> []" and "t_fill N (h - 1) (tree_of m (hd cs))"
    using Internal by (cases cs; simp add: t_node_def)+
  then have "leaves (hd cs) \<noteq> []" using leaves_nonempty_fill by blast
  then show ?thesis using \<open>cs \<noteq> []\<close> Internal by (cases cs) auto
qed

lemma leaves_children:
  "pos < length cs \<Longrightarrow>
   concat (map leaves cs) =
     concat (map leaves (take pos cs)) @ leaves (cs ! pos) @ concat (map leaves (drop (Suc pos) cs))"
  by (metis concat.simps(2) concat_append id_take_nth_drop list.simps(9) map_append)

lemma node_size_tree_of:
  "\<forall>a\<in>set (leaves t). heap m a \<noteq> None \<Longrightarrow> node_size m t = Some (t_size (tree_of m t))"
  by (cases t) (auto simp: node_size_def vals_at_def)

lemma vals_changed_heap_ok: "vals_changed A m m' \<Longrightarrow> heap_ok m G \<Longrightarrow> heap_ok m' G"
  unfolding heap_ok_def vals_changed_def
  by (auto intro!: chain_cong [of G m m'])

lemma vals_changed_outside: "vals_changed A m m' \<Longrightarrow> a \<notin> A \<Longrightarrow> vals_at m' a = vals_at m a"
  by (simp add: vals_changed_def vals_at_def)

lemma heap_ok_live: "heap_ok m G \<Longrightarrow> a \<in> set G \<Longrightarrow> \<exists>l. heap m a = Some l"
  unfolding heap_ok_def using chain_live by blast

section \<open>Splitting refines \<open>t_split\<close>\<close>

text \<open>\<open>split\<close> on a node in memory computes \<open>t_split\<close> on its value and links the new leaf into
  the chain.\<close>

lemma map_ins_at: "map f (ins_at i x xs) = ins_at i (f x) (map f xs)"
  by (simp add: ins_at_def take_map drop_map)

lemma map_del_at: "map f (del_at i xs) = del_at i (map f xs)"
  by (simp add: del_at_def take_map drop_map)

lemma concat_map_ins_update:
  assumes "pos < length cs" and "f L @ f R = f (cs ! pos)"
  shows "concat (map f (ins_at (Suc pos) R (cs[pos := L]))) = concat (map f cs)"
proof -
  have cs: "cs = take pos cs @ cs ! pos # drop (Suc pos) cs"
    using assms(1) by (simp add: id_take_nth_drop [symmetric])
  have "ins_at (Suc pos) R (cs[pos := L]) = take pos cs @ L # R # drop (Suc pos) cs"
    using assms(1) by (simp add: ins_at_def upd_conv_take_nth_drop min_def)
  then have "concat (map f (ins_at (Suc pos) R (cs[pos := L])))
      = concat (map f (take pos cs)) @ (f L @ f R) @ concat (map f (drop (Suc pos) cs))"
    by simp
  also have "\<dots> = concat (map f (take pos cs @ cs ! pos # drop (Suc pos) cs))"
    by (simp add: assms(2))
  finally show ?thesis using cs by simp
qed

lemma nth_mem_take_drop:
  assumes "i < length cs" and "i \<noteq> pos"
  shows "cs ! i \<in> set (take pos cs) \<union> set (drop (Suc pos) cs)"
proof (cases "i < pos")
  case True
  then have "take pos cs ! i = cs ! i" "i < length (take pos cs)" using assms by simp_all
  then show ?thesis by (metis UnI1 nth_mem)
next
  case False
  then have "drop (Suc pos) cs ! (i - Suc pos) = cs ! i" "i - Suc pos < length (drop (Suc pos) cs)"
    using assms by simp_all
  then show ?thesis by (metis UnI2 nth_mem)
qed

lemma leaves_sibling:
  assumes "i < length cs" and "i \<noteq> pos"
  shows "set (leaves (cs ! i))
           \<subseteq> set (concat (map leaves (take pos cs))) \<union> set (concat (map leaves (drop (Suc pos) cs)))"
  using nth_mem_take_drop [OF assms] by auto

lemma heap_okD:
  assumes "heap_ok m (X @ a # Y)"
  shows "\<exists>l. heap m a = Some l \<and> right_neighbour l = first_or None Y
            \<and> left_neighbour l = last_or None X"
    and "a < brk m" and "a \<notin> set X" and "a \<notin> set Y"
    and "first_or None Y = Some b \<Longrightarrow> b \<noteq> a \<and> b < brk m \<and> heap m b \<noteq> None \<and> b \<in> set Y"
proof -
  have ch: "chain m None (X @ a # Y) None" and d: "distinct (X @ a # Y)"
    and lt: "\<forall>x\<in>set (X @ a # Y). x < brk m"
    using assms by (simp_all add: heap_ok_def)
  show "\<exists>l. heap m a = Some l \<and> right_neighbour l = first_or None Y
            \<and> left_neighbour l = last_or None X"
    using ch by (auto simp: chain_append)
  show "a < brk m" "a \<notin> set X" "a \<notin> set Y" using lt d by auto
  assume "first_or None Y = Some b"
  then have b: "b \<in> set Y" by (cases Y) auto
  then have "heap m b \<noteq> None" using chain_live [OF ch, of b] by auto
  then show "b \<noteq> a \<and> b < brk m \<and> heap m b \<noteq> None \<and> b \<in> set Y" using b d lt by auto
qed

lemma split_E_refines:
  assumes shape: "length cs = Suc (length ks)" and pos: "pos \<le> length ks"
    and cap: "length ks \<le> 2 * N"
    and child: "cs ! pos = External a"
    and full: "length (vals_at m a) = 2 * N + 1"
    and ok: "heap_ok m (pre @ leaves (Internal ks cs) @ post)"
  shows "\<exists>p' m'. split N pos (Internal ks cs) m = Some (p', m')
           \<and> tree_of m' p' = t_split pos ks (map (tree_of m) cs)
           \<and> step m pre (Internal ks cs) post m' p'"
proof -
  define L1 where "L1 = concat (map leaves (take pos cs))"
  define L2 where "L2 = concat (map leaves (drop (Suc pos) cs))"
  define r where "r = brk m"
  have plen: "pos < length cs" using shape pos by simp
  have lv: "leaves (Internal ks cs) = L1 @ a # L2"
    using leaves_children [OF plen] child by (simp add: L1_def L2_def)
  have ok': "heap_ok m ((pre @ L1) @ a # (L2 @ post))" using ok lv by simp
  from heap_okD [OF ok'] obtain l where l: "heap m a = Some l"
    and rn: "right_neighbour l = first_or None (L2 @ post)"
    and a: "a < brk m" "a \<notin> set (pre @ L1)" "a \<notin> set (L2 @ post)"
    and nb: "\<And>b. first_or None (L2 @ post) = Some b
                \<Longrightarrow> b \<noteq> a \<and> b < brk m \<and> heap m b \<noteq> None \<and> b \<in> set (L2 @ post)"
    by blast
  have vs: "vals_at m a = vals l" using l by (simp add: vals_at_def)
  have len: "length (vals l) = 2 * N + 1" using full vs by simp
  have nb': "\<forall>b. right_neighbour l = Some b \<longrightarrow> b \<noteq> brk m \<and> b \<noteq> a \<and> heap m b \<noteq> None"
  proof (intro allI impI)
    fix b assume "right_neighbour l = Some b"
    then have "first_or None (L2 @ post) = Some b" using rn by simp
    from nb [OF this] show "b \<noteq> brk m \<and> b \<noteq> a \<and> heap m b \<noteq> None" by auto
  qed
  have cap': "length ks \<le> max_size N" using cap by (simp add: max_size_def)
  have ar: "a \<noteq> brk m" using a by simp
  obtain m' where sE: "split_E N pos ks cs a m =
        Some (Internal (ins_at pos (vals l ! N) ks) (ins_at (Suc pos) (External r) cs), m')"
    and brk': "brk m' = Suc (brk m)"
    and hp: "\<forall>x. heap m' x =
                (if x = a then Some (l\<lparr>vals := take N (vals l), right_neighbour := Some r\<rparr>)
                 else if x = r
                 then Some \<lparr>vals = drop N (vals l), left_neighbour = Some a,
                            right_neighbour = right_neighbour l\<rparr>
                 else if right_neighbour l = Some x
                 then map_option (\<lambda>lb. lb\<lparr>left_neighbour := Some r\<rparr>) (heap m x)
                 else heap m x)"
    using split_E_result [OF l len cap' ar nb', of pos cs] unfolding r_def by blast
  let ?p = "Internal (ins_at pos (vals l ! N) ks) (ins_at (Suc pos) (External r) cs)"
  have sp: "split N pos (Internal ks cs) m = Some (?p, m')"
    using shape plen child sE by (simp add: split_def child_at_def)
  have va: "vals_at m' a = take N (vals l)" and vr: "vals_at m' r = drop N (vals l)"
    using hp ar by (simp_all add: vals_at_def r_def)
  have vo: "vals_at m' x = vals_at m x" if "x \<noteq> a" "x \<noteq> r" for x
    using hp that by (cases "heap m x") (auto simp: vals_at_def)
  have G: "distinct ((pre @ L1) @ a # (L2 @ post))"
    "\<forall>x\<in>set ((pre @ L1) @ a # (L2 @ post)). x < brk m"
    "chain m None ((pre @ L1) @ a # (L2 @ post)) None"
    using ok' by (simp_all add: heap_ok_def)
  have rG: "r \<notin> set ((pre @ L1) @ a # (L2 @ post))" using G(2) by (auto simp: r_def)
  have sub: "set (leaves (cs ! i)) \<subseteq> set L1 \<union> set L2" if "i < length cs" "i \<noteq> pos" for i
    using leaves_sibling [OF that] by (simp add: L1_def L2_def)
  have others: "tree_of m' (cs ! i) = tree_of m (cs ! i)" if "i < length cs" "i \<noteq> pos" for i
  proof (rule tree_of_frame, rule ballI)
    fix x assume "x \<in> set (leaves (cs ! i))"
    then have "x \<in> set L1 \<union> set L2" using sub [OF that] by auto
    then have "x \<noteq> a" "x \<noteq> r" using a rG by auto
    then show "vals_at m' x = vals_at m x" by (rule vo)
  qed
  have mp: "map (tree_of m') cs = (map (tree_of m) cs)[pos := Leaf (take N (vals l))]"
  proof (rule nth_equalityI)
    fix i assume "i < length (map (tree_of m') cs)"
    then show "map (tree_of m') cs ! i = (map (tree_of m) cs)[pos := Leaf (take N (vals l))] ! i"
      using others [of i] child va plen by (cases "i = pos") (simp_all add: nth_update_if)
  qed simp
  have tr: "tree_of m' ?p = t_split pos ks (map (tree_of m) cs)"
    using plen child vs len vr mp by (simp add: t_split_def map_ins_at)
  have lv': "leaves ?p = L1 @ a # r # L2"
  proof -
    have "take (Suc pos) cs = take pos cs @ [cs ! pos]"
      using plen by (simp add: take_Suc_conv_app_nth)
    then show ?thesis
      using plen child by (simp add: ins_at_def L1_def L2_def min_def)
  qed
  have ch': "chain m' None ((pre @ L1) @ a # r # (L2 @ post)) None"
    using G(3) G(1) rG l
  proof (rule chain_insert)
    show "heap m' a = Some (l\<lparr>vals := take N (vals l), right_neighbour := Some r\<rparr>)"
      using hp by simp
    show "heap m' r = Some \<lparr>vals = drop N (vals l), left_neighbour = Some a,
                            right_neighbour = right_neighbour l\<rparr>"
      using hp ar by (simp add: r_def)
    show "\<forall>x. x \<noteq> a \<longrightarrow> x \<noteq> r \<longrightarrow> heap m' x =
        (if right_neighbour l = Some x
         then map_option (\<lambda>lb. lb\<lparr>left_neighbour := Some r\<rparr>) (heap m x) else heap m x)"
      using hp by simp
  qed simp_all
  have ok2: "heap_ok m' (pre @ (L1 @ a # r # L2) @ post)"
    using ch' G rG brk' by (auto simp: heap_ok_def less_Suc_eq r_def)
  have fr: "\<forall>x\<in>set pre \<union> set post. vals_at m' x = vals_at m x"
    using a rG by (auto intro!: vo)
  have "step m pre (Internal ks cs) post m' ?p"
    unfolding step_def lv lv' using ok2 fr by (cases L1) auto
  then show ?thesis using sp tr by blast
qed

lemma map_nth_drop_Suc:
  "length vs = Suc (h + k) \<Longrightarrow> map (\<lambda>i. vs ! Suc (i + h)) [0..<k] = drop (Suc h) vs"
  by (auto intro!: nth_equalityI simp: add.commute)

lemma split_I_result:
  assumes shape: "length cs = Suc (length ks)" and pos: "pos \<le> length ks"
    and cap: "length ks \<le> 2 * N"
    and child: "cs ! pos = Internal cks ccs"
    and full: "length cks = 2 * N + 1" "length ccs = 2 * N + 2"
  shows "split N pos (Internal ks cs) m =
           Some (Internal (ins_at pos (cks ! N) ks)
                   (ins_at (Suc pos) (Internal (drop (Suc N) cks) (drop (Suc N) ccs))
                      (cs[pos := Internal (take N cks) (take (Suc N) ccs)])), new_InternalNode m)"
proof -
  have h: "length cks div 2 = N" using full by simp
  have rks: "map (\<lambda>i. cks ! Suc (i + N)) [0..<N] = drop (Suc N) cks"
    using full by (intro map_nth_drop_Suc) simp
  have rcs: "map (\<lambda>i. ccs ! Suc (i + N)) [0..<Suc N] = drop (Suc N) ccs"
    using full by (intro map_nth_drop_Suc) simp
  have "split_I N pos ks cs cks ccs =
           Some (Internal (ins_at pos (cks ! N) ks)
                   (ins_at (Suc pos) (Internal (drop (Suc N) cks) (drop (Suc N) ccs))
                      (cs[pos := Internal (take N cks) (take (Suc N) ccs)])))"
    using full cap by (simp add: split_I_def h rks rcs max_size_def Let_def del: upt_Suc)
  then show ?thesis
    using shape pos child full by (simp add: split_def child_at_def)
qed

lemma split_refines:
  assumes shape: "length cs = Suc (length ks)" and pos: "pos \<le> length ks"
    and cap: "length ks \<le> 2 * N"
    and over: "t_node (2 * N + 1) (2 * N + 1) N h (tree_of m (cs ! pos))"
    and ok: "heap_ok m (pre @ leaves (Internal ks cs) @ post)"
  shows "\<exists>p' m'. split N pos (Internal ks cs) m = Some (p', m')
           \<and> tree_of m' p' = t_split pos ks (map (tree_of m) cs)
           \<and> step m pre (Internal ks cs) post m' p'"
proof (cases "cs ! pos")
  case (External a)
  then have "length (vals_at m a) = 2 * N + 1" using over by (simp add: t_node_def)
  with shape pos cap External show ?thesis using ok by (rule split_E_refines)
next
  case (Internal cks ccs)
  have plen: "pos < length cs" using shape pos by simp
  have full: "length cks = 2 * N + 1" "length ccs = 2 * N + 2"
    using over Internal by (simp_all add: t_node_def)
  let ?l = "Internal (take N cks) (take (Suc N) ccs)"
  let ?r = "Internal (drop (Suc N) cks) (drop (Suc N) ccs)"
  let ?p = "Internal (ins_at pos (cks ! N) ks) (ins_at (Suc pos) ?r (cs[pos := ?l]))"
  have sp: "split N pos (Internal ks cs) m = Some (?p, new_InternalNode m)"
    using shape pos cap Internal full by (rule split_I_result)
  have tr: "tree_of (new_InternalNode m) ?p = t_split pos ks (map (tree_of m) cs)"
    using plen Internal full
    by (simp add: t_split_def map_ins_at map_update take_map drop_map)
  have "leaves ?l @ leaves ?r = leaves (cs ! pos)"
    using Internal
    by (simp add: map_append [symmetric] concat_append [symmetric] del: map_append concat_append)
  then have lv: "leaves ?p = leaves (Internal ks cs)"
    using concat_map_ins_update [OF plen, of leaves ?l ?r] by simp
  have "leaves (cs ! pos) \<noteq> []" using over by (rule leaves_nonempty)
  then have ne: "leaves (Internal ks cs) \<noteq> []"
    using leaves_children [OF plen] by simp
  have "step m pre (Internal ks cs) post (new_InternalNode m) ?p"
    unfolding step_def lv using ok ne by simp
  then show ?thesis using sp tr by blast
qed

section \<open>Insertion refines \<open>t_add\<close>\<close>

text \<open>\<open>add_elem\<close> on a filled tree in memory returns, and computes \<open>t_add\<close> on its value.\<close>

lemma step_trans:
  "step m pre t post m1 t1 \<Longrightarrow> step m1 pre t1 post m2 t2 \<Longrightarrow> step m pre t post m2 t2"
  by (auto simp: step_def)

lemma leaves_update:
  assumes "pos < length cs"
  shows "leaves (Internal ks (cs[pos := c'])) =
           concat (map leaves (take pos cs)) @ leaves c' @ concat (map leaves (drop (Suc pos) cs))"
  using assms leaves_children [of pos "cs[pos := c']"] by simp

lemma step_child:
  assumes pos: "pos < length cs" and ne: "leaves (cs ! pos) \<noteq> []"
    and st: "step m (pre @ concat (map leaves (take pos cs))) (cs ! pos)
               (concat (map leaves (drop (Suc pos) cs)) @ post) m1 c'"
  shows "step m pre (Internal ks cs) post m1 (Internal ks (cs[pos := c']))"
    and "map (tree_of m1) (cs[pos := c']) = (map (tree_of m) cs)[pos := tree_of m1 c']"
proof -
  define L1 where "L1 = concat (map leaves (take pos cs))"
  define L2 where "L2 = concat (map leaves (drop (Suc pos) cs))"
  have lv: "leaves (Internal ks cs) = L1 @ leaves (cs ! pos) @ L2"
    using leaves_children [OF pos] by (simp add: L1_def L2_def)
  have lv': "leaves (Internal ks (cs[pos := c'])) = L1 @ leaves c' @ L2"
    using leaves_update [OF pos] by (simp add: L1_def L2_def)
  from st have ok: "heap_ok m1 ((pre @ L1) @ leaves c' @ (L2 @ post))"
    and fr: "\<forall>a\<in>set (pre @ L1) \<union> set (L2 @ post). vals_at m1 a = vals_at m a"
    and ne': "leaves c' \<noteq> []" and hd: "hd (leaves c') = hd (leaves (cs ! pos))"
    by (simp_all add: step_def L1_def L2_def)
  show "step m pre (Internal ks cs) post m1 (Internal ks (cs[pos := c']))"
    unfolding step_def lv lv' using ok fr ne ne' hd by (cases L1) auto
  show "map (tree_of m1) (cs[pos := c']) = (map (tree_of m) cs)[pos := tree_of m1 c']"
  proof (rule nth_equalityI)
    fix i assume i: "i < length (map (tree_of m1) (cs[pos := c']))"
    show "map (tree_of m1) (cs[pos := c']) ! i = (map (tree_of m) cs)[pos := tree_of m1 c'] ! i"
    proof (cases "i = pos")
      case True
      then show ?thesis using pos by simp
    next
      case False
      then have "set (leaves (cs ! i)) \<subseteq> set L1 \<union> set L2"
        using leaves_sibling [of i cs pos] i by (simp add: L1_def L2_def)
      then have "tree_of m1 (cs ! i) = tree_of m (cs ! i)"
        using fr by (intro tree_of_frame) auto
      then show ?thesis using False i by simp
    qed
  qed simp
qed

lemma add_elem_E_refines:
  assumes l: "heap m a = Some l" and cap: "length (vals l) \<le> 2 * N"
  shows "\<exists>m'. add_elem_E N x a m = Some (fst (t_add N x (Leaf (vals l))), m')
           \<and> Leaf (vals_at m' a) = snd (t_add N x (Leaf (vals l)))
           \<and> vals_changed {a} m m'"
proof (cases "find_pos_E (vals l) x = - 1")
  case False
  then show ?thesis
    using l by (auto simp: add_elem_E_def vals_changed_def vals_at_def)
next
  case True
  then show ?thesis
    using l cap
    by (auto simp: add_elem_E_def vals_changed_def vals_at_def update_def max_size_def)
qed

lemma node_size_Internal:
  "tree_of m p = Node ks cs \<Longrightarrow> node_size m p = Some (length ks)"
  by (cases p) (auto simp: node_size_def)

lemma add_elem_refines:
  assumes "t_node lo (2 * N) N h (tree_of m t)" and "0 < N"
    and "heap_ok m (pre @ leaves t @ post)"
  shows "\<exists>t' m'. add_elem N x t m = Some (fst (t_add N x (tree_of m t)), t', m')
           \<and> tree_of m' t' = snd (t_add N x (tree_of m t))
           \<and> step m pre t post m' t'"
  using assms
proof (induction N x t m arbitrary: lo h pre post rule: add_elem.induct)
  case (1 N elem a m)
  from heap_ok_live [OF "1.prems"(3), of a] obtain l where l: "heap m a = Some l" by auto
  then have va: "vals_at m a = vals l" by (simp add: vals_at_def)
  have cap: "length (vals l) \<le> 2 * N" using "1.prems"(1) va by (simp add: t_node_def)
  from add_elem_E_refines [OF l cap, of elem] obtain m' where
    m': "add_elem_E N elem a m = Some (fst (t_add N elem (Leaf (vals l))), m')"
    "Leaf (vals_at m' a) = snd (t_add N elem (Leaf (vals l)))" "vals_changed {a} m m'"
    by blast
  have ok0: "heap_ok m (pre @ [a] @ post)" using "1.prems"(3) by simp
  have "heap_ok m' (pre @ [a] @ post)"
    using m'(3) ok0 by (rule vals_changed_heap_ok)
  moreover have "\<forall>b\<in>set pre \<union> set post. vals_at m' b = vals_at m b"
  proof
    fix b assume "b \<in> set pre \<union> set post"
    then have "b \<noteq> a" using "1.prems"(3) by (auto simp: heap_ok_def)
    then show "vals_at m' b = vals_at m b"
      using vals_changed_outside [OF m'(3)] by simp
  qed
  ultimately have "step m pre (External a) post m' (External a)" by (simp add: step_def)
  then show ?case using m' va by (auto simp del: t_add.simps)
next
  case (2 N elem ks cs m)
  define pos where "pos = find_pos_I elem ks"
  define T where "T = tree_of m"
  have TI: "T (Internal ks cs) = Node ks (map T cs)" by (simp add: T_def)
  have node: "t_node lo (2 * N) N h (Node ks (map T cs))"
    using "2.prems"(1) by (simp add: T_def)
  then have shape: "length cs = Suc (length ks)" and ks: "length ks \<le> 2 * N"
    and sub: "\<forall>c\<in>set cs. t_fill N (h - 1) (T c)"
    by (simp_all add: t_node_def)
  have pos: "pos \<le> length ks" "pos < length cs"
    using find_pos_I_le [of elem ks] shape by (simp_all add: pos_def)
  have cf: "t_fill N (h - 1) (T (cs ! pos))" using sub pos by simp
  then have child: "t_node N (2 * N) N (h - 1) (tree_of m (cs ! pos))"
    by (simp add: t_fill_t_node [symmetric] T_def)
  have ne: "leaves (cs ! pos) \<noteq> []" using cf leaves_nonempty_fill by (auto simp: T_def)
  define L1 where "L1 = concat (map leaves (take pos cs))"
  define L2 where "L2 = concat (map leaves (drop (Suc pos) cs))"
  have ok: "heap_ok m ((pre @ L1) @ leaves (cs ! pos) @ (L2 @ post))"
    using "2.prems"(3) leaves_children [OF pos(2)] by (simp add: L1_def L2_def)
  have nshape: "\<not> length cs \<noteq> Suc (length ks)" using shape by simp
  obtain r tc where rec: "t_add N elem (T (cs ! pos)) = (r, tc)"
    by (cases "t_add N elem (T (cs ! pos))")
  from "2.IH" [OF nshape child [unfolded pos_def] "2.prems"(2) ok [unfolded pos_def]]
  obtain c' m1 where ih: "add_elem N elem (cs ! pos) m = Some (r, c', m1)"
    "tree_of m1 c' = tc" "step m (pre @ L1) (cs ! pos) (L2 @ post) m1 c'"
    using rec by (auto simp: pos_def T_def)
  let ?cs = "cs[pos := c']"
  note st = ih(3) [unfolded L1_def L2_def]
  have st1: "step m pre (Internal ks cs) post m1 (Internal ks ?cs)"
    using pos(2) ne st by (rule step_child(1))
  have mp: "map (tree_of m1) ?cs = (map T cs)[pos := tc]"
    using step_child(2) [OF pos(2) ne st] by (simp add: ih(2) T_def)
  have tadd: "t_add N elem (Node ks (map T cs)) =
      (if r = SPLIT then
         (let p = t_split pos ks ((map T cs)[pos := tc])
          in (if t_size p \<le> max_size N then SUCCESS_I else SPLIT, p))
       else (r, Node ks ((map T cs)[pos := tc])))"
    using shape pos rec by (simp add: pos_def [symmetric])
  show ?case
  proof (cases "r = SPLIT")
    case False
    have "add_elem N elem (Internal ks cs) m = Some (r, Internal ks ?cs, m1)"
      using shape ih(1) False by (simp add: pos_def [symmetric])
    moreover have "tree_of m1 (Internal ks ?cs) = Node ks ((map T cs)[pos := tc])"
      using mp by simp
    ultimately show ?thesis
      using st1 tadd False unfolding T_def [symmetric]
      by (simp add: TI del: add_elem.simps t_add.simps)
  next
    case True
    have over: "t_node (2 * N + 1) (2 * N + 1) N (h - 1) (tree_of m1 (?cs ! pos))"
      using t_add_fill [OF child "2.prems"(2), of elem] rec True pos ih(2)
      by (simp add: T_def)
    have ok1: "heap_ok m1 (pre @ leaves (Internal ks ?cs) @ post)"
      using st1 by (simp add: step_def)
    from split_refines [OF _ pos(1) ks over ok1] shape
    obtain p' m2 where sp: "split N pos (Internal ks ?cs) m1 = Some (p', m2)"
      "tree_of m2 p' = t_split pos ks (map (tree_of m1) ?cs)"
      "step m1 pre (Internal ks ?cs) post m2 p'"
      by auto
    define tp where "tp = t_split pos ks ((map T cs)[pos := tc])"
    have tp: "tree_of m2 p' = tp" using sp(2) mp by (simp add: tp_def)
    obtain ks' cs' where tpn: "tp = Node ks' cs'"
      by (cases tp) (auto simp: tp_def t_split_def Let_def split: tree.splits)
    have ns: "node_size m2 p' = Some (t_size tp)"
      using node_size_Internal [of m2 p' ks' cs'] tp tpn by simp
    have "add_elem N elem (Internal ks cs) m =
        Some (if t_size tp \<le> max_size N then SUCCESS_I else SPLIT, p', m2)"
      using shape ih(1) True sp(1) ns by (simp add: pos_def [symmetric])
    moreover have "step m pre (Internal ks cs) post m2 p'"
      using st1 sp(3) by (rule step_trans)
    ultimately show ?thesis
      using tadd True tp unfolding T_def [symmetric] tp_def [symmetric]
      by (simp add: TI Let_def del: add_elem.simps t_add.simps)
  qed
qed

section \<open>Rebalancing refines \<open>t_merge\<close>\<close>

text \<open>\<open>merge\<close> on a node in memory takes the decision of \<open>decide\<close> and computes \<open>t_merge\<close> on its
  value; fusing two leaves takes the right one out of the chain.\<close>

lemma merge_action_decide:
  assumes shape: "length cs = Suc (length ks)" and pos: "pos \<le> length ks"
    and ks: "0 < length ks"
    and sizes: "\<forall>i<length cs. node_size m (cs ! i) = Some (n i)"
  shows "merge_action N pos ks cs m = Some (decide N pos (length ks) n)"
proof -
  consider "pos = 0" | "pos = length ks" "0 < pos" | "0 < pos" "pos < length ks"
    using pos by linarith
  then show ?thesis
  proof cases
    case 1
    have "node_size m (cs ! 1) = Some (n 1)" using sizes shape ks by simp
    then show ?thesis
      using 1 shape ks
      by (simp add: merge_action_def merge_direction_def from_right_cond_def from_left_cond_def
          child_at_def min_size_def decide_def)
  next
    case 2
    have "pos - 1 < length cs" using shape 2 by simp
    then have "node_size m (cs ! (pos - 1)) = Some (n (pos - 1))" using sizes by blast
    then show ?thesis
      using 2 shape
      by (simp add: merge_action_def merge_direction_def from_right_cond_def from_left_cond_def
          child_at_def min_size_def decide_def)
  next
    case 3
    have "pos - 1 < length cs" "Suc pos < length cs" using shape 3 by simp_all
    then have "node_size m (cs ! (pos - 1)) = Some (n (pos - 1))"
      "node_size m (cs ! Suc pos) = Some (n (Suc pos))"
      using sizes by blast+
    then show ?thesis
      using 3 shape
      by (auto simp add: merge_action_def merge_direction_def from_right_cond_def
          from_left_cond_def child_at_def min_size_def decide_def)
  qed
qed

lemma del_at_cong:
  assumes "length xs = length ys" and "\<forall>i<length xs. i \<noteq> j \<longrightarrow> xs ! i = ys ! i"
  shows "del_at j xs = del_at j ys"
proof -
  have "take j xs = take j ys"
    using assms by (intro nth_equalityI) auto
  moreover have "drop (Suc j) xs = drop (Suc j) ys"
    using assms by (intro nth_equalityI) auto
  ultimately show ?thesis by (simp add: del_at_def)
qed

text \<open>Two leaves next to each other under one node.\<close>

lemma adjacent_leaves:
  assumes i: "Suc i < length cs" and x: "cs ! i = External x" and y: "cs ! Suc i = External y"
  shows "leaves (Internal ks cs) =
           concat (map leaves (take i cs)) @ x # y # concat (map leaves (drop (Suc (Suc i)) cs))"
    and "\<forall>j<length cs. j \<noteq> i \<longrightarrow> j \<noteq> Suc i \<longrightarrow>
           set (leaves (cs ! j)) \<subseteq> set (concat (map leaves (take i cs)))
             \<union> set (concat (map leaves (drop (Suc (Suc i)) cs)))"
proof -
  have d: "drop (Suc i) cs = cs ! Suc i # drop (Suc (Suc i)) cs"
    using i by (simp add: Cons_nth_drop_Suc)
  have "i < length cs" using i by simp
  from leaves_children [OF this] show "leaves (Internal ks cs) =
           concat (map leaves (take i cs)) @ x # y # concat (map leaves (drop (Suc (Suc i)) cs))"
    using x y d by simp
  show "\<forall>j<length cs. j \<noteq> i \<longrightarrow> j \<noteq> Suc i \<longrightarrow>
           set (leaves (cs ! j)) \<subseteq> set (concat (map leaves (take i cs)))
             \<union> set (concat (map leaves (drop (Suc (Suc i)) cs)))"
  proof (intro allI impI)
    fix j assume j: "j < length cs" "j \<noteq> i" "j \<noteq> Suc i"
    show "set (leaves (cs ! j)) \<subseteq> set (concat (map leaves (take i cs)))
             \<union> set (concat (map leaves (drop (Suc (Suc i)) cs)))"
    proof (cases "j < i")
      case True
      then have "take i cs ! j = cs ! j" "j < length (take i cs)" using j by simp_all
      then have "cs ! j \<in> set (take i cs)" by (metis nth_mem)
      then show ?thesis by auto
    next
      case False
      then have "Suc (Suc i) \<le> j" using j by arith
      then obtain k where k: "j = Suc (Suc i) + k" using le_Suc_ex by blast
      have "drop (Suc (Suc i)) cs ! k = cs ! j" "k < length (drop (Suc (Suc i)) cs)"
        using j(1) unfolding k by simp_all
      then have "cs ! j \<in> set (drop (Suc (Suc i)) cs)" by (metis nth_mem)
      then show ?thesis by auto
    qed
  qed
qed

text \<open>Keys move between two adjacent leaves: the links stay as they are.\<close>

lemma move_step:
  assumes i: "Suc i < length cs" and x: "cs ! i = External x" and y: "cs ! Suc i = External y"
    and ok: "heap_ok m (pre @ leaves (Internal ks cs) @ post)"
    and ch: "vals_changed {x, y} m m'"
    and vx: "vals_at m' x = vx" and vy: "vals_at m' y = vy"
  shows "step m pre (Internal ks cs) post m' (Internal ks' cs)"
    and "map (tree_of m') cs = (map (tree_of m) cs)[i := Leaf vx, Suc i := Leaf vy]"
proof -
  define L1 where "L1 = concat (map leaves (take i cs))"
  define L2 where "L2 = concat (map leaves (drop (Suc (Suc i)) cs))"
  note adj = adjacent_leaves [OF i x y, folded L1_def L2_def]
  have lv: "leaves (Internal ks cs) = L1 @ x # y # L2" using adj(1) .
  have lv': "leaves (Internal ks' cs) = L1 @ x # y # L2" using adj(1) by simp
  have ok': "heap_ok m (pre @ (L1 @ x # y # L2) @ post)" using ok unfolding lv .
  have out: "vals_at m' a = vals_at m a" if "a \<noteq> x" "a \<noteq> y" for a
    using vals_changed_outside [OF ch, of a] that by simp
  have d: "distinct (pre @ (L1 @ x # y # L2) @ post)" using ok' by (simp add: heap_ok_def)
  have "heap_ok m' (pre @ (L1 @ x # y # L2) @ post)"
    using ch ok' by (rule vals_changed_heap_ok)
  moreover have "\<forall>a\<in>set pre \<union> set post. vals_at m' a = vals_at m a"
    using d by (auto intro!: out)
  ultimately show "step m pre (Internal ks cs) post m' (Internal ks' cs)"
    unfolding step_def lv lv' by (cases L1) auto
  show "map (tree_of m') cs = (map (tree_of m) cs)[i := Leaf vx, Suc i := Leaf vy]"
  proof (rule nth_equalityI)
    fix j assume j: "j < length (map (tree_of m') cs)"
    consider "j = i" | "j = Suc i" | "j \<noteq> i" "j \<noteq> Suc i" by blast
    then show "map (tree_of m') cs ! j = (map (tree_of m) cs)[i := Leaf vx, Suc i := Leaf vy] ! j"
    proof cases
      case 1
      then show ?thesis using i x vx by (simp add: nth_update_if)
    next
      case 2
      then show ?thesis using i y vy by (simp add: nth_update_if)
    next
      case 3
      then have "set (leaves (cs ! j)) \<subseteq> set L1 \<union> set L2" using adj(2) j by simp
      then have "\<forall>a\<in>set (leaves (cs ! j)). a \<noteq> x \<and> a \<noteq> y" using d by auto
      then have "tree_of m' (cs ! j) = tree_of m (cs ! j)"
        by (intro tree_of_frame) (auto intro!: out)
      then show ?thesis using 3 j by (simp add: nth_update_if)
    qed
  qed simp
qed

text \<open>The right one of two adjacent leaves is fused into the left one.\<close>

lemma fuse_step:
  assumes i: "Suc i < length cs" and x: "cs ! i = External x" and y: "cs ! Suc i = External y"
    and ok: "heap_ok m (pre @ leaves (Internal ks cs) @ post)"
    and lx: "heap m x = Some lx" and ly: "heap m y = Some ly" and brk: "brk m' = brk m"
    and hx: "heap m' x = Some (lx\<lparr>vals := vals lx @ vals ly, right_neighbour := right_neighbour ly\<rparr>)"
    and rest: "\<forall>a. a \<noteq> x \<longrightarrow> a \<noteq> y \<longrightarrow> heap m' a =
        (if right_neighbour ly = Some a
         then map_option (\<lambda>l. l\<lparr>left_neighbour := Some x\<rparr>) (heap m a) else heap m a)"
  shows "step m pre (Internal ks cs) post m' (Internal ks' (del_at (Suc i) cs))"
    and "map (tree_of m') (del_at (Suc i) cs)
           = del_at (Suc i) ((map (tree_of m) cs)[i := Leaf (vals lx @ vals ly)])"
proof -
  define L1 where "L1 = concat (map leaves (take i cs))"
  define L2 where "L2 = concat (map leaves (drop (Suc (Suc i)) cs))"
  note adj = adjacent_leaves [OF i x y, folded L1_def L2_def]
  have lv: "leaves (Internal ks cs) = L1 @ x # y # L2" using adj(1) .
  have tk: "take (Suc i) cs = take i cs @ [cs ! i]"
    using i by (simp add: take_Suc_conv_app_nth)
  have lv': "leaves (Internal ks' (del_at (Suc i) cs)) = L1 @ x # L2"
    using x by (simp add: del_at_def tk L1_def L2_def)
  have ok': "heap_ok m ((pre @ L1) @ x # y # (L2 @ post))" using ok unfolding lv by simp
  then have d: "distinct ((pre @ L1) @ x # y # (L2 @ post))"
    and c: "chain m None ((pre @ L1) @ x # y # (L2 @ post)) None"
    and lt: "\<forall>a\<in>set ((pre @ L1) @ x # y # (L2 @ post)). a < brk m"
    by (simp_all add: heap_ok_def)
  have out: "vals_at m' a = vals_at m a" if "a \<noteq> x" "a \<noteq> y" for a
    using rest that by (cases "heap m a") (auto simp: vals_at_def)
  have "chain m' None ((pre @ L1) @ x # (L2 @ post)) None"
    using c d lx ly hx
  proof (rule chain_remove)
    show "\<forall>a. a \<noteq> x \<longrightarrow> a \<noteq> y \<longrightarrow> heap m' a =
        (if right_neighbour ly = Some a
         then map_option (\<lambda>l. l\<lparr>left_neighbour := Some x\<rparr>) (heap m a) else heap m a)"
      using rest .
  qed simp_all
  then have "heap_ok m' (pre @ (L1 @ x # L2) @ post)"
    using d lt brk by (auto simp: heap_ok_def)
  moreover have "\<forall>a\<in>set pre \<union> set post. vals_at m' a = vals_at m a"
    using d by (auto intro!: out)
  ultimately show "step m pre (Internal ks cs) post m' (Internal ks' (del_at (Suc i) cs))"
    unfolding step_def lv lv' by (cases L1) auto
  have vx: "vals_at m' x = vals lx @ vals ly" using hx by (simp add: vals_at_def)
  have "map (tree_of m') cs ! j = (map (tree_of m) cs)[i := Leaf (vals lx @ vals ly)] ! j"
    if j: "j < length cs" "j \<noteq> Suc i" for j
  proof (cases "j = i")
    case True
    then show ?thesis using i x vx by (simp add: nth_update_if)
  next
    case False
    then have "set (leaves (cs ! j)) \<subseteq> set L1 \<union> set L2" using adj(2) j by simp
    then have "\<forall>a\<in>set (leaves (cs ! j)). a \<noteq> x \<and> a \<noteq> y" using d by auto
    then have "tree_of m' (cs ! j) = tree_of m (cs ! j)"
      by (intro tree_of_frame) (auto intro!: out)
    then show ?thesis using False j by (simp add: nth_update_if)
  qed
  then have "del_at (Suc i) (map (tree_of m') cs)
      = del_at (Suc i) ((map (tree_of m) cs)[i := Leaf (vals lx @ vals ly)])"
    by (intro del_at_cong) auto
  then show "map (tree_of m') (del_at (Suc i) cs)
           = del_at (Suc i) ((map (tree_of m) cs)[i := Leaf (vals lx @ vals ly)])"
    by (simp add: map_del_at)
qed

lemma concat_map_update2:
  assumes "Suc i < length cs" and "f A @ f B = f (cs ! i) @ f (cs ! Suc i)"
  shows "concat (map f (cs[i := A, Suc i := B])) = concat (map f cs)"
proof -
  have cs: "cs = take i cs @ cs ! i # cs ! Suc i # drop (Suc (Suc i)) cs"
    using assms(1)
    by (metis Cons_nth_drop_Suc Suc_lessD id_take_nth_drop)
  have "cs[i := A, Suc i := B] = take i cs @ A # B # drop (Suc (Suc i)) cs"
    using assms(1) by (subst cs) (simp add: list_update_append nth_append min_def)
  then have "concat (map f (cs[i := A, Suc i := B]))
      = concat (map f (take i cs)) @ (f A @ f B) @ concat (map f (drop (Suc (Suc i)) cs))"
    by simp
  also have "\<dots> = concat (map f (take i cs @ cs ! i # cs ! Suc i # drop (Suc (Suc i)) cs))"
    by (simp add: assms(2))
  finally show ?thesis using cs by simp
qed

lemma concat_map_del_update:
  assumes "Suc i < length cs" and "f A = f (cs ! i) @ f (cs ! Suc i)"
  shows "concat (map f (del_at (Suc i) (cs[i := A]))) = concat (map f cs)"
proof -
  have cs: "cs = take i cs @ cs ! i # cs ! Suc i # drop (Suc (Suc i)) cs"
    using assms(1)
    by (metis Cons_nth_drop_Suc Suc_lessD id_take_nth_drop)
  have "cs[i := A] = take i cs @ A # cs ! Suc i # drop (Suc (Suc i)) cs"
    using assms(1) by (subst cs) (simp add: list_update_append nth_append min_def)
  then have "del_at (Suc i) (cs[i := A]) = take i cs @ A # drop (Suc (Suc i)) cs"
    using assms(1) by (simp add: del_at_def min_def)
  then have "concat (map f (del_at (Suc i) (cs[i := A])))
      = concat (map f (take i cs)) @ f A @ concat (map f (drop (Suc (Suc i)) cs))"
    by simp
  also have "\<dots> = concat (map f (take i cs @ cs ! i # cs ! Suc i # drop (Suc (Suc i)) cs))"
    by (simp add: assms(2))
  finally show ?thesis using cs by simp
qed

lemma tree_of_Leaf: "tree_of m c = Leaf vs \<Longrightarrow> \<exists>a. c = External a \<and> vals_at m a = vs"
  by (cases c) auto

lemma tree_of_Node:
  "tree_of m c = Node ks ts \<Longrightarrow> \<exists>cs. c = Internal ks cs \<and> ts = map (tree_of m) cs"
  by (cases c) auto

lemma move_from_right_E_result:
  assumes "Suc pos < length cs" and "pos < length ks"
    and "cs ! pos = External a" and "cs ! Suc pos = External b" and "a \<noteq> b"
    and "heap m a = Some la" and "heap m b = Some lb"
    and "length (vals la) \<le> 2 * N" and "2 \<le> length (vals lb)" and "length (vals lb) \<le> 2 * N"
  shows "\<exists>m'. move_from_right_E N pos ks cs m = Some (Internal (ks[pos := tl (vals lb) ! 0]) cs, m')
           \<and> vals_changed {a, b} m m'
           \<and> vals_at m' a = vals la @ [vals lb ! 0] \<and> vals_at m' b = tl (vals lb)"
  using assms
  by (auto simp: move_from_right_E_def child_at_def as_External_def update_def max_size_def
      vals_changed_def vals_at_def)

lemma move_from_left_E_result:
  assumes "pos < length cs" and "0 < pos" and "pos - 1 < length ks"
    and "cs ! pos = External a" and "cs ! (pos - 1) = External b" and "a \<noteq> b"
    and "heap m a = Some la" and "heap m b = Some lb"
    and "length (vals la) \<le> 2 * N" and "vals lb \<noteq> []"
  shows "\<exists>m'. move_from_left_E N pos ks cs m = Some (Internal (ks[pos - 1 := last (vals lb)]) cs, m')
           \<and> vals_changed {a, b} m m'
           \<and> vals_at m' a = last (vals lb) # vals la \<and> vals_at m' b = butlast (vals lb)"
  using assms
  by (auto simp: move_from_left_E_def child_at_def as_External_def update_def max_size_def
      vals_changed_def vals_at_def)

lemma fuse_right_E_result:
  assumes "Suc pos < length cs"
    and "cs ! pos = External a" and "cs ! Suc pos = External b" and "a \<noteq> b"
    and "heap m a = Some la" and "heap m b = Some lb"
    and "length (vals la) + length (vals lb) \<le> 2 * N + 1"
    and "\<forall>n. right_neighbour lb = Some n \<longrightarrow> n \<noteq> a \<and> n \<noteq> b \<and> heap m n \<noteq> None"
  shows "\<exists>m'. fuse_right_E N pos ks cs m
             = Some (Internal (del_at pos ks) (del_at (Suc pos) cs), m')
           \<and> brk m' = brk m
           \<and> heap m' a = Some (la\<lparr>vals := vals la @ vals lb, right_neighbour := right_neighbour lb\<rparr>)
           \<and> (\<forall>x. x \<noteq> a \<longrightarrow> x \<noteq> b \<longrightarrow> heap m' x =
                (if right_neighbour lb = Some x
                 then map_option (\<lambda>l. l\<lparr>left_neighbour := Some a\<rparr>) (heap m x) else heap m x))"
proof (cases "right_neighbour lb")
  case None
  then show ?thesis
    using assms
    by (simp add: fuse_right_E_def child_at_def as_External_def update_def max_size_def
        delete_ExternalNode_def)
next
  case (Some n)
  then obtain ln where "heap m n = Some ln" "n \<noteq> a" "n \<noteq> b" using assms(8) by auto
  then show ?thesis
    using assms Some
    by (simp add: fuse_right_E_def child_at_def as_External_def update_def max_size_def
        delete_ExternalNode_def)
qed

lemma fuse_left_E_result:
  assumes "pos < length cs" and "0 < pos"
    and "cs ! pos = External a" and "cs ! (pos - 1) = External b" and "a \<noteq> b"
    and "heap m a = Some la" and "heap m b = Some lb"
    and "length (vals lb) + length (vals la) \<le> 2 * N + 1"
    and "\<forall>n. right_neighbour la = Some n \<longrightarrow> n \<noteq> a \<and> n \<noteq> b \<and> heap m n \<noteq> None"
  shows "\<exists>m'. fuse_left_E N pos ks cs m
             = Some (Internal (left_keys pos ks) (del_at pos cs), m')
           \<and> brk m' = brk m
           \<and> heap m' b = Some (lb\<lparr>vals := vals lb @ vals la, right_neighbour := right_neighbour la\<rparr>)
           \<and> (\<forall>x. x \<noteq> b \<longrightarrow> x \<noteq> a \<longrightarrow> heap m' x =
                (if right_neighbour la = Some x
                 then map_option (\<lambda>l. l\<lparr>left_neighbour := Some b\<rparr>) (heap m x) else heap m x))"
proof (cases "right_neighbour la")
  case None
  then show ?thesis
    using assms
    by (simp add: fuse_left_E_def child_at_def as_External_def update_def max_size_def
        delete_ExternalNode_def)
next
  case (Some n)
  then obtain ln where "heap m n = Some ln" "n \<noteq> a" "n \<noteq> b" using assms(9) by auto
  then show ?thesis
    using assms Some
    by (simp add: fuse_left_E_def child_at_def as_External_def update_def max_size_def
        delete_ExternalNode_def)
qed

lemma adjacent_facts:
  assumes i: "Suc i < length cs" and x: "cs ! i = External x" and y: "cs ! Suc i = External y"
    and ok: "heap_ok m (pre @ leaves (Internal ks cs) @ post)"
  shows "x \<noteq> y" and "\<exists>lx. heap m x = Some lx \<and> vals_at m x = vals lx"
    and "\<exists>ly. heap m y = Some ly \<and> vals_at m y = vals ly
           \<and> (\<forall>n. right_neighbour ly = Some n \<longrightarrow> n \<noteq> x \<and> n \<noteq> y \<and> heap m n \<noteq> None)"
proof -
  define L1 where "L1 = concat (map leaves (take i cs))"
  define L2 where "L2 = concat (map leaves (drop (Suc (Suc i)) cs))"
  note adj = adjacent_leaves [OF i x y, folded L1_def L2_def]
  have lv: "leaves (Internal ks cs) = L1 @ x # y # L2" using adj(1) .
  have ok1: "heap_ok m ((pre @ L1 @ [x]) @ y # (L2 @ post))" using ok unfolding lv by simp
  have ok2: "heap_ok m ((pre @ L1) @ x # (y # L2 @ post))" using ok unfolding lv by simp
  have d: "distinct ((pre @ L1 @ [x]) @ y # (L2 @ post))" using ok1 by (simp add: heap_ok_def)
  show "x \<noteq> y" using d by auto
  show "\<exists>lx. heap m x = Some lx \<and> vals_at m x = vals lx"
    using heap_okD(1) [OF ok2] by (auto simp: vals_at_def)
  obtain ly where ly: "heap m y = Some ly" "right_neighbour ly = first_or None (L2 @ post)"
    using heap_okD(1) [OF ok1] by blast
  have "n \<noteq> x \<and> n \<noteq> y \<and> heap m n \<noteq> None" if "right_neighbour ly = Some n" for n
  proof -
    have "first_or None (L2 @ post) = Some n" using that ly(2) by simp
    from heap_okD(5) [OF ok1 this] have "n \<noteq> y" "heap m n \<noteq> None" "n \<in> set (L2 @ post)"
      by simp_all
    moreover have "n \<noteq> x" using d \<open>n \<in> set (L2 @ post)\<close> by auto
    ultimately show ?thesis by simp
  qed
  then show "\<exists>ly. heap m y = Some ly \<and> vals_at m y = vals ly
           \<and> (\<forall>n. right_neighbour ly = Some n \<longrightarrow> n \<noteq> x \<and> n \<noteq> y \<and> heap m n \<noteq> None)"
    using ly(1) by (auto simp: vals_at_def)
qed

lemma step_same:
  assumes "heap_ok m (pre @ leaves t @ post)" and "leaves t' = leaves t" and "leaves t \<noteq> []"
  shows "step m pre t post m t'"
  using assms by (simp add: step_def)

lemma decide_consider:
  assumes "0 < n" and "pos \<le> n" and "\<forall>i\<le>n. i \<noteq> pos \<longrightarrow> N \<le> sizes i"
  obtains (mr) "decide N pos n sizes = MoveFromRight" "pos < n" "N < sizes (Suc pos)"
    | (ml) "decide N pos n sizes = MoveFromLeft" "0 < pos" "N < sizes (pos - 1)"
    | (fr) "decide N pos n sizes = Fuse RIGHT" "pos < n" "sizes (Suc pos) = N"
    | (fl) "decide N pos n sizes = Fuse LEFT" "0 < pos" "pos = n" "sizes (pos - 1) = N"
proof -
  note d = decide_cases [OF assms]
  consider "pos = 0" | "pos = n" "0 < pos" | "0 < pos" "pos < n"
    using assms(2) by linarith
  then show thesis
  proof cases
    case 1
    have le: "N \<le> sizes (Suc 0)" using assms(1,3) 1 by (simp add: Suc_le_eq)
    have n: "pos < n" using 1 assms(1) by simp
    show ?thesis
    proof (cases "N < sizes (Suc 0)")
      case True
      then have "decide N pos n sizes = MoveFromRight" using d 1 by simp
      then show ?thesis using mr n True 1 by simp
    next
      case False
      then have "decide N pos n sizes = Fuse RIGHT" using d 1 by simp
      moreover have "sizes (Suc pos) = N" using False le 1 by simp
      ultimately show ?thesis using fr n by simp
    qed
  next
    case 2
    have le: "N \<le> sizes (pos - 1)" using assms(3) 2 by simp
    show ?thesis
    proof (cases "N < sizes (pos - 1)")
      case True
      then have "decide N pos n sizes = MoveFromLeft" using d 2 by simp
      then show ?thesis using ml 2 True by simp
    next
      case False
      then have "decide N pos n sizes = Fuse LEFT" using d 2 by simp
      moreover have "sizes (pos - 1) = N" using False le by simp
      ultimately show ?thesis using fl 2 by simp
    qed
  next
    case 3
    have l: "N \<le> sizes (pos - 1)" and r: "N \<le> sizes (Suc pos)" using assms(3) 3 by simp_all
    show ?thesis
    proof (cases "sizes (pos - 1) < sizes (pos + 1)")
      case True
      then have "decide N pos n sizes = MoveFromRight" "N < sizes (Suc pos)"
        using d 3 l by simp_all
      then show ?thesis using mr 3 by simp
    next
      case False
      show ?thesis
      proof (cases "N < sizes (pos - 1)")
        case True
        then have "decide N pos n sizes = MoveFromLeft" using d 3 False by simp
        then show ?thesis using ml 3 True by simp
      next
        case nl: False
        then have "decide N pos n sizes = Fuse RIGHT" using d 3 False by simp
        moreover have "sizes (Suc pos) = N" using nl False l r by simp
        ultimately show ?thesis using fr 3 by simp
      qed
    qed
  qed
qed

lemma t_fill_cases:
  assumes "t_fill N h (tree_of m c)"
  shows "h = 0 \<Longrightarrow> \<exists>a. c = External a"
    and "0 < h \<Longrightarrow> \<exists>ks cs. c = Internal ks cs \<and> length cs = Suc (length ks)"
  using assms by (cases c; simp)+

lemma t_node_cases:
  assumes "t_node lo hi N h (tree_of m c)"
  shows "h = 0 \<Longrightarrow> \<exists>a. c = External a"
    and "0 < h \<Longrightarrow> \<exists>ks cs. c = Internal ks cs \<and> length cs = Suc (length ks)"
  using assms by (cases c; simp add: t_node_def)+

lemma leaves_concat_nonempty:
  "i < length cs \<Longrightarrow> leaves (cs ! i) \<noteq> [] \<Longrightarrow> concat (map leaves cs) \<noteq> []"
  by (metis concat_eq_Nil_conv length_map nth_map nth_mem)

lemma move_from_right_refines:
  assumes shape: "length cs = Suc (length ks)" and pk: "pos < length ks" and N: "0 < N"
    and under: "t_node (N - 1) (N - 1) N h (tree_of m (cs ! pos))"
    and sib: "t_fill N h (tree_of m (cs ! Suc pos))"
    and big: "N < t_size (tree_of m (cs ! Suc pos))"
    and ok: "heap_ok m (pre @ leaves (Internal ks cs) @ post)"
  shows "\<exists>p' m'. (if node_type (cs ! pos) = EXTERNAL then move_from_right_E N pos ks cs m
                  else map_option (\<lambda>p. (p, m)) (move_from_right_I N pos ks cs)) = Some (p', m')
           \<and> tree_of m' p' = t_move_from_right pos ks (map (tree_of m) cs)
           \<and> step m pre (Internal ks cs) post m' p'"
proof (cases "h = 0")
  case True
  obtain a where a: "cs ! pos = External a" using t_node_cases(1) [OF under True] by blast
  obtain b where b: "cs ! Suc pos = External b" using t_fill_cases(1) [OF sib True] by blast
  have i: "Suc pos < length cs" using shape pk by simp
  note f = adjacent_facts [OF i a b ok]
  obtain la where la: "heap m a = Some la" "vals_at m a = vals la" using f(2) by blast
  obtain lb where lb: "heap m b = Some lb" "vals_at m b = vals lb" using f(3) by blast
  have sa: "length (vals la) \<le> 2 * N"
    using under a la by (auto simp: t_node_def)
  have sb: "2 \<le> length (vals lb)" using big b lb N by simp
  have sc: "length (vals lb) \<le> 2 * N" using sib b lb by simp
  from move_from_right_E_result [OF i pk a b f(1) la(1) lb(1) sa sb sc]
  obtain m' where m': "move_from_right_E N pos ks cs m
        = Some (Internal (ks[pos := tl (vals lb) ! 0]) cs, m')"
    "vals_changed {a, b} m m'" "vals_at m' a = vals la @ [vals lb ! 0]"
    "vals_at m' b = tl (vals lb)" by blast
  note ms = move_step [OF i a b ok m'(2) m'(3) m'(4)]
  have "tree_of m' (Internal (ks[pos := tl (vals lb) ! 0]) cs)
          = t_move_from_right pos ks (map (tree_of m) cs)"
    using ms(2) i a b la lb by (simp add: t_move_from_right_def)
  then show ?thesis
    using m'(1) ms(1) a by (simp add: node_type_def)
next
  case False
  then have h: "0 < h" by simp
  obtain aks acs where a: "cs ! pos = Internal aks acs" "length acs = Suc (length aks)"
    using t_node_cases(2) [OF under h] by blast
  obtain bks bcs where b: "cs ! Suc pos = Internal bks bcs" "length bcs = Suc (length bks)"
    using t_fill_cases(2) [OF sib h] by blast
  have i: "Suc pos < length cs" using shape pk by simp
  have sa: "length aks \<le> 2 * N" using under a by (auto simp: t_node_def)
  have sb: "bks \<noteq> []" using big b by auto
  have sc: "length bks \<le> 2 * N" using sib b by simp
  obtain b0 bt where bcs: "bcs = b0 # bt" using b(2) by (cases bcs) auto
  let ?A = "Internal (aks @ [ks ! pos]) (acs @ [bcs ! 0])"
  let ?B = "Internal (tl bks) (tl bcs)"
  let ?p = "Internal (ks[pos := bks ! 0]) (cs[pos := ?A, Suc pos := ?B])"
  have r: "move_from_right_I N pos ks cs = Some ?p"
    using i pk a b sa sb sc
    by (simp add: move_from_right_I_def child_at_def as_Internal_def max_size_def)
  have "leaves ?A @ leaves ?B = leaves (cs ! pos) @ leaves (cs ! Suc pos)"
    using a(1) b(1) bcs by simp
  from concat_map_update2 [OF i, of leaves, OF this]
  have lv: "leaves ?p = leaves (Internal ks cs)" by simp
  have "leaves (cs ! Suc pos) \<noteq> []" using sib by (rule leaves_nonempty_fill)
  then have ne: "leaves (Internal ks cs) \<noteq> []"
    using leaves_concat_nonempty [OF i] by simp
  have st: "step m pre (Internal ks cs) post m ?p"
    using ok lv ne by (rule step_same)
  have "tree_of m ?p = t_move_from_right pos ks (map (tree_of m) cs)"
    using i a(1) b(1) bcs
    by (simp add: t_move_from_right_def map_update)
  then show ?thesis
    using r st a by (simp add: node_type_def)
qed


lemma move_from_left_refines:
  assumes shape: "length cs = Suc (length ks)" and p0: "0 < pos" and pk: "pos \<le> length ks"
    and N: "0 < N"
    and under: "t_node (N - 1) (N - 1) N h (tree_of m (cs ! pos))"
    and sib: "t_fill N h (tree_of m (cs ! (pos - 1)))"
    and big: "N < t_size (tree_of m (cs ! (pos - 1)))"
    and ok: "heap_ok m (pre @ leaves (Internal ks cs) @ post)"
  shows "\<exists>p' m'. (if node_type (cs ! pos) = EXTERNAL then move_from_left_E N pos ks cs m
                  else map_option (\<lambda>p. (p, m)) (move_from_left_I N pos ks cs)) = Some (p', m')
           \<and> tree_of m' p' = t_move_from_left pos ks (map (tree_of m) cs)
           \<and> step m pre (Internal ks cs) post m' p'"
proof -
  obtain i where pos: "pos = Suc i" using p0 by (cases pos) auto
  have i: "Suc i < length cs" and ik: "i < length ks" using shape pk pos by simp_all
  have under': "t_node (N - 1) (N - 1) N h (tree_of m (cs ! Suc i))" using under pos by simp
  have sib': "t_fill N h (tree_of m (cs ! i))" using sib pos by simp
  have big': "N < t_size (tree_of m (cs ! i))" using big pos by simp
  show ?thesis
  proof (cases "h = 0")
    case True
    obtain a where a: "cs ! Suc i = External a" using t_node_cases(1) [OF under' True] by blast
    obtain b where b: "cs ! i = External b" using t_fill_cases(1) [OF sib' True] by blast
    note f = adjacent_facts [OF i b a ok]
    obtain lb where lb: "heap m b = Some lb" "vals_at m b = vals lb" using f(2) by blast
    obtain la where la: "heap m a = Some la" "vals_at m a = vals la" using f(3) by blast
    have sa: "length (vals la) \<le> 2 * N"
      using under' a la by (auto simp: t_node_def)
    have sb: "vals lb \<noteq> []" using big' b lb by auto
    have "\<exists>m'. move_from_left_E N pos ks cs m
              = Some (Internal (ks[pos - 1 := last (vals lb)]) cs, m')
           \<and> vals_changed {a, b} m m'
           \<and> vals_at m' a = last (vals lb) # vals la \<and> vals_at m' b = butlast (vals lb)"
      using i ik a b f(1) la(1) lb(1) sa sb pos
      by (intro move_from_left_E_result) simp_all
    then obtain m' where m': "move_from_left_E N pos ks cs m
          = Some (Internal (ks[i := last (vals lb)]) cs, m')"
      "vals_changed {b, a} m m'" "vals_at m' a = last (vals lb) # vals la"
      "vals_at m' b = butlast (vals lb)"
      using pos by (auto simp: insert_commute)
    note ms = move_step [OF i b a ok m'(2) m'(4) m'(3)]
    have "tree_of m' (Internal (ks[i := last (vals lb)]) cs)
            = t_move_from_left pos ks (map (tree_of m) cs)"
      using ms(2) i a b la lb pos
      by (simp add: t_move_from_left_def list_update_swap [of i "Suc i"])
    then show ?thesis
      using m'(1) ms(1) a pos by (simp add: node_type_def)
  next
    case False
    then have h: "0 < h" by simp
    obtain aks acs where a: "cs ! Suc i = Internal aks acs" "length acs = Suc (length aks)"
      using t_node_cases(2) [OF under' h] by blast
    obtain bks bcs where b: "cs ! i = Internal bks bcs" "length bcs = Suc (length bks)"
      using t_fill_cases(2) [OF sib' h] by blast
    have sa: "length aks \<le> 2 * N" using under' a by (auto simp: t_node_def)
    have sb: "bks \<noteq> []" using big' b by auto
    have bne: "bcs \<noteq> []" using b(2) by auto
    then have bcs: "bcs = butlast bcs @ [last bcs]" by simp
    let ?A = "Internal (ks ! i # aks) (last bcs # acs)"
    let ?B = "Internal (butlast bks) (butlast bcs)"
    let ?p = "Internal (ks[i := last bks]) (cs[i := ?B, Suc i := ?A])"
    have r: "move_from_left_I N pos ks cs = Some ?p"
      using i ik a b sa sb pos
      by (simp add: move_from_left_I_def child_at_def as_Internal_def max_size_def
          list_update_swap [of i "Suc i"])
    have "concat (map leaves bcs) = concat (map leaves (butlast bcs)) @ leaves (last bcs)"
      by (subst bcs) simp
    then have "leaves ?B @ leaves ?A = leaves (cs ! i) @ leaves (cs ! Suc i)"
      using a(1) b(1) by simp
    from concat_map_update2 [OF i, of leaves, OF this]
    have lv: "leaves ?p = leaves (Internal ks cs)" by simp
    have "leaves (cs ! i) \<noteq> []" using sib' by (rule leaves_nonempty_fill)
    moreover have "i < length cs" using i by simp
    ultimately have ne: "leaves (Internal ks cs) \<noteq> []"
      using leaves_concat_nonempty [of i cs] by simp
    have st: "step m pre (Internal ks cs) post m ?p"
      using ok lv ne by (rule step_same)
    have "tree_of m ?p = t_move_from_left pos ks (map (tree_of m) cs)"
      using i a(1) b(1) bne pos
      by (simp add: t_move_from_left_def map_update last_map map_butlast
          list_update_swap [of i "Suc i"])
    then show ?thesis
      using r st a pos by (simp add: node_type_def)
  qed
qed

lemma fuse_right_refines:
  assumes shape: "length cs = Suc (length ks)" and pk: "pos < length ks" and N: "0 < N"
    and under: "t_node (N - 1) (N - 1) N h (tree_of m (cs ! pos))"
    and sib: "t_fill N h (tree_of m (cs ! Suc pos))"
    and small: "t_size (tree_of m (cs ! Suc pos)) = N"
    and ok: "heap_ok m (pre @ leaves (Internal ks cs) @ post)"
  shows "\<exists>p' m'. fuse N RIGHT pos ks cs m = Some (p', m')
           \<and> tree_of m' p' = t_fuse_right pos ks (map (tree_of m) cs)
           \<and> step m pre (Internal ks cs) post m' p'"
proof (cases "h = 0")
  case True
  obtain a where a: "cs ! pos = External a" using t_node_cases(1) [OF under True] by blast
  obtain b where b: "cs ! Suc pos = External b" using t_fill_cases(1) [OF sib True] by blast
  have i: "Suc pos < length cs" using shape pk by simp
  note f = adjacent_facts [OF i a b ok]
  obtain la where la: "heap m a = Some la" "vals_at m a = vals la" using f(2) by blast
  obtain lb where lb: "heap m b = Some lb" "vals_at m b = vals lb"
    "\<forall>n. right_neighbour lb = Some n \<longrightarrow> n \<noteq> a \<and> n \<noteq> b \<and> heap m n \<noteq> None"
    using f(3) by blast
  have sz: "length (vals la) + length (vals lb) \<le> 2 * N + 1"
    using under a la small b lb by (auto simp: t_node_def)
  from fuse_right_E_result [OF i a b f(1) la(1) lb(1) sz lb(3)]
  obtain m' where m': "fuse_right_E N pos ks cs m
        = Some (Internal (del_at pos ks) (del_at (Suc pos) cs), m')"
    "brk m' = brk m"
    "heap m' a = Some (la\<lparr>vals := vals la @ vals lb, right_neighbour := right_neighbour lb\<rparr>)"
    "\<forall>x. x \<noteq> a \<longrightarrow> x \<noteq> b \<longrightarrow> heap m' x =
                (if right_neighbour lb = Some x
                 then map_option (\<lambda>l. l\<lparr>left_neighbour := Some a\<rparr>) (heap m x) else heap m x)"
    by blast
  note fs = fuse_step [OF i a b ok la(1) lb(1) m'(2) m'(3) m'(4)]
  have "tree_of m' (Internal (del_at pos ks) (del_at (Suc pos) cs))
          = t_fuse_right pos ks (map (tree_of m) cs)"
    using fs(2) i a b la lb by (simp add: t_fuse_right_def)
  then show ?thesis
    using m'(1) fs(1) a i by (simp add: fuse_def child_at_def node_type_def)
next
  case False
  then have h: "0 < h" by simp
  obtain aks acs where a: "cs ! pos = Internal aks acs" "length acs = Suc (length aks)"
    using t_node_cases(2) [OF under h] by blast
  obtain bks bcs where b: "cs ! Suc pos = Internal bks bcs" "length bcs = Suc (length bks)"
    using t_fill_cases(2) [OF sib h] by blast
  have i: "Suc pos < length cs" using shape pk by simp
  have sz: "length aks + length bks \<le> 2 * N"
    using under a small b N by (auto simp: t_node_def)
  let ?A = "Internal (aks @ [ks ! pos] @ bks) (acs @ bcs)"
  let ?p = "Internal (del_at pos ks) (del_at (Suc pos) (cs[pos := ?A]))"
  have r: "fuse_right_I N pos ks cs = Some ?p"
    using i pk a b sz
    by (simp add: fuse_right_I_def child_at_def as_Internal_def max_size_def)
  have "leaves ?A = leaves (cs ! pos) @ leaves (cs ! Suc pos)"
    using a(1) b(1) by simp
  from concat_map_del_update [OF i, of leaves, OF this]
  have lv: "leaves ?p = leaves (Internal ks cs)" by simp
  have "leaves (cs ! Suc pos) \<noteq> []" using sib by (rule leaves_nonempty_fill)
  then have ne: "leaves (Internal ks cs) \<noteq> []"
    using leaves_concat_nonempty [OF i] by simp
  have st: "step m pre (Internal ks cs) post m ?p"
    using ok lv ne by (rule step_same)
  have "tree_of m ?p = t_fuse_right pos ks (map (tree_of m) cs)"
    using i a(1) b(1)
    by (simp add: t_fuse_right_def map_update map_del_at)
  then show ?thesis
    using r st a i by (simp add: fuse_def child_at_def node_type_def)
qed

lemma fuse_left_refines:
  assumes shape: "length cs = Suc (length ks)" and p0: "0 < pos" and pk: "pos \<le> length ks"
    and N: "0 < N"
    and under: "t_node (N - 1) (N - 1) N h (tree_of m (cs ! pos))"
    and sib: "t_fill N h (tree_of m (cs ! (pos - 1)))"
    and small: "t_size (tree_of m (cs ! (pos - 1))) = N"
    and ok: "heap_ok m (pre @ leaves (Internal ks cs) @ post)"
  shows "\<exists>p' m'. fuse N LEFT pos ks cs m = Some (p', m')
           \<and> tree_of m' p' = t_fuse_left pos ks (map (tree_of m) cs)
           \<and> step m pre (Internal ks cs) post m' p'"
proof -
  obtain i where pos: "pos = Suc i" using p0 by (cases pos) auto
  have i: "Suc i < length cs" and ik: "i < length ks" using shape pk pos by simp_all
  have under': "t_node (N - 1) (N - 1) N h (tree_of m (cs ! Suc i))" using under pos by simp
  have sib': "t_fill N h (tree_of m (cs ! i))" using sib pos by simp
  have small': "t_size (tree_of m (cs ! i)) = N" using small pos by simp
  show ?thesis
  proof (cases "h = 0")
    case True
    obtain a where a: "cs ! Suc i = External a" using t_node_cases(1) [OF under' True] by blast
    obtain b where b: "cs ! i = External b" using t_fill_cases(1) [OF sib' True] by blast
    note f = adjacent_facts [OF i b a ok]
    obtain lb where lb: "heap m b = Some lb" "vals_at m b = vals lb" using f(2) by blast
    obtain la where la: "heap m a = Some la" "vals_at m a = vals la"
      "\<forall>n. right_neighbour la = Some n \<longrightarrow> n \<noteq> b \<and> n \<noteq> a \<and> heap m n \<noteq> None"
      using f(3) by blast
    have sz: "length (vals lb) + length (vals la) \<le> 2 * N + 1"
      using under' a la small' b lb by (auto simp: t_node_def)
    have "\<exists>m'. fuse_left_E N pos ks cs m
             = Some (Internal (left_keys pos ks) (del_at pos cs), m')
           \<and> brk m' = brk m
           \<and> heap m' b = Some (lb\<lparr>vals := vals lb @ vals la, right_neighbour := right_neighbour la\<rparr>)
           \<and> (\<forall>x. x \<noteq> b \<longrightarrow> x \<noteq> a \<longrightarrow> heap m' x =
                (if right_neighbour la = Some x
                 then map_option (\<lambda>l. l\<lparr>left_neighbour := Some b\<rparr>) (heap m x) else heap m x))"
      using i a b f(1) la lb(1) sz pos
      by (intro fuse_left_E_result) auto
    then obtain m' where m': "fuse_left_E N pos ks cs m
          = Some (Internal (left_keys pos ks) (del_at (Suc i) cs), m')"
      "brk m' = brk m"
      "heap m' b = Some (lb\<lparr>vals := vals lb @ vals la, right_neighbour := right_neighbour la\<rparr>)"
      "\<forall>x. x \<noteq> b \<longrightarrow> x \<noteq> a \<longrightarrow> heap m' x =
                (if right_neighbour la = Some x
                 then map_option (\<lambda>l. l\<lparr>left_neighbour := Some b\<rparr>) (heap m x) else heap m x)"
      using pos by auto
    note fs = fuse_step [OF i b a ok lb(1) la(1) m'(2) m'(3) m'(4)]
    have "tree_of m' (Internal (left_keys pos ks) (del_at (Suc i) cs))
            = t_fuse_left pos ks (map (tree_of m) cs)"
      using fs(2) i a b la lb pos by (simp add: t_fuse_left_def)
    then show ?thesis
      using m'(1) fs(1) a i pos by (simp add: fuse_def child_at_def node_type_def)
  next
    case False
    then have h: "0 < h" by simp
    obtain aks acs where a: "cs ! Suc i = Internal aks acs" "length acs = Suc (length aks)"
      using t_node_cases(2) [OF under' h] by blast
    obtain bks bcs where b: "cs ! i = Internal bks bcs" "length bcs = Suc (length bks)"
      using t_fill_cases(2) [OF sib' h] by blast
    have sz: "length bks + length aks \<le> 2 * N"
      using under' a small' b N by (auto simp: t_node_def)
    let ?B = "Internal (bks @ [ks ! i] @ aks) (bcs @ acs)"
    let ?p = "Internal (left_keys pos ks) (del_at (Suc i) (cs[i := ?B]))"
    have r: "fuse_left_I N pos ks cs = Some ?p"
      using i ik a b sz pos
      by (simp add: fuse_left_I_def child_at_def as_Internal_def max_size_def)
    have "leaves ?B = leaves (cs ! i) @ leaves (cs ! Suc i)"
      using a(1) b(1) by simp
    from concat_map_del_update [OF i, of leaves, OF this]
    have lv: "leaves ?p = leaves (Internal ks cs)" by simp
    have "leaves (cs ! i) \<noteq> []" using sib' by (rule leaves_nonempty_fill)
    moreover have "i < length cs" using i by simp
    ultimately have ne: "leaves (Internal ks cs) \<noteq> []"
      using leaves_concat_nonempty [of i cs] by simp
    have st: "step m pre (Internal ks cs) post m ?p"
      using ok lv ne by (rule step_same)
    have "tree_of m ?p = t_fuse_left pos ks (map (tree_of m) cs)"
      using i a(1) b(1) pos
      by (simp add: t_fuse_left_def map_update map_del_at)
    then show ?thesis
      using r st a i pos by (simp add: fuse_def child_at_def node_type_def)
  qed
qed

lemma decide_cong:
  assumes "0 < n" and "pos \<le> n" and "\<forall>i\<le>n. s i = s' i"
  shows "decide N pos n s = decide N pos n s'"
proof -
  consider "pos = 0" | "pos = n" "0 < pos" | "0 < pos" "pos < n"
    using assms(2) by linarith
  then show ?thesis
  proof cases
    case 1
    have "s 1 = s' 1" using assms(1,3) by (simp add: Suc_le_eq)
    then show ?thesis using 1 assms(1) by (simp add: decide_def)
  next
    case 2
    have "s (pos - 1) = s' (pos - 1)" using assms(3) 2 by simp
    then show ?thesis using 2 by (simp add: decide_def)
  next
    case 3
    have "s (pos - 1) = s' (pos - 1)" "s (pos + 1) = s' (pos + 1)" using assms(3) 3 by simp_all
    then show ?thesis using 3 by (simp add: decide_def)
  qed
qed

lemma leaves_child_subset:
  "i < length cs \<Longrightarrow> set (leaves (cs ! i)) \<subseteq> set (leaves (Internal ks cs))"
  using leaves_children [of i cs] by auto

lemma children_sizes:
  assumes ok: "heap_ok m (pre @ leaves (Internal ks cs) @ post)" and i: "i < length cs"
  shows "node_size m (cs ! i) = Some (t_size (tree_of m (cs ! i)))"
proof (rule node_size_tree_of, rule ballI)
  fix a assume "a \<in> set (leaves (cs ! i))"
  then have "a \<in> set (pre @ leaves (Internal ks cs) @ post)"
    using leaves_child_subset [OF i, of ks] by auto
  then show "heap m a \<noteq> None" using heap_ok_live [OF ok] by fastforce
qed

lemma resplit_none:
  assumes fill: "t_node lo hi N (Suc h) (tree_of m' p')" and i: "i \<le> t_size (tree_of m' p')"
    and ok: "heap_ok m' (pre @ leaves p' @ post)"
  shows "resplit N i p' m' = Some (p', m')"
proof -
  obtain ks' cs' where p': "p' = Internal ks' cs'" "length cs' = Suc (length ks')"
    using t_node_cases(2) [OF fill] by auto
  have il: "i < length cs'" using i p' by simp
  have "t_fill N h (tree_of m' (cs' ! i))"
    using fill p' il by (simp add: t_node_def)
  then have "t_size (tree_of m' (cs' ! i)) \<le> 2 * N"
    by (cases "tree_of m' (cs' ! i)") auto
  moreover have "node_size m' (cs' ! i) = Some (t_size (tree_of m' (cs' ! i)))"
  proof -
    have "heap_ok m' (pre @ leaves (Internal ks' cs') @ post)" using ok p'(1) by simp
    then show ?thesis using il by (rule children_sizes)
  qed
  ultimately show ?thesis
    using p' il by (simp add: resplit_def resplit_needed_def child_at_def max_size_def)
qed

lemma merge_refines:
  assumes shape: "length cs = Suc (length ks)" and pos: "pos \<le> length ks"
    and ks: "0 < length ks" and N: "0 < N"
    and under: "t_node (N - 1) (N - 1) N h (tree_of m (cs ! pos))"
    and others: "\<forall>i<length cs. i \<noteq> pos \<longrightarrow> t_fill N h (tree_of m (cs ! i))"
    and ok: "heap_ok m (pre @ leaves (Internal ks cs) @ post)"
  shows "\<exists>p' m'. merge N pos ks cs m = Some (p', m')
           \<and> tree_of m' p' = t_merge N pos ks (map (tree_of m) cs)
           \<and> step m pre (Internal ks cs) post m' p'"
proof -
  let ?T = "tree_of m"
  let ?sizes = "\<lambda>i. t_size (?T (cs ! i))"
  let ?d = "decide N pos (length ks) ?sizes"
  have "\<forall>i<length cs. node_size m (cs ! i) = Some (?sizes i)"
    using children_sizes [OF ok] by simp
  from merge_action_decide [OF shape pos ks this]
  have act: "merge_action N pos ks cs m = Some ?d" .
  have "\<forall>i\<le>length ks. ?sizes i = t_size (map ?T cs ! i)"
    using shape by simp
  from decide_cong [OF ks pos this]
  have dT: "decide N pos (length ks) (\<lambda>i. t_size (map ?T cs ! i)) = ?d" by simp
  have pl: "pos < length cs" using shape pos by simp
  have under': "t_node (N - 1) (N - 1) N h (map ?T cs ! pos)" using under pl by simp
  have others': "\<forall>i<length (map ?T cs). i \<noteq> pos \<longrightarrow> t_fill N h (map ?T cs ! i)"
    using others by simp
  have shape': "length (map ?T cs) = Suc (length ks)" using shape by simp
  note fill = t_merge_fill [OF shape' pos ks N under' others']
  have sz: "\<forall>i\<le>length ks. i \<noteq> pos \<longrightarrow> N \<le> ?sizes i"
  proof (intro allI impI)
    fix i
    assume "i \<le> length ks" "i \<noteq> pos"
    then have "t_fill N h (?T (cs ! i))" using others shape by simp
    then show "N \<le> ?sizes i" using t_fill_size by blast
  qed
  have m: "merge N pos ks cs m =
     (case ?d of
          MoveFromRight \<Rightarrow>
            (if node_type (cs ! pos) = EXTERNAL then move_from_right_E N pos ks cs m
             else map_option (\<lambda>p. (p, m)) (move_from_right_I N pos ks cs))
        | MoveFromLeft \<Rightarrow>
            (if node_type (cs ! pos) = EXTERNAL then move_from_left_E N pos ks cs m
             else map_option (\<lambda>p. (p, m)) (move_from_left_I N pos ks cs))
        | Fuse direction \<Rightarrow> do {
            (p, m') \<leftarrow> fuse N direction pos ks cs m;
            resplit N (fused_at direction pos) p m'
          })"
    using shape pl act by (simp add: merge_def child_at_def)
  have fuse_case: "\<exists>p' m'. merge N pos ks cs m = Some (p', m')
           \<and> tree_of m' p' = t_merge N pos ks (map ?T cs)
           \<and> step m pre (Internal ks cs) post m' p'"
    if d: "?d = Fuse dir" and f: "fuse N dir pos ks cs m = Some (p', m')"
      and t: "tree_of m' p' = t_merge N pos ks (map ?T cs)"
      and st: "step m pre (Internal ks cs) post m' p'"
      and i: "fused_at dir pos < length ks" for dir p' m'
  proof -
    have f': "t_node (length ks - 1) (length ks) N (Suc h) (tree_of m' p')"
      using fill t by simp
    then have "length ks - 1 \<le> t_size (tree_of m' p')"
      by (rule t_node_size [THEN conjunct1])
    then have i': "fused_at dir pos \<le> t_size (tree_of m' p')" using i by simp
    have "heap_ok m' (pre @ leaves p' @ post)" using st by (simp add: step_def)
    from resplit_none [OF f' i' this]
    have "merge N pos ks cs m = Some (p', m')" using m d f by simp
    then show ?thesis using t st by blast
  qed
  from ks pos sz show ?thesis
  proof (cases rule: decide_consider)
    case mr
    have s1: "Suc pos < length cs" using mr(2) shape by simp
    have sib: "t_fill N h (?T (cs ! Suc pos))" using others s1 by simp
    from move_from_right_refines [OF shape mr(2) N under sib mr(3) ok]
    show ?thesis using m mr(1) dT by (simp add: t_merge_def)
  next
    case ml
    have s1: "pos - 1 < length cs" "pos - 1 \<noteq> pos" using ml(2) pl by simp_all
    have sib: "t_fill N h (?T (cs ! (pos - 1)))" using others s1 by blast
    from move_from_left_refines [OF shape ml(2) pos N under sib ml(3) ok]
    show ?thesis using m ml(1) dT by (simp add: t_merge_def)
  next
    case fr
    have s1: "Suc pos < length cs" using fr(2) shape by simp
    have sib: "t_fill N h (?T (cs ! Suc pos))" using others s1 by simp
    from fuse_right_refines [OF shape fr(2) N under sib fr(3) ok]
    obtain p' m' where r: "fuse N RIGHT pos ks cs m = Some (p', m')"
      "tree_of m' p' = t_fuse_right pos ks (map ?T cs)"
      "step m pre (Internal ks cs) post m' p'" by blast
    have "tree_of m' p' = t_merge N pos ks (map ?T cs)"
      using r(2) fr(1) dT by (simp add: t_merge_def)
    moreover have "fused_at RIGHT pos < length ks" using fr(2) by (simp add: fused_at_def)
    ultimately show ?thesis using fuse_case [OF fr(1) r(1) _ r(3)] by blast
  next
    case fl
    have s1: "pos - 1 < length cs" "pos - 1 \<noteq> pos" using fl(2) pl by simp_all
    have sib: "t_fill N h (?T (cs ! (pos - 1)))" using others s1 by blast
    from fuse_left_refines [OF shape fl(2) pos N under sib fl(4) ok]
    obtain p' m' where r: "fuse N LEFT pos ks cs m = Some (p', m')"
      "tree_of m' p' = t_fuse_left pos ks (map ?T cs)"
      "step m pre (Internal ks cs) post m' p'" by blast
    have "tree_of m' p' = t_merge N pos ks (map ?T cs)"
      using r(2) fl(1) dT by (simp add: t_merge_def)
    moreover have "fused_at LEFT pos < length ks" using fl(2) pos by (simp add: fused_at_def)
    ultimately show ?thesis using fuse_case [OF fl(1) r(1) _ r(3)] by blast
  qed
qed

section \<open>Removal refines \<open>t_remove\<close>\<close>

text \<open>\<open>remove_elem\<close> on a filled tree in memory returns, and computes \<open>t_remove\<close> on its
  value.\<close>

lemma remove_elem_E_refines:
  assumes l: "heap m a = Some l"
  shows "\<exists>m'. remove_elem_E N x a m = Some (fst (t_remove N x (Leaf (vals l))), m')
           \<and> Leaf (vals_at m' a) = snd (t_remove N x (Leaf (vals l)))
           \<and> vals_changed {a} m m'"
proof (cases "find_pos_E (vals l) x = - 1")
  case True
  then show ?thesis
    using l by (auto simp: remove_elem_E_def vals_changed_def vals_at_def)
next
  case False
  then show ?thesis
    using l
    by (auto simp: remove_elem_E_def vals_changed_def vals_at_def update_def min_size_def)
qed

lemma remove_elem_refines:
  assumes "t_node lo (2 * N) N h (tree_of m t)" and "0 < N"
    and "is_leaf (tree_of m t) \<or> 0 < t_size (tree_of m t)"
    and "heap_ok m (pre @ leaves t @ post)"
  shows "\<exists>t' m'. remove_elem N x t m = Some (fst (t_remove N x (tree_of m t)), t', m')
           \<and> tree_of m' t' = snd (t_remove N x (tree_of m t))
           \<and> step m pre t post m' t'"
  using assms
proof (induction N x t m arbitrary: lo h pre post rule: remove_elem.induct)
  case (1 N elem a m)
  from heap_ok_live [OF "1.prems"(4), of a] obtain l where l: "heap m a = Some l" by auto
  then have va: "vals_at m a = vals l" by (simp add: vals_at_def)
  from remove_elem_E_refines [OF l, of N elem] obtain m' where
    m': "remove_elem_E N elem a m = Some (fst (t_remove N elem (Leaf (vals l))), m')"
    "Leaf (vals_at m' a) = snd (t_remove N elem (Leaf (vals l)))" "vals_changed {a} m m'"
    by blast
  have ok0: "heap_ok m (pre @ [a] @ post)" using "1.prems"(4) by simp
  have "heap_ok m' (pre @ [a] @ post)"
    using m'(3) ok0 by (rule vals_changed_heap_ok)
  moreover have "\<forall>b\<in>set pre \<union> set post. vals_at m' b = vals_at m b"
  proof
    fix b assume "b \<in> set pre \<union> set post"
    then have "b \<noteq> a" using "1.prems"(4) by (auto simp: heap_ok_def)
    then show "vals_at m' b = vals_at m b"
      using vals_changed_outside [OF m'(3)] by simp
  qed
  ultimately have "step m pre (External a) post m' (External a)" by (simp add: step_def)
  then show ?case using m' va by (auto simp del: t_remove.simps)
next
  case (2 N elem ks cs m)
  define pos where "pos = find_pos_I elem ks"
  define T where "T = tree_of m"
  have TI: "T (Internal ks cs) = Node ks (map T cs)" by (simp add: T_def)
  have node: "t_node lo (2 * N) N h (Node ks (map T cs))"
    using "2.prems"(1) by (simp add: T_def)
  then have shape: "length cs = Suc (length ks)" and ks: "length ks \<le> 2 * N"
    and sub: "\<forall>c\<in>set cs. t_fill N (h - 1) (T c)"
    by (simp_all add: t_node_def)
  have ks0: "0 < length ks" using "2.prems"(3) by simp
  have pos: "pos \<le> length ks" "pos < length cs"
    using find_pos_I_le [of elem ks] shape by (simp_all add: pos_def)
  have cf: "t_fill N (h - 1) (T (cs ! pos))" using sub pos by simp
  then have child: "t_node N (2 * N) N (h - 1) (tree_of m (cs ! pos))"
    by (simp add: t_fill_t_node [symmetric] T_def)
  have cpos: "is_leaf (tree_of m (cs ! pos)) \<or> 0 < t_size (tree_of m (cs ! pos))"
    using t_fill_size [OF cf] "2.prems"(2) by (simp add: T_def)
  have ne: "leaves (cs ! pos) \<noteq> []" using cf leaves_nonempty_fill by (auto simp: T_def)
  define L1 where "L1 = concat (map leaves (take pos cs))"
  define L2 where "L2 = concat (map leaves (drop (Suc pos) cs))"
  have ok: "heap_ok m ((pre @ L1) @ leaves (cs ! pos) @ (L2 @ post))"
    using "2.prems"(4) leaves_children [OF pos(2)] by (simp add: L1_def L2_def)
  have nshape: "\<not> length cs \<noteq> Suc (length ks)" using shape by simp
  obtain r tc where rec: "t_remove N elem (T (cs ! pos)) = (r, tc)"
    by (cases "t_remove N elem (T (cs ! pos))")
  from "2.IH" [OF nshape child [unfolded pos_def] "2.prems"(2) cpos [unfolded pos_def]
      ok [unfolded pos_def]]
  obtain c' m1 where ih: "remove_elem N elem (cs ! pos) m = Some (r, c', m1)"
    "tree_of m1 c' = tc" "step m (pre @ L1) (cs ! pos) (L2 @ post) m1 c'"
    using rec by (auto simp: pos_def T_def)
  let ?cs = "cs[pos := c']"
  note st = ih(3) [unfolded L1_def L2_def]
  have st1: "step m pre (Internal ks cs) post m1 (Internal ks ?cs)"
    using pos(2) ne st by (rule step_child(1))
  have mp: "map (tree_of m1) ?cs = (map T cs)[pos := tc]"
    using step_child(2) [OF pos(2) ne st] by (simp add: ih(2) T_def)
  have trem: "t_remove N elem (Node ks (map T cs)) =
      (if r = MERGE then
         (let p = t_merge N pos ks ((map T cs)[pos := tc])
          in (if min_size N \<le> t_size p then SUCCESS_E else MERGE, p))
       else (r, Node ks ((map T cs)[pos := tc])))"
    using shape pos rec by (simp add: pos_def [symmetric])
  show ?case
  proof (cases "r = MERGE")
    case False
    have "remove_elem N elem (Internal ks cs) m = Some (r, Internal ks ?cs, m1)"
      using shape ih(1) False by (simp add: pos_def [symmetric])
    moreover have "tree_of m1 (Internal ks ?cs) = Node ks ((map T cs)[pos := tc])"
      using mp by simp
    ultimately show ?thesis
      using st1 trem False unfolding T_def [symmetric]
      by (simp add: TI del: remove_elem.simps t_remove.simps)
  next
    case True
    have le: "N \<le> N" by simp
    have under: "t_node (N - 1) (N - 1) N (h - 1) (tree_of m1 (?cs ! pos))"
      using t_remove_fill [OF child le "2.prems"(2) cpos, of elem] rec True pos ih(2)
      by (simp add: T_def)
    have others: "\<forall>i<length ?cs. i \<noteq> pos \<longrightarrow> t_fill N (h - 1) (tree_of m1 (?cs ! i))"
    proof (intro allI impI)
      fix i assume i: "i < length ?cs" "i \<noteq> pos"
      then have "tree_of m1 (?cs ! i) = map (tree_of m1) ?cs ! i" by simp
      also have "\<dots> = T (cs ! i)" using i unfolding mp by simp
      finally show "t_fill N (h - 1) (tree_of m1 (?cs ! i))" using sub i by simp
    qed
    have ok1: "heap_ok m1 (pre @ leaves (Internal ks ?cs) @ post)"
      using st1 by (simp add: step_def)
    have shape1: "length ?cs = Suc (length ks)" using shape by simp
    from merge_refines [OF shape1 pos(1) ks0 "2.prems"(2) under others ok1]
    obtain p' m2 where sp: "merge N pos ks ?cs m1 = Some (p', m2)"
      "tree_of m2 p' = t_merge N pos ks (map (tree_of m1) ?cs)"
      "step m1 pre (Internal ks ?cs) post m2 p'"
      by auto
    define tp where "tp = t_merge N pos ks ((map T cs)[pos := tc])"
    have tp: "tree_of m2 p' = tp" using sp(2) mp by (simp add: tp_def)
    have under': "t_node (N - 1) (N - 1) N (h - 1) (map (tree_of m1) ?cs ! pos)"
      using under pos by simp
    have others': "\<forall>i<length (map (tree_of m1) ?cs). i \<noteq> pos
        \<longrightarrow> t_fill N (h - 1) (map (tree_of m1) ?cs ! i)"
      using others by simp
    have shape': "length (map (tree_of m1) ?cs) = Suc (length ks)" using shape by simp
    have "t_node (length ks - 1) (length ks) N (Suc (h - 1)) tp"
      using t_merge_fill [OF shape' pos(1) ks0 "2.prems"(2) under' others'] mp
      by (simp add: tp_def)
    then obtain ks' cs' where tpn: "tp = Node ks' cs'"
      by (cases tp) (auto simp: t_node_def)
    have ns: "node_size m2 p' = Some (t_size tp)"
      using node_size_Internal [of m2 p' ks' cs'] tp tpn by simp
    have "remove_elem N elem (Internal ks cs) m =
        Some (if min_size N \<le> t_size tp then SUCCESS_E else MERGE, p', m2)"
      using shape ih(1) True sp(1) ns by (simp add: pos_def [symmetric])
    moreover have "step m pre (Internal ks cs) post m2 p'"
      using st1 sp(3) by (rule step_trans)
    ultimately show ?thesis
      using trem True tp unfolding T_def [symmetric] tp_def [symmetric]
      by (simp add: TI Let_def del: remove_elem.simps t_remove.simps)
  qed
qed

section \<open>The size of a fused child\<close>

lemma fused_size:
  assumes under: "t_node (N - 1) (N - 1) N h a" and sib: "t_fill N h b"
    and small: "t_size b = N" and N: "0 < N"
  shows "h = 0 \<Longrightarrow> \<exists>va vb. a = Leaf va \<and> b = Leaf vb \<and> length va + length vb = 2 * N - 1"
    and "0 < h \<Longrightarrow> \<exists>aks acs bks bcs. a = Node aks acs \<and> b = Node bks bcs
           \<and> Suc (length aks + length bks) = 2 * N"
proof -
  have s: "t_size a = N - 1" using t_node_size [OF under] by simp
  have s1: "t_size a + t_size b = 2 * N - 1" using s small N by arith
  have s2: "Suc (t_size a + t_size b) = 2 * N" using s small N by arith
  show "h = 0 \<Longrightarrow> \<exists>va vb. a = Leaf va \<and> b = Leaf vb \<and> length va + length vb = 2 * N - 1"
    using under sib s1 by (cases a; cases b) (auto simp: t_node_def)
  show "0 < h \<Longrightarrow> \<exists>aks acs bks bcs. a = Node aks acs \<and> b = Node bks bcs
           \<and> Suc (length aks + length bks) = 2 * N"
    using under sib s2 by (cases a; cases b) (auto simp: t_node_def)
qed

lemma t_fuse_right_child:
  assumes shape: "length ts = Suc (length ks)" and pk: "pos < length ks" and N: "0 < N"
    and under: "t_node (N - 1) (N - 1) N h (ts ! pos)" and sib: "t_fill N h (ts ! Suc pos)"
    and small: "t_size (ts ! Suc pos) = N"
  shows "\<exists>ks' cs'. t_fuse_right pos ks ts = Node ks' cs' \<and> pos < length cs'
           \<and> t_size (cs' ! pos) = (if h = 0 then 2 * N - 1 else 2 * N)"
proof (cases "h = 0")
  case True
  from fused_size(1) [OF under sib small N True]
  obtain va vb where v: "ts ! pos = Leaf va" "ts ! Suc pos = Leaf vb"
    "length va + length vb = 2 * N - 1" by blast
  have "pos < length (ts[pos := Leaf (va @ vb)]) - 1" using shape pk by simp
  from nth_del_at [OF this, of "Suc pos"]
  show ?thesis
    using v True shape pk by (simp add: t_fuse_right_def)
next
  case False
  then have h: "0 < h" by simp
  from fused_size(2) [OF under sib small N h]
  obtain aks acs bks bcs where v: "ts ! pos = Node aks acs" "ts ! Suc pos = Node bks bcs"
    "Suc (length aks + length bks) = 2 * N" by blast
  have "pos < length (ts[pos := Node (aks @ [ks ! pos] @ bks) (acs @ bcs)]) - 1"
    using shape pk by simp
  from nth_del_at [OF this, of "Suc pos"]
  show ?thesis
    using v False shape pk by (simp add: t_fuse_right_def)
qed

lemma t_fuse_left_child:
  assumes shape: "length ts = Suc (length ks)" and p0: "0 < pos" and pk: "pos \<le> length ks"
    and N: "0 < N"
    and under: "t_node (N - 1) (N - 1) N h (ts ! pos)" and sib: "t_fill N h (ts ! (pos - 1))"
    and small: "t_size (ts ! (pos - 1)) = N"
  shows "\<exists>ks' cs'. t_fuse_left pos ks ts = Node ks' cs' \<and> pos - 1 < length cs'
           \<and> t_size (cs' ! (pos - 1)) = (if h = 0 then 2 * N - 1 else 2 * N)"
proof (cases "h = 0")
  case True
  from fused_size(1) [OF under sib small N True]
  obtain va vb where v: "ts ! pos = Leaf va" "ts ! (pos - 1) = Leaf vb"
    "length va + length vb = 2 * N - 1" by blast
  have "pos - 1 < length (ts[pos - 1 := Leaf (vb @ va)]) - 1" using shape pk p0 by simp
  from nth_del_at [OF this, of pos]
  show ?thesis
    using v True shape pk p0 by (simp add: t_fuse_left_def add.commute)
next
  case False
  then have h: "0 < h" by simp
  from fused_size(2) [OF under sib small N h]
  obtain aks acs bks bcs where v: "ts ! pos = Node aks acs" "ts ! (pos - 1) = Node bks bcs"
    "Suc (length aks + length bks) = 2 * N" by blast
  have "pos - 1 < length (ts[pos - 1 := Node (bks @ [ks ! (pos - 1)] @ aks) (bcs @ acs)]) - 1"
    using shape pk p0 by simp
  from nth_del_at [OF this, of pos]
  show ?thesis
    using v False shape pk p0 by (simp add: t_fuse_left_def add.commute)
qed

lemma fused_child_size:
  assumes t: "tree_of m' p' = Node ks' ts'" and i: "i < length ts'"
    and ok: "heap_ok m' (pre @ leaves p' @ post)"
  shows "\<exists>pks pcs. p' = Internal pks pcs \<and> i < length pcs
           \<and> node_size m' (pcs ! i) = Some (t_size (ts' ! i))"
proof -
  obtain pcs where p': "p' = Internal ks' pcs" "ts' = map (tree_of m') pcs"
    using tree_of_Node [OF t] by blast
  have il: "i < length pcs" using i p'(2) by simp
  have "heap_ok m' (pre @ leaves (Internal ks' pcs) @ post)" using ok p'(1) by simp
  from children_sizes [OF this il] show ?thesis using p' il by simp
qed

text \<open>
  Claim C9. A node whose child at \<open>pos\<close> holds \<open>N - 1\<close> keys and whose other children are
  filled, all of them \<open>h\<close> levels above the leaves, with the leaves in an intact chain: when
  \<open>merge(pos)\<close> decides to fuse, the fused child holds \<open>2N - 1\<close> keys when the children are
  leaves and \<open>2N\<close> keys when they are internal nodes, the test \<open>node_size > max_size\<close> that
  guards the second split is false, and \<open>merge\<close> returns what fusing left.
\<close>

theorem fuse_within_max_size:
  assumes shape: "length cs = Suc (length ks)" and pos: "pos \<le> length ks"
    and ks: "0 < length ks" and N: "0 < N"
    and under: "t_node (N - 1) (N - 1) N h (tree_of m (cs ! pos))"
    and others: "\<forall>i<length cs. i \<noteq> pos \<longrightarrow> t_fill N h (tree_of m (cs ! i))"
    and ok: "heap_ok m (pre @ leaves (Internal ks cs) @ post)"
    and act: "merge_action N pos ks cs m = Some (Fuse direction)"
  shows "\<exists>pks pcs m'. fuse N direction pos ks cs m = Some (Internal pks pcs, m')
           \<and> fused_at direction pos < length pcs
           \<and> node_size m' (pcs ! fused_at direction pos)
               = Some (if h = 0 then 2 * N - 1 else 2 * N)
           \<and> resplit_needed N (fused_at direction pos) (Internal pks pcs) m' = Some False
           \<and> merge N pos ks cs m = Some (Internal pks pcs, m')"
proof -
  let ?T = "tree_of m"
  let ?sizes = "\<lambda>i. t_size (?T (cs ! i))"
  let ?d = "decide N pos (length ks) ?sizes"
  have "\<forall>i<length cs. node_size m (cs ! i) = Some (?sizes i)"
    using children_sizes [OF ok] by simp
  from merge_action_decide [OF shape pos ks this]
  have d: "?d = Fuse direction" using act by simp
  have pl: "pos < length cs" using shape pos by simp
  have shape': "length (map ?T cs) = Suc (length ks)" using shape by simp
  have sz: "\<forall>i\<le>length ks. i \<noteq> pos \<longrightarrow> N \<le> ?sizes i"
  proof (intro allI impI)
    fix i
    assume "i \<le> length ks" "i \<noteq> pos"
    then have "t_fill N h (?T (cs ! i))" using others shape by simp
    then show "N \<le> ?sizes i" using t_fill_size by blast
  qed
  have fin: ?thesis
    if f: "fuse N direction pos ks cs m = Some (p', m')"
      and t: "tree_of m' p' = Node ks' ts'" and i: "fused_at direction pos < length ts'"
      and n: "t_size (ts' ! fused_at direction pos) = (if h = 0 then 2 * N - 1 else 2 * N)"
      and st: "step m pre (Internal ks cs) post m' p'" for p' m' ks' ts'
  proof -
    have "heap_ok m' (pre @ leaves p' @ post)" using st by (simp add: step_def)
    from fused_child_size [OF t i this]
    obtain pks pcs where p': "p' = Internal pks pcs" "fused_at direction pos < length pcs"
      "node_size m' (pcs ! fused_at direction pos)
         = Some (t_size (ts' ! fused_at direction pos))" by blast
    have le: "\<not> max_size N < (if h = 0 then 2 * N - 1 else 2 * N)"
    proof -
      have "\<not> N * 2 < 2 * N - 1" by arith
      then show ?thesis by (simp add: max_size_def)
    qed
    have rs: "resplit_needed N (fused_at direction pos) (Internal pks pcs) m' = Some False"
      using p'(2,3) n le by (simp add: resplit_needed_def child_at_def)
    have "merge N pos ks cs m = Some (Internal pks pcs, m')"
      using shape pl act f p'(1) rs by (simp add: merge_def child_at_def resplit_def)
    then show ?thesis using f p' n rs by simp
  qed
  from ks pos sz show ?thesis
  proof (cases rule: decide_consider)
    case mr
    then show ?thesis using d by simp
  next
    case ml
    then show ?thesis using d by simp
  next
    case fr
    have dir: "direction = RIGHT" using d fr(1) by simp
    have s1: "Suc pos < length cs" using fr(2) shape by simp
    have sib: "t_fill N h (?T (cs ! Suc pos))" using others s1 by simp
    from fuse_right_refines [OF shape fr(2) N under sib fr(3) ok]
    obtain p' m' where r: "fuse N RIGHT pos ks cs m = Some (p', m')"
      "tree_of m' p' = t_fuse_right pos ks (map ?T cs)"
      "step m pre (Internal ks cs) post m' p'" by blast
    have "\<exists>ks' cs'. t_fuse_right pos ks (map ?T cs) = Node ks' cs' \<and> pos < length cs'
           \<and> t_size (cs' ! pos) = (if h = 0 then 2 * N - 1 else 2 * N)"
      using shape' fr(2) N under sib fr(3) pl s1
      by (intro t_fuse_right_child) simp_all
    then obtain ks' ts' where c: "t_fuse_right pos ks (map ?T cs) = Node ks' ts'"
      "pos < length ts'" "t_size (ts' ! pos) = (if h = 0 then 2 * N - 1 else 2 * N)" by blast
    show ?thesis
      using fin [of p' m' ks' ts'] r c dir by (simp add: fused_at_def)
  next
    case fl
    have dir: "direction = LEFT" using d fl(1) by simp
    have s1: "pos - 1 < length cs" "pos - 1 \<noteq> pos" using fl(2) pl by simp_all
    have sib: "t_fill N h (?T (cs ! (pos - 1)))" using others s1 by blast
    from fuse_left_refines [OF shape fl(2) pos N under sib fl(4) ok]
    obtain p' m' where r: "fuse N LEFT pos ks cs m = Some (p', m')"
      "tree_of m' p' = t_fuse_left pos ks (map ?T cs)"
      "step m pre (Internal ks cs) post m' p'" by blast
    have "\<exists>ks' cs'. t_fuse_left pos ks (map ?T cs) = Node ks' cs' \<and> pos - 1 < length cs'
           \<and> t_size (cs' ! (pos - 1)) = (if h = 0 then 2 * N - 1 else 2 * N)"
      using shape' fl(2) pos N under sib fl(4) pl s1
      by (intro t_fuse_left_child) simp_all
    then obtain ks' ts' where c: "t_fuse_left pos ks (map ?T cs) = Node ks' ts'"
      "pos - 1 < length ts'"
      "t_size (ts' ! (pos - 1)) = (if h = 0 then 2 * N - 1 else 2 * N)" by blast
    show ?thesis
      using fin [of p' m' ks' ts'] r c dir by (simp add: fused_at_def)
  qed
qed


text \<open>Order 2, a node with the leaves \<open>[1]\<close> and \<open>[5, 6]\<close>: the fused leaf holds 3 keys.\<close>

theorem fuse_within_max_size_witness:
  "\<exists>pks pcs m'.
     fuse 2 RIGHT 0 [5] [External 0, External 1]
       \<lparr>heap = (\<lambda>a. None)
          (0 \<mapsto> \<lparr>vals = [1 :: int], left_neighbour = None, right_neighbour = Some 1\<rparr>,
           1 \<mapsto> \<lparr>vals = [5, 6], left_neighbour = Some 0, right_neighbour = None\<rparr>),
        brk = 2, internals = 1\<rparr> = Some (Internal pks pcs, m')
     \<and> fused_at RIGHT 0 < length pcs
     \<and> node_size m' (pcs ! fused_at RIGHT 0) = Some 3
     \<and> resplit_needed 2 (fused_at RIGHT 0) (Internal pks pcs) m' = Some False
     \<and> merge 2 0 [5] [External 0, External 1]
         \<lparr>heap = (\<lambda>a. None)
            (0 \<mapsto> \<lparr>vals = [1 :: int], left_neighbour = None, right_neighbour = Some 1\<rparr>,
             1 \<mapsto> \<lparr>vals = [5, 6], left_neighbour = Some 0, right_neighbour = None\<rparr>),
          brk = 2, internals = 1\<rparr> = Some (Internal pks pcs, m')"
  using fuse_within_max_size [of "[External 0, External 1]" "[5 :: int]" 0 2 0
      "\<lparr>heap = (\<lambda>a. None)
          (0 \<mapsto> \<lparr>vals = [1 :: int], left_neighbour = None, right_neighbour = Some 1\<rparr>,
           1 \<mapsto> \<lparr>vals = [5, 6], left_neighbour = Some 0, right_neighbour = None\<rparr>),
        brk = 2, internals = 1\<rparr>" "[]" "[]" RIGHT]
  by (simp add: t_node_def vals_at_def less_Suc_eq heap_ok_def merge_action_def
      merge_direction_def from_right_cond_def from_left_cond_def child_at_def node_size_def
      min_size_def first_or_def)

section \<open>The choice of the sibling in \<open>merge\<close>\<close>














section \<open>The order of the keys\<close>

text \<open>The row \<open>flat t\<close> of a node is the row of a child between the rows to its left and to its
  right. Splitting and rebalancing change this row in three ways only: not at all, by taking
  a separator out, or by putting a separator in front of its own key.\<close>

lemma keys_of_append [simp]: "keys_of (xs @ ys) = keys_of xs @ keys_of ys"
  by (induction xs rule: keys_of.induct) auto

lemma keys_of_map_Key [simp]: "keys_of (map Key vs) = vs"
  by (induction vs) auto

lemma keys_of_concat: "keys_of (concat xss) = concat (map keys_of xss)"
  by (induction xss) auto

lemma set_keys_of: "set (keys_of L) = {v. Key v \<in> set L}"
  by (induction L rule: keys_of.induct) auto

lemma keys_of_inter: "keys_of (inter ks xs) = concat (map keys_of xs)"
  by (induction ks xs rule: inter.induct) auto

lemma t_keys_flat: "keys_of (flat t) = t_keys t"
proof (induction t)
  case (Leaf vs)
  then show ?case by simp
next
  case (Node ks cs)
  have "map (keys_of \<circ> flat) cs = map t_keys cs"
    using Node by (intro map_cong) simp_all
  then show ?case by (simp add: keys_of_inter del: map_eq_conv)
qed

lemma items_left_simps [simp]:
  "items_left [] xs = []" "items_left ks [] = []"
  "items_left (k # ks) (x # xs) = x @ Sep k # items_left ks xs"
  by (simp_all add: items_left_def)

lemma items_right_simps [simp]:
  "items_right [] xs = []" "items_right ks [] = []"
  "items_right (k # ks) (x # xs) = Sep k # x @ items_right ks xs"
  by (simp_all add: items_right_def)

lemma inter_right: "length xs = length ks \<Longrightarrow> inter ks (x # xs) = x @ items_right ks xs"
  by (induction ks xs arbitrary: x rule: list_induct2') auto

lemma inter_app:
  "length X1 = length K1 \<Longrightarrow> length X2 = length K2 \<Longrightarrow>
   inter (K1 @ K2) (X1 @ x # X2) = items_left K1 X1 @ x @ items_right K2 X2"
proof (induction K1 X1 rule: list_induct2')
  case 1
  then show ?case by (simp add: inter_right)
qed auto

lemma inter_join:
  "length xs = Suc (length ks) \<Longrightarrow>
   inter (ks @ k # ks') (xs @ xs') = inter ks xs @ Sep k # inter ks' xs'"
proof (induction ks xs rule: inter.induct)
  case (2 x xs)
  then show ?case by (cases xs') auto
qed auto

lemma flat_built:
  "length C1 = length K1 \<Longrightarrow> length C2 = length K2 \<Longrightarrow>
   flat (Node (K1 @ K2) (C1 @ c # C2)) =
     items_left K1 (map flat C1) @ flat c @ items_right K2 (map flat C2)"
  using inter_app [of "map flat C1" K1 "map flat C2" K2 "flat c"] by simp

text \<open>The node around the child at \<open>pos\<close>.\<close>

lemma node_at:
  assumes "length cs = Suc (length ks)" and "pos \<le> length ks"
  obtains K1 K2 C1 C2 where "ks = K1 @ K2" "cs = C1 @ cs ! pos # C2"
    "length K1 = pos" "length C1 = pos" "length C2 = length K2"
proof -
  have "pos < length cs" using assms by simp
  then have "cs = take pos cs @ cs ! pos # drop (Suc pos) cs" by (rule id_take_nth_drop)
  moreover have "ks = take pos ks @ drop pos ks" by simp
  moreover have "length (take pos ks) = pos" "length (take pos cs) = pos"
    "length (drop (Suc pos) cs) = length (drop pos ks)"
    using assms by simp_all
  ultimately show ?thesis using that by blast
qed

lemma node_at2:
  assumes "length cs = Suc (length ks)" and "pos < length ks"
  obtains K1 K2 C1 C2 where "ks = K1 @ ks ! pos # K2" "cs = C1 @ cs ! pos # cs ! Suc pos # C2"
    "length K1 = pos" "length C1 = pos" "length C2 = length K2"
proof -
  have p: "pos < length cs" "Suc pos < length cs" using assms by simp_all
  have "cs = take pos cs @ cs ! pos # drop (Suc pos) cs" using p(1) by (rule id_take_nth_drop)
  moreover have "drop (Suc pos) cs = cs ! Suc pos # drop (Suc (Suc pos)) cs"
    using p(2) by (simp add: Cons_nth_drop_Suc)
  ultimately have "cs = take pos cs @ cs ! pos # cs ! Suc pos # drop (Suc (Suc pos)) cs" by simp
  moreover have "ks = take pos ks @ ks ! pos # drop (Suc pos) ks"
    using assms(2) by (rule id_take_nth_drop)
  moreover have "length (take pos ks) = pos" "length (take pos cs) = pos"
    "length (drop (Suc (Suc pos)) cs) = length (drop (Suc pos) ks)"
    using assms by simp_all
  ultimately show ?thesis using that by blast
qed

subsection \<open>Ordered rows\<close>

lemma before_val: "item_val y = item_val y' \<Longrightarrow> before x y = before x y'"
  by (cases x) auto

lemma before_le: "before x y \<Longrightarrow> item_val x \<le> item_val y"
  by (cases x) auto

lemma before_trans: "before x y \<Longrightarrow> item_val y \<le> v \<Longrightarrow> before x (Key v)"
  by (cases x) auto

lemma sorted_map_Key: "sorted_wrt before (map Key vs) = sorted_wrt (<) vs"
  by (induction vs) auto

lemma keeps_refl: "keeps L L"
  by (simp add: keeps_def)

lemma keeps_trans: "keeps L L' \<Longrightarrow> keeps L' L'' \<Longrightarrow> keeps L L''"
  by (simp add: keeps_def)

lemma keeps_ctx: "keeps L L' \<Longrightarrow> keeps (X @ L @ Y) (X @ L' @ Y)"
  unfolding keeps_def
proof (intro allI impI)
  fix A B
  assume k: "\<forall>A B. sorted_wrt before (A @ L @ B) \<longrightarrow> sorted_wrt before (A @ L' @ B)"
    and s: "sorted_wrt before (A @ (X @ L @ Y) @ B)"
  have "sorted_wrt before ((A @ X) @ L @ (Y @ B))" using s by simp
  then have "sorted_wrt before ((A @ X) @ L' @ (Y @ B))" using k by blast
  then show "sorted_wrt before (A @ (X @ L' @ Y) @ B)" by simp
qed

lemma keeps_drop: "keeps (X @ e # Y) (X @ Y)"
  by (auto simp: keeps_def sorted_wrt_append)

lemma keeps_add_sep: "keeps (X @ Key v # Y) (X @ Sep v # Key v # Y)"
proof -
  have "before a (Sep v) = before a (Key v)" for a :: "'a item"
    by (rule before_val) simp
  moreover have "before (Key v) b \<Longrightarrow> before (Sep v) b" for b :: "'a item" by simp
  moreover have "before (Sep v) (Key v)" by simp
  ultimately show ?thesis
    by (auto simp: keeps_def sorted_wrt_append simp del: before.simps)
qed

lemma tidy_refl: "tidy L L"
  by (simp add: tidy_def keeps_refl)

lemma tidy_eq: "L' = L \<Longrightarrow> tidy L L'"
  by (simp add: tidy_refl)

lemma tidy_trans: "tidy L L' \<Longrightarrow> tidy L' L'' \<Longrightarrow> tidy L L''"
  using keeps_trans by (auto simp: tidy_def)

lemma tidy_ctx: "tidy L L' \<Longrightarrow> tidy (X @ L @ Y) (X @ L' @ Y)"
  using keeps_ctx by (auto simp: tidy_def)

lemma tidy_drop_sep: "tidy (X @ Sep k # Y) (X @ Y)"
  by (simp add: tidy_def keeps_drop)

lemma tidy_add_sep: "tidy (X @ Key v # Y) (X @ Sep v # Key v # Y)"
  by (simp add: tidy_def keeps_add_sep)

lemma tidy_move_sep: "tidy (X @ Sep k # Key v # Key w # Y) (X @ Key v # Sep w # Key w # Y)"
proof -
  have "tidy (X @ Sep k # Key v # Key w # Y) (X @ Key v # Key w # Y)" by (rule tidy_drop_sep)
  moreover have "tidy ((X @ [Key v]) @ Key w # Y) ((X @ [Key v]) @ Sep w # Key w # Y)"
    by (rule tidy_add_sep)
  ultimately show ?thesis using tidy_trans by fastforce
qed

lemma tidy_move_sep_left: "tidy (X @ Key v # Sep k # Y) (X @ Sep v # Key v # Y)"
proof -
  have "tidy ((X @ [Key v]) @ Sep k # Y) ((X @ [Key v]) @ Y)" by (rule tidy_drop_sep)
  moreover have "tidy (X @ Key v # Y) (X @ Sep v # Key v # Y)" by (rule tidy_add_sep)
  ultimately show ?thesis using tidy_trans by fastforce
qed


subsection \<open>Splitting keeps the order\<close>

lemma inter_cut:
  assumes "h < length ks" and "length xs = Suc (length ks)"
  shows "inter (take h ks) (take (Suc h) xs) @ Sep (ks ! h) # inter (drop (Suc h) ks) (drop (Suc h) xs)
           = inter ks xs"
proof -
  have "length (take (Suc h) xs) = Suc (length (take h ks))" using assms by simp
  from inter_join [OF this, of "ks ! h" "drop (Suc h) ks" "drop (Suc h) xs"]
  have "inter (take h ks @ ks ! h # drop (Suc h) ks) (take (Suc h) xs @ drop (Suc h) xs)
          = inter (take h ks) (take (Suc h) xs) @ Sep (ks ! h)
              # inter (drop (Suc h) ks) (drop (Suc h) xs)" .
  moreover have "take h ks @ ks ! h # drop (Suc h) ks = ks"
    using assms(1) by (simp add: id_take_nth_drop [symmetric])
  ultimately show ?thesis by simp
qed

lemma t_split_built:
  assumes "length K1 = pos" and "length C1 = pos"
  shows "t_split pos (K1 @ K2) (C1 @ c # C2) =
     (case c of
        Leaf vs \<Rightarrow>
          Node (K1 @ vs ! (length vs div 2) # K2)
            (C1 @ Leaf (take (length vs div 2) vs) # Leaf (drop (length vs div 2) vs) # C2)
      | Node cks ccs \<Rightarrow>
          Node (K1 @ cks ! (length cks div 2) # K2)
            (C1 @ Node (take (length cks div 2) cks) (take (Suc (length cks div 2)) ccs)
               # Node (drop (Suc (length cks div 2)) cks) (drop (Suc (length cks div 2)) ccs) # C2))"
  using assms
  by (simp add: t_split_def ins_at_def Let_def nth_append list_update_append split: tree.splits)

lemma t_split_tidy:
  assumes shape: "length cs = Suc (length ks)" and pos: "pos \<le> length ks"
    and child: "case cs ! pos of Leaf vs \<Rightarrow> vs \<noteq> []
                | Node cks ccs \<Rightarrow> cks \<noteq> [] \<and> length ccs = Suc (length cks)"
  shows "tidy (flat (Node ks cs)) (flat (t_split pos ks cs))"
proof -
  define c where "c = cs ! pos"
  from node_at [OF shape pos] obtain K1 K2 C1 C2 where
    d: "ks = K1 @ K2" "cs = C1 @ c # C2" "length K1 = pos" "length C1 = pos"
      "length C2 = length K2"
    unfolding c_def by metis
  have d4: "length C1 = length K1" using d(3,4) by simp
  define IL where "IL = items_left K1 (map flat C1)"
  define IR where "IR = items_right K2 (map flat C2)"
  have old: "flat (Node ks cs) = IL @ flat c @ IR"
    unfolding d(1,2) IL_def IR_def using d4 d(5) by (rule flat_built)
  show ?thesis
  proof (cases c)
    case (Leaf vs)
    define h where "h = length vs div 2"
    have h: "h < length vs" using child Leaf by (simp add: c_def h_def)
    have "t_split pos ks cs = Node (K1 @ (vs ! h # K2)) (C1 @ Leaf (take h vs) # (Leaf (drop h vs) # C2))"
      unfolding d(1,2) using t_split_built [OF d(3,4), of K2 c C2] Leaf by (simp add: h_def)
    moreover have "flat (Node (K1 @ (vs ! h # K2)) (C1 @ Leaf (take h vs) # (Leaf (drop h vs) # C2)))
        = IL @ flat (Leaf (take h vs)) @ items_right (vs ! h # K2) (map flat (Leaf (drop h vs) # C2))"
      unfolding IL_def using d4 d(5) by (intro flat_built) simp_all
    ultimately have new: "flat (t_split pos ks cs)
        = (IL @ map Key (take h vs)) @ Sep (vs ! h) # Key (vs ! h) # (map Key (drop (Suc h) vs) @ IR)"
      using h by (simp add: IR_def Cons_nth_drop_Suc [symmetric])
    have "vs = take h vs @ vs ! h # drop (Suc h) vs" using h by (rule id_take_nth_drop)
    then have "map Key vs = map Key (take h vs) @ Key (vs ! h) # map Key (drop (Suc h) vs)"
      by (metis list.simps(9) map_append)
    then have old': "flat (Node ks cs)
        = (IL @ map Key (take h vs)) @ Key (vs ! h) # (map Key (drop (Suc h) vs) @ IR)"
      using old Leaf by simp
    show ?thesis unfolding old' new by (rule tidy_add_sep)
  next
    case (Node cks ccs)
    define h where "h = length cks div 2"
    have h: "h < length cks" "length ccs = Suc (length cks)"
      using child Node by (simp_all add: c_def h_def)
    let ?L = "Node (take h cks) (take (Suc h) ccs)"
    let ?R = "Node (drop (Suc h) cks) (drop (Suc h) ccs)"
    have "t_split pos ks cs = Node (K1 @ (cks ! h # K2)) (C1 @ ?L # (?R # C2))"
      unfolding d(1,2) using t_split_built [OF d(3,4), of K2 c C2] Node by (simp add: h_def)
    moreover have "flat (Node (K1 @ (cks ! h # K2)) (C1 @ ?L # (?R # C2)))
        = IL @ flat ?L @ items_right (cks ! h # K2) (map flat (?R # C2))"
      unfolding IL_def using d4 d(5) by (intro flat_built) simp_all
    ultimately have "flat (t_split pos ks cs)
        = IL @ (flat ?L @ Sep (cks ! h) # flat ?R) @ IR"
      by (simp add: IR_def)
    moreover have "flat ?L @ Sep (cks ! h) # flat ?R = flat c"
      using inter_cut [of h cks "map flat ccs"] h Node by (simp add: take_map drop_map)
    ultimately have "flat (t_split pos ks cs) = flat (Node ks cs)" using old by simp
    then show ?thesis by (rule tidy_eq)
  qed
qed


subsection \<open>Rebalancing keeps the order\<close>

lemma flat_built2:
  assumes "length K1 = pos" and "length C1 = pos" and "length C2 = length K2"
  shows "flat (Node (K1 @ k # K2) (C1 @ a # b # C2)) =
     items_left K1 (map flat C1) @ (flat a @ Sep k # flat b) @ items_right K2 (map flat C2)"
  using flat_built [of C1 K1 "b # C2" "k # K2" a] assms by simp

lemma flat_built1:
  assumes "length K1 = pos" and "length C1 = pos" and "length C2 = length K2"
  shows "flat (Node (K1 @ K2) (C1 @ c # C2)) =
     items_left K1 (map flat C1) @ flat c @ items_right K2 (map flat C2)"
  using flat_built [of C1 K1 C2 K2 c] assms by simp

lemma flat_join:
  "length acs = Suc (length aks) \<Longrightarrow>
   flat (Node (aks @ k # bks) (acs @ bcs)) = flat (Node aks acs) @ Sep k # flat (Node bks bcs)"
  using inter_join [of "map flat acs" aks k bks "map flat bcs"] by simp

lemma t_move_from_right_tidy:
  assumes l: "length K1 = pos" "length C1 = pos" "length C2 = length K2"
    and kinds: "(\<exists>va vb. a = Leaf va \<and> b = Leaf vb \<and> 2 \<le> length vb)
      \<or> (\<exists>aks acs bks bcs. a = Node aks acs \<and> b = Node bks bcs
           \<and> length acs = Suc (length aks) \<and> length bcs = Suc (length bks) \<and> bks \<noteq> [])"
  shows "tidy (flat (Node (K1 @ k # K2) (C1 @ a # b # C2)))
           (flat (t_move_from_right pos (K1 @ k # K2) (C1 @ a # b # C2)))"
proof -
  define IL where "IL = items_left K1 (map flat C1)"
  define IR where "IR = items_right K2 (map flat C2)"
  note old = flat_built2 [OF l, of k a b, folded IL_def IR_def]
  from kinds show ?thesis
  proof (elim disjE exE conjE)
    fix va vb
    assume ab: "a = Leaf va" "b = Leaf vb" and len: "2 \<le> length vb"
    then obtain b0 b1 rest where vb: "vb = b0 # b1 # rest"
      by (cases vb; cases "tl vb") auto
    have "t_move_from_right pos (K1 @ k # K2) (C1 @ a # b # C2)
        = Node (K1 @ b1 # K2) (C1 @ Leaf (va @ [b0]) # Leaf (b1 # rest) # C2)"
      using l ab vb by (simp add: t_move_from_right_def nth_append list_update_append)
    then have new: "flat (t_move_from_right pos (K1 @ k # K2) (C1 @ a # b # C2))
        = IL @ (map Key va @ Key b0 # Sep b1 # Key b1 # map Key rest) @ IR"
      using flat_built2 [OF l, of b1 "Leaf (va @ [b0])" "Leaf (b1 # rest)"]
      by (simp add: IL_def IR_def)
    have old': "flat (Node (K1 @ k # K2) (C1 @ a # b # C2))
        = IL @ (map Key va @ Sep k # Key b0 # Key b1 # map Key rest) @ IR"
      using old ab vb by simp
    show ?thesis unfolding old' new by (intro tidy_ctx tidy_move_sep)
  next
    fix aks acs bks bcs
    assume ab: "a = Node aks acs" "b = Node bks bcs"
      and len: "length acs = Suc (length aks)" "length bcs = Suc (length bks)" "bks \<noteq> []"
    obtain k0 bks' where bks: "bks = k0 # bks'" using len(3) by (cases bks) auto
    obtain c0 bcs' where bcs: "bcs = c0 # bcs'" using len(2) by (cases bcs) auto
    have "t_move_from_right pos (K1 @ k # K2) (C1 @ a # b # C2)
        = Node (K1 @ k0 # K2) (C1 @ Node (aks @ [k]) (acs @ [c0]) # Node bks' bcs' # C2)"
      using l ab bks bcs by (simp add: t_move_from_right_def nth_append list_update_append)
    then have new: "flat (t_move_from_right pos (K1 @ k # K2) (C1 @ a # b # C2))
        = IL @ (flat (Node (aks @ [k]) (acs @ [c0])) @ Sep k0 # flat (Node bks' bcs')) @ IR"
      using flat_built2 [OF l, of k0 "Node (aks @ [k]) (acs @ [c0])" "Node bks' bcs'"]
      by (simp add: IL_def IR_def)
    have "flat (Node (aks @ [k]) (acs @ [c0])) = flat a @ Sep k # flat c0"
      using flat_join [OF len(1), of k "[]" "[c0]"] ab by simp
    moreover have "flat b = flat c0 @ Sep k0 # flat (Node bks' bcs')"
      using ab bks bcs by simp
    ultimately have "flat (t_move_from_right pos (K1 @ k # K2) (C1 @ a # b # C2))
        = flat (Node (K1 @ k # K2) (C1 @ a # b # C2))"
      unfolding new old by simp
    then show ?thesis by (rule tidy_eq)
  qed
qed

lemma t_move_from_left_tidy:
  assumes l: "length K1 = pos" "length C1 = pos" "length C2 = length K2"
    and kinds: "(\<exists>va vb. a = Leaf va \<and> b = Leaf vb \<and> vb \<noteq> [])
      \<or> (\<exists>aks acs bks bcs. a = Node aks acs \<and> b = Node bks bcs
           \<and> length acs = Suc (length aks) \<and> length bcs = Suc (length bks) \<and> bks \<noteq> [])"
  shows "tidy (flat (Node (K1 @ k # K2) (C1 @ b # a # C2)))
           (flat (t_move_from_left (Suc pos) (K1 @ k # K2) (C1 @ b # a # C2)))"
proof -
  define IL where "IL = items_left K1 (map flat C1)"
  define IR where "IR = items_right K2 (map flat C2)"
  note old = flat_built2 [OF l, of k b a, folded IL_def IR_def]
  from kinds show ?thesis
  proof (elim disjE exE conjE)
    fix va vb
    assume ab: "a = Leaf va" "b = Leaf vb" and len: "vb \<noteq> []"
    then have vb: "vb = butlast vb @ [last vb]" by simp
    have "t_move_from_left (Suc pos) (K1 @ k # K2) (C1 @ b # a # C2)
        = Node (K1 @ last vb # K2) (C1 @ Leaf (butlast vb) # Leaf (last vb # va) # C2)"
      using l ab by (simp add: t_move_from_left_def nth_append list_update_append)
    then have new: "flat (t_move_from_left (Suc pos) (K1 @ k # K2) (C1 @ b # a # C2))
        = IL @ (map Key (butlast vb) @ Sep (last vb) # Key (last vb) # map Key va) @ IR"
      using flat_built2 [OF l, of "last vb" "Leaf (butlast vb)" "Leaf (last vb # va)"]
      by (simp add: IL_def IR_def)
    have "map Key vb = map Key (butlast vb) @ [Key (last vb)]"
      by (subst vb) simp
    then have old': "flat (Node (K1 @ k # K2) (C1 @ b # a # C2))
        = IL @ (map Key (butlast vb) @ Key (last vb) # Sep k # map Key va) @ IR"
      using old ab by simp
    show ?thesis unfolding old' new by (intro tidy_ctx tidy_move_sep_left)
  next
    fix aks acs bks bcs
    assume ab: "a = Node aks acs" "b = Node bks bcs"
      and len: "length acs = Suc (length aks)" "length bcs = Suc (length bks)" "bks \<noteq> []"
    have bks: "bks = butlast bks @ [last bks]" using len(3) by simp
    have bne: "bcs \<noteq> []" using len(2) by auto
    then have bcs: "bcs = butlast bcs @ [last bcs]" by simp
    have lb: "length (butlast bcs) = Suc (length (butlast bks))" using len by simp
    have "t_move_from_left (Suc pos) (K1 @ k # K2) (C1 @ b # a # C2)
        = Node (K1 @ last bks # K2)
            (C1 @ Node (butlast bks) (butlast bcs) # Node (k # aks) (last bcs # acs) # C2)"
      using l ab by (simp add: t_move_from_left_def nth_append list_update_append)
    then have new: "flat (t_move_from_left (Suc pos) (K1 @ k # K2) (C1 @ b # a # C2))
        = IL @ (flat (Node (butlast bks) (butlast bcs)) @ Sep (last bks)
                  # flat (Node (k # aks) (last bcs # acs))) @ IR"
      using flat_built2 [OF l, of "last bks" "Node (butlast bks) (butlast bcs)"
          "Node (k # aks) (last bcs # acs)"]
      by (simp add: IL_def IR_def)
    have "flat (Node (butlast bks @ last bks # []) (butlast bcs @ [last bcs]))
        = flat (Node (butlast bks) (butlast bcs)) @ Sep (last bks) # flat (Node [] [last bcs])"
      using lb by (rule flat_join)
    then have "flat b = flat (Node (butlast bks) (butlast bcs)) @ Sep (last bks) # flat (last bcs)"
      using ab bks bcs by simp
    moreover have "flat (Node (k # aks) (last bcs # acs)) = flat (last bcs) @ Sep k # flat a"
      using ab len(1) by (cases acs) auto
    ultimately have "flat (t_move_from_left (Suc pos) (K1 @ k # K2) (C1 @ b # a # C2))
        = flat (Node (K1 @ k # K2) (C1 @ b # a # C2))"
      unfolding new old by simp
    then show ?thesis by (rule tidy_eq)
  qed
qed

lemma fused_tidy:
  assumes "(\<exists>va vb. a = Leaf va \<and> b = Leaf vb \<and> f = Leaf (va @ vb))
      \<or> (\<exists>aks acs bks bcs. a = Node aks acs \<and> b = Node bks bcs
           \<and> length acs = Suc (length aks) \<and> f = Node (aks @ [k] @ bks) (acs @ bcs))"
  shows "tidy (IL @ (flat a @ Sep k # flat b) @ IR) (IL @ flat f @ IR)"
  using assms
proof (elim disjE exE conjE)
  fix va vb
  assume "a = Leaf va" "b = Leaf vb" "f = Leaf (va @ vb)"
  then show ?thesis
    using tidy_drop_sep [of "IL @ map Key va" k "map Key vb @ IR"] by simp
next
  fix aks acs bks bcs
  assume "a = Node aks acs" "b = Node bks bcs" "length acs = Suc (length aks)"
    "f = Node (aks @ [k] @ bks) (acs @ bcs)"
  then have "flat f = flat a @ Sep k # flat b"
    using flat_join [of acs aks k bks bcs] by simp
  then show ?thesis by (simp add: tidy_refl)
qed

lemma t_fuse_right_tidy:
  assumes l: "length K1 = pos" "length C1 = pos" "length C2 = length K2"
    and kinds: "(\<exists>va vb. a = Leaf va \<and> b = Leaf vb)
      \<or> (\<exists>aks acs bks bcs. a = Node aks acs \<and> b = Node bks bcs
           \<and> length acs = Suc (length aks))"
  shows "tidy (flat (Node (K1 @ k # K2) (C1 @ a # b # C2)))
           (flat (t_fuse_right pos (K1 @ k # K2) (C1 @ a # b # C2)))"
proof -
  define IL where "IL = items_left K1 (map flat C1)"
  define IR where "IR = items_right K2 (map flat C2)"
  note old = flat_built2 [OF l, of k a b, folded IL_def IR_def]
  define f where "f = (case (a, b) of (Leaf va, Leaf vb) \<Rightarrow> Leaf (va @ vb)
     | (Node aks acs, Node bks bcs) \<Rightarrow> Node (aks @ [k] @ bks) (acs @ bcs))"
  have "t_fuse_right pos (K1 @ k # K2) (C1 @ a # b # C2) = Node (K1 @ K2) (C1 @ f # C2)"
    using l kinds
    by (auto simp: t_fuse_right_def nth_append list_update_append del_at_def f_def)
  then have new: "flat (t_fuse_right pos (K1 @ k # K2) (C1 @ a # b # C2)) = IL @ flat f @ IR"
    using flat_built1 [OF l, of f] by (simp add: IL_def IR_def)
  have "(\<exists>va vb. a = Leaf va \<and> b = Leaf vb \<and> f = Leaf (va @ vb))
      \<or> (\<exists>aks acs bks bcs. a = Node aks acs \<and> b = Node bks bcs
           \<and> length acs = Suc (length aks) \<and> f = Node (aks @ [k] @ bks) (acs @ bcs))"
    using kinds by (auto simp: f_def)
  then show ?thesis unfolding old new by (rule fused_tidy)
qed

lemma t_fuse_left_tidy:
  assumes l: "length K1 = pos" "length C1 = pos"
    and kinds: "(\<exists>va vb. a = Leaf va \<and> b = Leaf vb)
      \<or> (\<exists>aks acs bks bcs. a = Node aks acs \<and> b = Node bks bcs
           \<and> length bcs = Suc (length bks))"
  shows "tidy (flat (Node (K1 @ [k]) (C1 @ [b, a])))
           (flat (t_fuse_left (Suc pos) (K1 @ [k]) (C1 @ [b, a])))"
proof -
  define IL where "IL = items_left K1 (map flat C1)"
  have l3: "length ([] :: 'a tree list) = length ([] :: 'a list)" by simp
  have old: "flat (Node (K1 @ [k]) (C1 @ [b, a])) = IL @ (flat b @ Sep k # flat a) @ []"
    using flat_built2 [OF l l3, of k b a] by (simp add: IL_def)
  define f where "f = (case (a, b) of (Leaf va, Leaf vb) \<Rightarrow> Leaf (vb @ va)
     | (Node aks acs, Node bks bcs) \<Rightarrow> Node (bks @ [k] @ aks) (bcs @ acs))"
  have "left_keys (Suc pos) (K1 @ [k]) = K1"
    using left_keys_last [of "K1 @ [k]"] l(1) by simp
  then have "t_fuse_left (Suc pos) (K1 @ [k]) (C1 @ [b, a]) = Node K1 (C1 @ [f])"
    using l kinds
    by (auto simp: t_fuse_left_def nth_append list_update_append del_at_def f_def)
  then have new: "flat (t_fuse_left (Suc pos) (K1 @ [k]) (C1 @ [b, a])) = IL @ flat f @ []"
    using flat_built1 [OF l l3, of f] by (simp add: IL_def)
  have "(\<exists>va vb. b = Leaf va \<and> a = Leaf vb \<and> f = Leaf (va @ vb))
      \<or> (\<exists>aks acs bks bcs. b = Node aks acs \<and> a = Node bks bcs
           \<and> length acs = Suc (length aks) \<and> f = Node (aks @ [k] @ bks) (acs @ bcs))"
    using kinds by (auto simp: f_def)
  then show ?thesis unfolding old new by (rule fused_tidy)
qed


lemma pair_kinds:
  assumes under: "t_node lo hi N h a" and sib: "t_fill N h b"
  shows "(\<exists>va vb. a = Leaf va \<and> b = Leaf vb \<and> t_size b = length vb)
      \<or> (\<exists>aks acs bks bcs. a = Node aks acs \<and> b = Node bks bcs
           \<and> length acs = Suc (length aks) \<and> length bcs = Suc (length bks)
           \<and> t_size b = length bks)"
  using assms by (cases a; cases b) (auto simp: t_node_def)

lemma t_merge_tidy:
  assumes shape: "length cs = Suc (length ks)" and pos: "pos \<le> length ks"
    and ks: "0 < length ks" and N: "0 < N"
    and under: "t_node (N - 1) (N - 1) N h (cs ! pos)"
    and others: "\<forall>i<length cs. i \<noteq> pos \<longrightarrow> t_fill N h (cs ! i)"
  shows "tidy (flat (Node ks cs)) (flat (t_merge N pos ks cs))"
proof -
  let ?sizes = "\<lambda>i. t_size (cs ! i)"
  have sz: "\<forall>i\<le>length ks. i \<noteq> pos \<longrightarrow> N \<le> ?sizes i"
  proof (intro allI impI)
    fix i
    assume "i \<le> length ks" "i \<noteq> pos"
    then have "t_fill N h (cs ! i)" using others shape by simp
    then show "N \<le> ?sizes i" using t_fill_size by blast
  qed
  have pl: "pos < length cs" using shape pos by simp
  define a where "a = cs ! pos"
  from ks pos sz show ?thesis
  proof (cases rule: decide_consider)
    case mr
    define b where "b = cs ! Suc pos"
    define k where "k = ks ! pos"
    from node_at2 [OF shape mr(2)] obtain K1 K2 C1 C2 where
      d: "ks = K1 @ k # K2" "cs = C1 @ a # b # C2" "length K1 = pos" "length C1 = pos"
        "length C2 = length K2"
      unfolding a_def b_def k_def by metis
    have fb: "t_fill N h b" using others mr(2) shape by (simp add: b_def)
    have big: "N < t_size b" using mr(3) by (simp add: b_def)
    have kinds: "(\<exists>va vb. a = Leaf va \<and> b = Leaf vb \<and> 2 \<le> length vb)
      \<or> (\<exists>aks acs bks bcs. a = Node aks acs \<and> b = Node bks bcs
           \<and> length acs = Suc (length aks) \<and> length bcs = Suc (length bks) \<and> bks \<noteq> [])"
      using pair_kinds [OF under [folded a_def] fb] big N by (elim disjE exE conjE) auto
    have "t_merge N pos ks cs = t_move_from_right pos ks cs"
      using mr(1) by (simp add: t_merge_def)
    then show ?thesis
      unfolding d(1,2) using t_move_from_right_tidy [OF d(3,4,5) kinds] by simp
  next
    case fr
    define b where "b = cs ! Suc pos"
    define k where "k = ks ! pos"
    from node_at2 [OF shape fr(2)] obtain K1 K2 C1 C2 where
      d: "ks = K1 @ k # K2" "cs = C1 @ a # b # C2" "length K1 = pos" "length C1 = pos"
        "length C2 = length K2"
      unfolding a_def b_def k_def by metis
    have "t_fill N h b" using others fr(2) shape by (simp add: b_def)
    from pair_kinds [OF under [folded a_def] this]
    have kinds: "(\<exists>va vb. a = Leaf va \<and> b = Leaf vb)
      \<or> (\<exists>aks acs bks bcs. a = Node aks acs \<and> b = Node bks bcs
           \<and> length acs = Suc (length aks))"
      by (elim disjE exE conjE) auto
    have "t_merge N pos ks cs = t_fuse_right pos ks cs"
      using fr(1) by (simp add: t_merge_def)
    then show ?thesis
      unfolding d(1,2) using t_fuse_right_tidy [OF d(3,4,5) kinds] by simp
  next
    case ml
    obtain i where i: "pos = Suc i" using ml(2) by (cases pos) auto
    have il: "i < length ks" using pos i by simp
    define b where "b = cs ! i"
    define k where "k = ks ! i"
    from node_at2 [OF shape il] obtain K1 K2 C1 C2 where
      d: "ks = K1 @ k # K2" "cs = C1 @ b # a # C2" "length K1 = i" "length C1 = i"
        "length C2 = length K2"
      unfolding a_def b_def k_def i by metis
    have fb: "t_fill N h b" using others il shape i by (simp add: b_def)
    have big: "N < t_size b" using ml(3) i by (simp add: b_def)
    have kinds: "(\<exists>va vb. a = Leaf va \<and> b = Leaf vb \<and> vb \<noteq> [])
      \<or> (\<exists>aks acs bks bcs. a = Node aks acs \<and> b = Node bks bcs
           \<and> length acs = Suc (length aks) \<and> length bcs = Suc (length bks) \<and> bks \<noteq> [])"
      using pair_kinds [OF under [folded a_def] fb] big N by (elim disjE exE conjE) auto
    have "t_merge N pos ks cs = t_move_from_left (Suc i) ks cs"
      using ml(1) i by (simp add: t_merge_def)
    then show ?thesis
      unfolding d(1,2) using t_move_from_left_tidy [OF d(3,4,5) kinds] by simp
  next
    case fl
    obtain i where i: "pos = Suc i" using fl(2) by (cases pos) auto
    have il: "i < length ks" using pos i by simp
    define b where "b = cs ! i"
    define k where "k = ks ! i"
    from node_at2 [OF shape il] obtain K1 K2 C1 C2 where
      d: "ks = K1 @ k # K2" "cs = C1 @ b # a # C2" "length K1 = i" "length C1 = i"
        "length C2 = length K2"
      unfolding a_def b_def k_def i by metis
    have "length ks = Suc (length K1) + length K2" by (simp add: d(1))
    then have e: "K2 = []" "C2 = []" using fl(3) i d(3,5) by simp_all
    have "t_fill N h b" using others il shape i by (simp add: b_def)
    from pair_kinds [OF under [folded a_def] this]
    have kinds: "(\<exists>va vb. a = Leaf va \<and> b = Leaf vb)
      \<or> (\<exists>aks acs bks bcs. a = Node aks acs \<and> b = Node bks bcs
           \<and> length bcs = Suc (length bks))"
      by (elim disjE exE conjE) auto
    have "t_merge N pos ks cs = t_fuse_left (Suc i) ks cs"
      using fl(1) i by (simp add: t_merge_def)
    then show ?thesis
      unfolding d(1,2) e using t_fuse_left_tidy [OF d(3,4) kinds] by simp
  qed
qed

subsection \<open>Finding the child\<close>

lemma items_left_bound:
  assumes "sorted_wrt before (items_left K X @ R)" and "\<forall>k\<in>set K. k \<le> x"
  shows "\<forall>a\<in>set (items_left K X). before a (Key x)"
  using assms
proof (induction K arbitrary: X)
  case Nil
  then show ?case by simp
next
  case (Cons k K)
  show ?case
  proof (cases X)
    case Nil
    then show ?thesis by simp
  next
    case (Cons y Y)
    have s: "sorted_wrt before (y @ Sep k # items_left K Y @ R)"
      using Cons.prems(1) Cons by simp
    then have "\<forall>a\<in>set y. before a (Sep k)" by (auto simp: sorted_wrt_append)
    moreover have kx: "k \<le> x" using Cons.prems(2) by simp
    ultimately have "\<forall>a\<in>set y. before a (Key x)"
      using before_trans [of _ "Sep k" x] by auto
    moreover have "sorted_wrt before (items_left K Y @ R)"
      using s by (simp add: sorted_wrt_append)
    then have "\<forall>a\<in>set (items_left K Y). before a (Key x)"
      using Cons.IH Cons.prems(2) by simp
    ultimately show ?thesis using Cons kx by auto
  qed
qed

lemma items_right_bound:
  assumes "sorted_wrt before (L @ items_right K X)" and "K \<noteq> [] \<longrightarrow> x < hd K"
  shows "\<forall>b\<in>set (items_right K X). x < item_val b"
proof (cases K)
  case Nil
  then show ?thesis by simp
next
  case (Cons k K')
  show ?thesis
  proof (cases X)
    case Nil
    then show ?thesis by simp
  next
    case c: (Cons y Y)
    have "sorted_wrt before (Sep k # y @ items_right K' Y)"
      using assms(1) Cons c by (simp add: sorted_wrt_append)
    then have "\<forall>b\<in>set (y @ items_right K' Y). k \<le> item_val b" by simp
    moreover have xk: "x < k" using assms(2) Cons by simp
    ultimately have "\<forall>b\<in>set (y @ items_right K' Y). x < item_val b"
      by (meson less_le_trans)
    then show ?thesis using Cons c xk by simp
  qed
qed

lemma find_pos_I_app:
  assumes "find_pos_I x (K1 @ K2) = length K1"
  shows "\<forall>k\<in>set K1. k \<le> x" and "K2 \<noteq> [] \<longrightarrow> x < hd K2"
proof -
  note b = find_pos_I_bounds [of x "K1 @ K2", unfolded assms]
  show "\<forall>k\<in>set K1. k \<le> x"
  proof
    fix k assume "k \<in> set K1"
    then obtain i where "i < length K1" "K1 ! i = k" by (auto simp: in_set_conv_nth)
    then show "k \<le> x" using b by (auto simp: nth_append)
  qed
  show "K2 \<noteq> [] \<longrightarrow> x < hd K2"
    using b by (cases K2) (auto simp: nth_append)
qed

text \<open>The child that \<open>find_pos\<close> selects is the only one that can hold the key.\<close>

lemma routing:
  assumes pos: "find_pos_I x (K1 @ K2) = length K1"
    and s: "sorted_wrt before (A @ (items_left K1 X1 @ M @ items_right K2 X2) @ B)"
  shows "\<forall>a\<in>set (items_left K1 X1). before a (Key x)"
    and "\<forall>b\<in>set (items_right K2 X2). x < item_val b"
    and "x \<in> set (keys_of (items_left K1 X1 @ M @ items_right K2 X2)) \<longleftrightarrow> x \<in> set (keys_of M)"
proof -
  have "sorted_wrt before (items_left K1 X1 @ (M @ items_right K2 X2))"
    using s by (auto simp: sorted_wrt_append)
  from items_left_bound [OF this find_pos_I_app(1) [OF pos]]
  show l: "\<forall>a\<in>set (items_left K1 X1). before a (Key x)" .
  have "sorted_wrt before ((items_left K1 X1 @ M) @ items_right K2 X2)"
    using s by (auto simp: sorted_wrt_append)
  from items_right_bound [OF this find_pos_I_app(2) [OF pos]]
  show r: "\<forall>b\<in>set (items_right K2 X2). x < item_val b" .
  have "Key x \<notin> set (items_left K1 X1)" using l by fastforce
  moreover have "Key x \<notin> set (items_right K2 X2)" using r by fastforce
  ultimately show "x \<in> set (keys_of (items_left K1 X1 @ M @ items_right K2 X2))
      \<longleftrightarrow> x \<in> set (keys_of M)"
    by (simp add: set_keys_of)
qed

lemma find_pos_I_sorted:
  assumes "sorted_wrt (<) vs" and "x \<notin> set vs"
  shows "\<forall>v\<in>set (take (find_pos_I x vs) vs). v < x"
    and "\<forall>v\<in>set (drop (find_pos_I x vs) vs). x < v"
  using assms by (induction vs) auto

lemma sorted_insert_key:
  assumes "sorted_wrt before (X @ Y)" and "\<forall>a\<in>set X. before a (Key x)"
    and "\<forall>b\<in>set Y. x < item_val b"
  shows "sorted_wrt before (X @ Key x # Y)"
  using assms by (auto simp: sorted_wrt_append)

lemma leaf_sorted: "sorted_wrt before (A @ map Key vs @ B) \<Longrightarrow> sorted_wrt (<) vs"
  by (simp add: sorted_wrt_append sorted_map_Key)


subsection \<open>Insertion keeps the order\<close>

lemma t_add_order:
  assumes "t_node lo (2 * N) N h t" and "0 < N"
    and "sorted_wrt before (A @ flat t @ B)"
    and "\<forall>a\<in>set A. before a (Key x)" and "\<forall>b\<in>set B. x < item_val b"
  shows "case t_add N x t of (r, t') \<Rightarrow>
           (x \<in> set (t_keys t) \<longrightarrow> r = EXISTS)
           \<and> (x \<notin> set (t_keys t) \<longrightarrow> r \<noteq> EXISTS \<and> sorted_wrt before (A @ flat t' @ B)
                 \<and> (\<exists>K1 K2. t_keys t = K1 @ K2 \<and> t_keys t' = K1 @ x # K2))"
  using assms
proof (induction N x t arbitrary: lo h A B rule: t_add.induct)
  case (1 N x vs)
  have srt: "sorted_wrt (<) vs" using "1.prems"(3) leaf_sorted [of A vs B] by simp
  show ?case
  proof (cases "x \<in> set vs")
    case True
    then obtain i where "i < length vs" "vs ! i = x" by (auto simp: in_set_conv_nth)
    then have "find_pos_E vs x = int i" using find_pos_E_present [OF srt] by auto
    then show ?thesis using True by simp
  next
    case False
    define p where "p = find_pos_I x vs"
    have f: "find_pos_E vs x = - 1" using False by (rule find_pos_E_absent)
    note b = find_pos_I_sorted [OF srt False, folded p_def]
    have "map Key vs = map Key (take p vs) @ map Key (drop p vs)"
      by (metis append_take_drop_id map_append)
    then have "sorted_wrt before ((A @ map Key (take p vs)) @ (map Key (drop p vs) @ B))"
      using "1.prems"(3) by simp
    moreover have "\<forall>a\<in>set (A @ map Key (take p vs)). before a (Key x)"
      using "1.prems"(4) b(1) by auto
    moreover have "\<forall>b\<in>set (map Key (drop p vs) @ B). x < item_val b"
      using "1.prems"(5) b(2) by auto
    ultimately have "sorted_wrt before ((A @ map Key (take p vs)) @ Key x # (map Key (drop p vs) @ B))"
      by (rule sorted_insert_key)
    then have "sorted_wrt before (A @ flat (Leaf (ins_at p x vs)) @ B)"
      by (simp add: ins_at_def)
    moreover have "\<exists>K1 K2. vs = K1 @ K2 \<and> ins_at p x vs = K1 @ x # K2"
      by (intro exI [of _ "take p vs"] exI [of _ "drop p vs"]) (simp add: ins_at_def)
    ultimately show ?thesis
      using False f unfolding p_def by simp
  qed
next
  case (2 N x ks cs)
  define pos where "pos = find_pos_I x ks"
  have shape: "length cs = Suc (length ks)" and ks: "lo \<le> length ks" "length ks \<le> 2 * N"
    and sub: "\<forall>c\<in>set cs. t_fill N (h - 1) c" and h: "0 < h"
    using "2.prems"(1) by (simp_all add: t_node_def)
  have pos: "pos \<le> length ks" "pos < length cs"
    using find_pos_I_le [of x ks] shape by (simp_all add: pos_def)
  define c where "c = cs ! pos"
  obtain r c' where rec: "t_add N x c = (r, c')" by (cases "t_add N x c")
  have child: "t_node N (2 * N) N (h - 1) c"
    using sub pos by (simp add: t_fill_t_node [symmetric] c_def)
  from node_at [OF shape pos(1)] obtain K1 K2 C1 C2 where
    d: "ks = K1 @ K2" "cs = C1 @ c # C2" "length K1 = pos" "length C1 = pos"
      "length C2 = length K2"
    unfolding c_def by metis
  define IL where "IL = items_left K1 (map flat C1)"
  define IR where "IR = items_right K2 (map flat C2)"
  have fl: "flat (Node ks (C1 @ y # C2)) = IL @ flat y @ IR" for y
    unfolding d(1) IL_def IR_def using d(3,4,5) by (rule flat_built1)
  have old: "flat (Node ks cs) = IL @ flat c @ IR" using fl [of c] d(2) by simp
  have up: "cs[pos := y] = C1 @ y # C2" for y
    using d(2,4) by (simp add: list_update_append)
  have fp: "find_pos_I x (K1 @ K2) = length K1" using d(1,3) by (simp add: pos_def)
  have s: "sorted_wrt before (A @ (IL @ flat c @ IR) @ B)" using "2.prems"(3) old by simp
  note rt = routing [OF fp s [unfolded IL_def IR_def], folded IL_def IR_def]
  have mem: "x \<in> set (t_keys (Node ks cs)) \<longleftrightarrow> x \<in> set (t_keys c)"
    using rt(3) old by (simp add: t_keys_flat [symmetric] del: t_keys.simps flat.simps)
  have s': "sorted_wrt before ((A @ IL) @ flat c @ (IR @ B))" using s by simp
  have bl: "\<forall>a\<in>set (A @ IL). before a (Key x)" using "2.prems"(4) rt(1) by auto
  have br: "\<forall>b\<in>set (IR @ B). x < item_val b" using "2.prems"(5) rt(2) by auto
  have nshape: "\<not> length cs \<noteq> Suc (length ks)" using shape by simp
  from "2.IH" [OF nshape child [unfolded c_def pos_def] "2.prems"(2)
      s' [unfolded c_def pos_def] bl br] rec
  have ih: "x \<in> set (t_keys c) \<Longrightarrow> r = EXISTS"
    "x \<notin> set (t_keys c) \<Longrightarrow> r \<noteq> EXISTS"
    "x \<notin> set (t_keys c) \<Longrightarrow> sorted_wrt before ((A @ IL) @ flat c' @ (IR @ B))"
    "x \<notin> set (t_keys c) \<Longrightarrow> \<exists>K1 K2. t_keys c = K1 @ K2 \<and> t_keys c' = K1 @ x # K2"
    by (auto simp: c_def pos_def)
  have tadd: "t_add N x (Node ks cs) =
      (if r = SPLIT then
         (let p = t_split pos ks (cs[pos := c'])
          in (if t_size p \<le> max_size N then SUCCESS_I else SPLIT, p))
       else (r, Node ks (cs[pos := c'])))"
    using shape rec by (simp add: pos_def [symmetric] c_def)
  show ?case
  proof (cases "x \<in> set (t_keys (Node ks cs))")
    case True
    then have "r = EXISTS" using mem ih(1) by simp
    then show ?thesis using True tadd by (simp del: t_add.simps t_keys.simps)
  next
    case False
    then have nc: "x \<notin> set (t_keys c)" using mem by simp
    obtain L1 L2 where L: "t_keys c = L1 @ L2" "t_keys c' = L1 @ x # L2"
      using ih(4) [OF nc] by blast
    define t1 where "t1 = Node ks (cs[pos := c'])"
    have f1: "flat t1 = IL @ flat c' @ IR" unfolding t1_def up by (rule fl)
    have s1: "sorted_wrt before (A @ flat t1 @ B)" using ih(3) [OF nc] f1 by simp
    have k0: "t_keys (Node ks cs) = (keys_of IL @ L1) @ (L2 @ keys_of IR)"
      using old L(1) t_keys_flat [of "Node ks cs"] t_keys_flat [of c] by simp
    have k1: "t_keys t1 = (keys_of IL @ L1) @ x # (L2 @ keys_of IR)"
      using f1 L(2) t_keys_flat [of t1] t_keys_flat [of c'] by simp
    have fin: ?thesis
      if "t_add N x (Node ks cs) = (r', t')" "r' \<noteq> EXISTS" "tidy (flat t1) (flat t')" for r' t'
    proof -
      have "sorted_wrt before (A @ flat t' @ B)"
        using that(3) s1 by (auto simp: tidy_def keeps_def)
      moreover have "t_keys t' = t_keys t1"
        using that(3) t_keys_flat [of t'] t_keys_flat [of t1] by (simp add: tidy_def)
      then have "\<exists>K1 K2. t_keys (Node ks cs) = K1 @ K2 \<and> t_keys t' = K1 @ x # K2"
        using k0 k1 by metis
      ultimately show ?thesis
        using that(1,2) False by (simp del: t_add.simps t_keys.simps flat.simps)
    qed
    show ?thesis
    proof (cases "r = SPLIT")
      case nsp: False
      have "t_add N x (Node ks cs) = (r, t1)" using tadd nsp by (simp add: t1_def)
      then show ?thesis using ih(2) [OF nc] tidy_refl by (rule fin)
    next
      case sp: True
      define t2 where "t2 = t_split pos ks (cs[pos := c'])"
      have over: "t_node (2 * N + 1) (2 * N + 1) N (h - 1) c'"
        using t_add_fill [OF child "2.prems"(2), of x] rec sp by simp
      then have "case cs[pos := c'] ! pos of Leaf vs \<Rightarrow> vs \<noteq> []
                | Node cks ccs \<Rightarrow> cks \<noteq> [] \<and> length ccs = Suc (length cks)"
        using pos by (auto simp: t_node_def split: tree.splits)
      moreover have "length (cs[pos := c']) = Suc (length ks)" using shape by simp
      ultimately have "tidy (flat (Node ks (cs[pos := c']))) (flat (t_split pos ks (cs[pos := c'])))"
        using pos(1) by (intro t_split_tidy)
      then have td: "tidy (flat t1) (flat t2)" by (simp add: t1_def t2_def)
      have "t_add N x (Node ks cs)
          = (if t_size t2 \<le> max_size N then SUCCESS_I else SPLIT, t2)"
        using tadd sp by (simp add: t2_def Let_def)
      then show ?thesis using _ td by (rule fin) simp
    qed
  qed
qed


subsection \<open>Removal keeps the order\<close>

lemma t_remove_order:
  assumes "t_node lo (2 * N) N h t" and "lo \<le> N" and "0 < N"
    and "is_leaf t \<or> 0 < t_size t"
    and "sorted_wrt before (A @ flat t @ B)"
  shows "case t_remove N x t of (r, t') \<Rightarrow>
           (x \<notin> set (t_keys t) \<longrightarrow> r = NOT_EXISTENT)
           \<and> (x \<in> set (t_keys t) \<longrightarrow> r \<noteq> NOT_EXISTENT \<and> sorted_wrt before (A @ flat t' @ B)
                 \<and> (\<exists>K1 K2. t_keys t = K1 @ x # K2 \<and> t_keys t' = K1 @ K2))"
  using assms
proof (induction N x t arbitrary: lo h A B rule: t_remove.induct)
  case (1 N x vs)
  have srt: "sorted_wrt (<) vs" using "1.prems"(5) leaf_sorted [of A vs B] by simp
  show ?case
  proof (cases "x \<in> set vs")
    case False
    then have "find_pos_E vs x = - 1" by (rule find_pos_E_absent)
    then show ?thesis using False by simp
  next
    case True
    then obtain i where i: "i < length vs" "vs ! i = x" by (auto simp: in_set_conv_nth)
    then have f: "find_pos_E vs x = int i" using find_pos_E_present [OF srt] by auto
    have vs: "vs = take i vs @ x # drop (Suc i) vs"
      using i id_take_nth_drop [of i vs] by simp
    then have "map Key vs = map Key (take i vs) @ Key x # map Key (drop (Suc i) vs)"
      by (metis list.simps(9) map_append)
    then have "sorted_wrt before ((A @ map Key (take i vs)) @ Key x # (map Key (drop (Suc i) vs) @ B))"
      using "1.prems"(5) by simp
    then have "sorted_wrt before ((A @ map Key (take i vs)) @ (map Key (drop (Suc i) vs) @ B))"
      using keeps_drop [of "A @ map Key (take i vs)" "Key x" "map Key (drop (Suc i) vs) @ B"]
      unfolding keeps_def by (metis append_Nil append_Nil2)
    then have "sorted_wrt before (A @ flat (Leaf (del_at i vs)) @ B)"
      by (simp add: del_at_def)
    moreover have "\<exists>K1 K2. vs = K1 @ x # K2 \<and> del_at i vs = K1 @ K2"
      using vs by (intro exI [of _ "take i vs"] exI [of _ "drop (Suc i) vs"]) (simp add: del_at_def)
    ultimately show ?thesis
      using True f by simp
  qed
next
  case (2 N x ks cs)
  define pos where "pos = find_pos_I x ks"
  have shape: "length cs = Suc (length ks)" and ks: "lo \<le> length ks" "length ks \<le> 2 * N"
    and sub: "\<forall>c\<in>set cs. t_fill N (h - 1) c" and h: "0 < h"
    using "2.prems"(1) by (simp_all add: t_node_def)
  have ks0: "0 < length ks" using "2.prems"(4) by simp
  have pos: "pos \<le> length ks" "pos < length cs"
    using find_pos_I_le [of x ks] shape by (simp_all add: pos_def)
  define c where "c = cs ! pos"
  obtain r c' where rec: "t_remove N x c = (r, c')" by (cases "t_remove N x c")
  have cf: "t_fill N (h - 1) c" using sub pos by (simp add: c_def)
  then have child: "t_node N (2 * N) N (h - 1) c"
    by (simp add: t_fill_t_node [symmetric])
  have csize: "is_leaf c \<or> 0 < t_size c"
    using t_fill_size [OF cf] "2.prems"(3) by simp
  from node_at [OF shape pos(1)] obtain K1 K2 C1 C2 where
    d: "ks = K1 @ K2" "cs = C1 @ c # C2" "length K1 = pos" "length C1 = pos"
      "length C2 = length K2"
    unfolding c_def by metis
  define IL where "IL = items_left K1 (map flat C1)"
  define IR where "IR = items_right K2 (map flat C2)"
  have fl: "flat (Node ks (C1 @ y # C2)) = IL @ flat y @ IR" for y
    unfolding d(1) IL_def IR_def using d(3,4,5) by (rule flat_built1)
  have old: "flat (Node ks cs) = IL @ flat c @ IR" using fl [of c] d(2) by simp
  have up: "cs[pos := y] = C1 @ y # C2" for y
    using d(2,4) by (simp add: list_update_append)
  have fp: "find_pos_I x (K1 @ K2) = length K1" using d(1,3) by (simp add: pos_def)
  have s: "sorted_wrt before (A @ (IL @ flat c @ IR) @ B)" using "2.prems"(5) old by simp
  note rt = routing [OF fp s [unfolded IL_def IR_def], folded IL_def IR_def]
  have mem: "x \<in> set (t_keys (Node ks cs)) \<longleftrightarrow> x \<in> set (t_keys c)"
    using rt(3) old by (simp add: t_keys_flat [symmetric] del: t_keys.simps flat.simps)
  have s': "sorted_wrt before ((A @ IL) @ flat c @ (IR @ B))" using s by simp
  have nshape: "\<not> length cs \<noteq> Suc (length ks)" using shape by simp
  from "2.IH" [OF nshape child [unfolded c_def pos_def] order_refl "2.prems"(3)
      csize [unfolded c_def pos_def] s' [unfolded c_def pos_def]] rec
  have ih: "x \<notin> set (t_keys c) \<Longrightarrow> r = NOT_EXISTENT"
    "x \<in> set (t_keys c) \<Longrightarrow> r \<noteq> NOT_EXISTENT"
    "x \<in> set (t_keys c) \<Longrightarrow> sorted_wrt before ((A @ IL) @ flat c' @ (IR @ B))"
    "x \<in> set (t_keys c) \<Longrightarrow> \<exists>K1 K2. t_keys c = K1 @ x # K2 \<and> t_keys c' = K1 @ K2"
    by (auto simp: c_def pos_def)
  have trem: "t_remove N x (Node ks cs) =
      (if r = MERGE then
         (let p = t_merge N pos ks (cs[pos := c'])
          in (if min_size N \<le> t_size p then SUCCESS_E else MERGE, p))
       else (r, Node ks (cs[pos := c'])))"
    using shape rec by (simp add: pos_def [symmetric] c_def)
  show ?case
  proof (cases "x \<in> set (t_keys (Node ks cs))")
    case False
    then have "r = NOT_EXISTENT" using mem ih(1) by simp
    then show ?thesis using False trem by (simp del: t_remove.simps t_keys.simps)
  next
    case True
    then have nc: "x \<in> set (t_keys c)" using mem by simp
    obtain L1 L2 where L: "t_keys c = L1 @ x # L2" "t_keys c' = L1 @ L2"
      using ih(4) [OF nc] by blast
    define t1 where "t1 = Node ks (cs[pos := c'])"
    have f1: "flat t1 = IL @ flat c' @ IR" unfolding t1_def up by (rule fl)
    have s1: "sorted_wrt before (A @ flat t1 @ B)" using ih(3) [OF nc] f1 by simp
    have k0: "t_keys (Node ks cs) = (keys_of IL @ L1) @ x # (L2 @ keys_of IR)"
      using old L(1) t_keys_flat [of "Node ks cs"] t_keys_flat [of c] by simp
    have k1: "t_keys t1 = (keys_of IL @ L1) @ (L2 @ keys_of IR)"
      using f1 L(2) t_keys_flat [of t1] t_keys_flat [of c'] by simp
    have fin: ?thesis
      if "t_remove N x (Node ks cs) = (r', t')" "r' \<noteq> NOT_EXISTENT" "tidy (flat t1) (flat t')"
      for r' t'
    proof -
      have "sorted_wrt before (A @ flat t' @ B)"
        using that(3) s1 by (auto simp: tidy_def keeps_def)
      moreover have "t_keys t' = t_keys t1"
        using that(3) t_keys_flat [of t'] t_keys_flat [of t1] by (simp add: tidy_def)
      then have "\<exists>K1 K2. t_keys (Node ks cs) = K1 @ x # K2 \<and> t_keys t' = K1 @ K2"
        using k0 k1 by metis
      ultimately show ?thesis
        using that(1,2) True by (simp del: t_remove.simps t_keys.simps flat.simps)
    qed
    show ?thesis
    proof (cases "r = MERGE")
      case nm: False
      have "t_remove N x (Node ks cs) = (r, t1)" using trem nm by (simp add: t1_def)
      then show ?thesis using ih(2) [OF nc] tidy_refl by (rule fin)
    next
      case mg: True
      define t2 where "t2 = t_merge N pos ks (cs[pos := c'])"
      have "t_node (N - 1) (N - 1) N (h - 1) c'"
        using t_remove_fill [OF child order_refl "2.prems"(3) csize, of x] rec mg by simp
      then have under: "t_node (N - 1) (N - 1) N (h - 1) (cs[pos := c'] ! pos)"
        using pos by simp
      have others: "\<forall>i<length (cs[pos := c']). i \<noteq> pos \<longrightarrow> t_fill N (h - 1) (cs[pos := c'] ! i)"
        using sub by (simp add: all_set_conv_all_nth)
      have "length (cs[pos := c']) = Suc (length ks)" using shape by simp
      from t_merge_tidy [OF this pos(1) ks0 "2.prems"(3) under others]
      have td: "tidy (flat t1) (flat t2)" by (simp add: t1_def t2_def)
      have "t_remove N x (Node ks cs)
          = (if min_size N \<le> t_size t2 then SUCCESS_E else MERGE, t2)"
        using trem mg by (simp add: t2_def Let_def)
      then show ?thesis using _ td by (rule fin) simp
    qed
  qed
qed

section \<open>Operations that leave the tree alone\<close>

text \<open>\<open>add_elem\<close> that reports \<open>EXISTS\<close> and \<open>remove_elem\<close> that reports \<open>NOT_EXISTENT\<close> have
  written nothing.\<close>

lemma add_elem_EXISTS:
  "add_elem N x t m = Some (EXISTS, t', m') \<Longrightarrow> t' = t \<and> m' = m"
proof (induction N x t m arbitrary: t' m' rule: add_elem.induct)
  case (1 N elem a m)
  then show ?case
    by (auto simp: add_elem_E_def split: option.splits if_splits bind_splits)
next
  case (2 N elem ks cs m)
  have shape: "\<not> length cs \<noteq> Suc (length ks)"
    using "2.prems" by (auto split: if_splits)
  obtain r c' m1 where rec: "add_elem N elem (cs ! find_pos_I elem ks) m = Some (r, c', m1)"
    using "2.prems" shape by (auto split: option.splits)
  have r: "r = EXISTS" and res: "t' = Internal ks (cs[find_pos_I elem ks := c'])" "m' = m1"
    using "2.prems" shape rec by (auto split: option.splits if_splits)
  from "2.IH" [OF shape rec [unfolded r]] have "c' = cs ! find_pos_I elem ks" "m1 = m" by simp_all
  then show ?case using res by simp
qed

lemma remove_elem_NOT_EXISTENT:
  "remove_elem N x t m = Some (NOT_EXISTENT, t', m') \<Longrightarrow> t' = t \<and> m' = m"
proof (induction N x t m arbitrary: t' m' rule: remove_elem.induct)
  case (1 N elem a m)
  then show ?case
    by (auto simp: remove_elem_E_def Let_def split: option.splits if_splits bind_splits)
next
  case (2 N elem ks cs m)
  have shape: "\<not> length cs \<noteq> Suc (length ks)"
    using "2.prems" by (auto split: if_splits)
  obtain r c' m1 where rec: "remove_elem N elem (cs ! find_pos_I elem ks) m = Some (r, c', m1)"
    using "2.prems" shape by (auto split: option.splits)
  have r: "r = NOT_EXISTENT" and res: "t' = Internal ks (cs[find_pos_I elem ks := c'])" "m' = m1"
    using "2.prems" shape rec by (auto split: option.splits if_splits)
  from "2.IH" [OF shape rec [unfolded r]] have "c' = cs ! find_pos_I elem ks" "m1 = m" by simp_all
  then show ?case using res by simp
qed

section \<open>Lookup in a filled tree\<close>

text \<open>\<open>find\<close> returns on a tree whose nodes have one child more than keys and whose leaves are
  live.\<close>

lemma find_Node_fill:
  assumes "t_fill N h (tree_of m t)" and "\<forall>a\<in>set (leaves t). heap m a \<noteq> None"
  shows "\<exists>it. find_Node x t m = Some it"
  using assms
proof (induction x t m arbitrary: h rule: find_Node.induct)
  case (1 key a m)
  then show ?case using find_E_Some [of m a] by auto
next
  case (2 key ks cs m)
  have shape: "length cs = Suc (length ks)" using "2.prems"(1) by simp
  then have p: "find_pos_I key ks < length cs" using find_pos_I_le [of key ks] by simp
  then have c: "cs ! find_pos_I key ks \<in> set cs" by simp
  have "t_fill N (h - 1) (tree_of m (cs ! find_pos_I key ks))"
    using "2.prems"(1) c by simp
  moreover have "\<forall>a\<in>set (leaves (cs ! find_pos_I key ks)). heap m a \<noteq> None"
    using "2.prems"(2) c by auto
  ultimately show ?case using "2.IH" shape by simp
qed

lemma find_Node_node:
  assumes "t_node lo hi N h (tree_of m t)" and "\<forall>a\<in>set (leaves t). heap m a \<noteq> None"
  shows "\<exists>it. find_Node x t m = Some it"
proof (cases t)
  case (External a)
  then show ?thesis using assms(2) find_E_Some [of m a] by auto
next
  case (Internal ks cs)
  have shape: "length cs = Suc (length ks)" using assms(1) Internal by (simp add: t_node_def)
  then have p: "find_pos_I x ks < length cs" using find_pos_I_le [of x ks] by simp
  then have c: "cs ! find_pos_I x ks \<in> set cs" by simp
  have "t_fill N (h - 1) (tree_of m (cs ! find_pos_I x ks))"
    using assms(1) Internal c by (simp add: t_node_def)
  moreover have "\<forall>a\<in>set (leaves (cs ! find_pos_I x ks)). heap m a \<noteq> None"
    using assms(2) Internal c by auto
  ultimately show ?thesis using find_Node_fill Internal shape by simp
qed

section \<open>Iteration over the leaves\<close>

text \<open>Along a chain of leaves that hold keys, the loop from the first leaf yields the keys of all
  of them.\<close>

lemma t_keys_leaves: "t_keys (tree_of m t) = concat (map (vals_at m) (leaves t))"
proof (induction t)
  case (External a)
  then show ?case by simp
next
  case (Internal ks cs)
  then have "concat (map (t_keys \<circ> tree_of m) cs)
      = concat (map (vals_at m) (concat (map leaves cs)))"
    by (induction cs) auto
  then show ?case by simp
qed

lemma walk_chain:
  assumes "chain m p as None" and "\<forall>a\<in>set as. vals_at m a \<noteq> []" and "as \<noteq> []"
  shows "walk m \<lparr>current_node = Some (hd as), current_element = 0\<rparr> Iterator_end
           = Some (concat (map (vals_at m) as))"
  using assms
proof (induction as arbitrary: p)
  case Nil
  then show ?case by simp
next
  case (Cons a as)
  obtain l where l: "heap m a = Some l" "right_neighbour l = first_or None as"
    and ch: "chain m (Some a) as None"
    using Cons.prems(1) by auto
  have va: "vals_at m a = vals l" using l(1) by (simp add: vals_at_def)
  then have ne: "0 < length (vals l)" using Cons.prems(2) by simp
  note w = walk_leaf [OF l(1) ne]
  show ?case
  proof (cases as)
    case Nil
    then have "right_neighbour l = None" using l(2) by simp
    then show ?thesis using w Nil va by (simp add: Iterator_end_def [symmetric])
  next
    case (Cons b bs)
    then have r: "right_neighbour l = Some (hd as)" using l(2) by simp
    have "walk m \<lparr>current_node = Some (hd as), current_element = 0\<rparr> Iterator_end
           = Some (concat (map (vals_at m) as))"
      using Cons.IH [OF ch] Cons.prems(2) Cons by simp
    then show ?thesis using w r va by simp
  qed
qed

lemma fill_leaves_nonempty:
  "t_fill N h (tree_of m t) \<Longrightarrow> 0 < N \<Longrightarrow> \<forall>a\<in>set (leaves t). vals_at m a \<noteq> []"
proof (induction t arbitrary: h)
  case (External a)
  then show ?case by auto
next
  case (Internal ks cs)
  then show ?case by fastforce
qed

lemma t_node_depth: "t_node lo hi N h t \<Longrightarrow> depth t = h"
proof -
  have fill: "t_fill N h t \<Longrightarrow> depth t = h" for h and t :: "'a tree"
  proof (induction t arbitrary: h)
    case (Leaf vs)
    then show ?case by simp
  next
    case (Node ks cs)
    then obtain c cs' where cs: "cs = c # cs'" by (cases cs) auto
    then have "t_fill N (h - 1) c" using Node.prems by simp
    then have "depth c = h - 1" using Node.IH cs by simp
    then show ?case using cs Node.prems by simp
  qed
  assume n: "t_node lo hi N h t"
  show ?thesis
  proof (cases t)
    case (Leaf vs)
    then show ?thesis using n by (simp add: t_node_def)
  next
    case (Node ks cs)
    then obtain c cs' where cs: "cs = c # cs'" using n by (cases cs) (auto simp: t_node_def)
    then have "t_fill N (h - 1) c" using n Node by (simp add: t_node_def)
    then have "depth c = h - 1" by (rule fill)
    then show ?thesis using cs Node n by (simp add: t_node_def)
  qed
qed

section \<open>The public operations keep the invariant\<close>

text \<open>The constructor and \<open>clear\<close> establish the invariant; \<open>insert\<close> and \<open>erase\<close> return and
  keep it, and change the keys held as a set would.\<close>

lemma sorted_keys_of: "sorted_wrt before L \<Longrightarrow> sorted_wrt (<) (keys_of L)"
proof (induction L rule: keys_of.induct)
  case 1
  then show ?case by simp
next
  case (2 v xs)
  then show ?case by (auto simp: set_keys_of)
next
  case (3 v xs)
  then show ?case by simp
qed

lemma t_ord_sorted: "t_ord t \<Longrightarrow> sorted_wrt (<) (t_keys t)"
  using sorted_keys_of [of "flat t"] by (simp add: t_ord_def t_keys_flat)

lemma root_fill_iff:
  "root_fill N t \<longleftrightarrow> t_node 0 (2 * N) N (depth t) t \<and> (is_leaf t \<or> 0 < t_size t)"
  by (cases t) (auto simp: root_fill_def)

lemma root_node:
  assumes "root_fill N t"
  shows "t_node (if is_leaf t then 0 else 1) (2 * N) N (depth t) t"
proof -
  have n: "t_node 0 (2 * N) N (depth t) t" and z: "is_leaf t \<or> 0 < t_size t"
    using assms by (simp_all add: root_fill_iff)
  have "(if is_leaf t then 0 else 1) \<le> t_size t" using z by auto
  moreover have "t_size t \<le> 2 * N" using t_node_size [OF n] by simp
  ultimately show ?thesis by (rule t_node_weaken [OF n])
qed

lemma root_fillI:
  assumes n: "t_node lo hi N h t" and hi: "hi \<le> 2 * N" and z: "is_leaf t \<or> 0 < t_size t"
  shows "root_fill N t"
proof -
  have "t_size t \<le> 2 * N" using t_node_size [OF n] hi by simp
  then have "t_node 0 (2 * N) N h t" using n by (intro t_node_weaken [OF n]) simp_all
  then show ?thesis using z t_node_depth [OF n] by (simp add: root_fill_iff)
qed

lemma elements_invariant:
  assumes inv: "invariant N s m" and N: "0 < N"
  shows "elements s m = Some (t_keys (tree_of m (root s)))"
proof (cases "sz s = 0")
  case True
  then have "t_keys (tree_of m (root s)) = []" using inv by (simp add: invariant_def)
  then show ?thesis using True by (simp add: elements_def begin_S_def)
next
  case False
  define T where "T = tree_of m (root s)"
  have rf: "root_fill N T" and len: "sz s = length (t_keys T)"
    and ok: "heap_ok m (leaves (root s))" and ll: "left_leaf s = hd (leaves (root s))"
    using inv by (simp_all add: invariant_def T_def)
  have node: "t_node 0 (2 * N) N (depth T) T" using rf by (simp add: root_fill_iff)
  have ne: "leaves (root s) \<noteq> []" using node leaves_nonempty unfolding T_def by blast
  have full: "\<forall>a\<in>set (leaves (root s)). vals_at m a \<noteq> []"
  proof (cases "root s")
    case (External a)
    then show ?thesis using len False by (simp add: T_def)
  next
    case (Internal ks cs)
    have "\<forall>c\<in>set cs. t_fill N (depth T - 1) (tree_of m c)"
      using node Internal by (simp add: T_def t_node_def)
    then have "\<forall>c\<in>set cs. \<forall>a\<in>set (leaves c). vals_at m a \<noteq> []"
      using fill_leaves_nonempty N by blast
    then show ?thesis using Internal by simp
  qed
  have "chain m None (leaves (root s)) None" using ok by (simp add: heap_ok_def)
  from walk_chain [OF this full ne]
  show ?thesis
    using False ll by (simp add: elements_def begin_S_def t_keys_leaves)
qed

lemma flat_single: "flat (Node [] [t]) = flat t"
  by simp

lemma insert_S_invariant:
  assumes inv: "invariant N s m" and N: "0 < N"
  shows "\<exists>it b s' m'. insert_S N k s m = Some ((it, b), s', m') \<and> invariant N s' m'
     \<and> b = (k \<notin> set (t_keys (tree_of m (root s))))
     \<and> (\<not> b \<longrightarrow> s' = s \<and> m' = m)
     \<and> (b \<longrightarrow> (\<exists>K1 K2. t_keys (tree_of m (root s)) = K1 @ K2
                 \<and> t_keys (tree_of m' (root s')) = K1 @ k # K2))"
proof -
  define T where "T = tree_of m (root s)"
  define lo :: nat where "lo = (if is_leaf T then 0 else 1)"
  define h where "h = depth T"
  have rf: "root_fill N T" and ord: "t_ord T" and len: "sz s = length (t_keys T)"
    and ok: "heap_ok m (leaves (root s))" and ll: "left_leaf s = hd (leaves (root s))"
    using inv by (simp_all add: invariant_def T_def)
  have node: "t_node lo (2 * N) N h T" using root_node [OF rf] by (simp add: lo_def h_def)
  have ok': "heap_ok m ([] @ leaves (root s) @ [])" using ok by simp
  obtain r T' where ta: "t_add N k T = (r, T')" by (cases "t_add N k T")
  from add_elem_refines [OF node [unfolded T_def] N ok', of k] obtain t' m' where
    ae: "add_elem N k (root s) m = Some (r, t', m')" and tt: "tree_of m' t' = T'"
    and st: "step m [] (root s) [] m' t'"
    using ta by (auto simp: T_def)
  have ok1: "heap_ok m' (leaves t')" and hd1: "hd (leaves t') = hd (leaves (root s))"
    using st by (simp_all add: step_def)
  have fill: "r = SPLIT \<Longrightarrow> t_node (2 * N + 1) (2 * N + 1) N h T'"
    "r \<noteq> SPLIT \<Longrightarrow> t_node lo (2 * N) N h T'"
    using t_add_fill [OF node N, of k] ta by simp_all
  have srt: "sorted_wrt before ([] @ flat T @ [])" using ord by (simp add: t_ord_def)
  have order: "k \<in> set (t_keys T) \<Longrightarrow> r = EXISTS"
    "k \<notin> set (t_keys T) \<Longrightarrow> r \<noteq> EXISTS"
    "k \<notin> set (t_keys T) \<Longrightarrow> sorted_wrt before (flat T')"
    "k \<notin> set (t_keys T) \<Longrightarrow> \<exists>K1 K2. t_keys T = K1 @ K2 \<and> t_keys T' = K1 @ k # K2"
    using t_add_order [OF node N srt, of k] ta by simp_all
  have found: "\<exists>it. find_S k s1 m1 = Some it"
    if "t_node lo1 hi1 N h1 (tree_of m1 (root s1))" "heap_ok m1 (leaves (root s1))"
    for s1 :: "'a ADS_set" and m1 lo1 hi1 h1
  proof -
    have "\<forall>a\<in>set (leaves (root s1)). heap m1 a \<noteq> None"
      using heap_ok_live [OF that(2)] by fastforce
    then show ?thesis using find_Node_node [OF that(1)] by (simp add: find_S_def)
  qed
  show ?thesis
  proof (cases "k \<in> set (t_keys T)")
    case True
    then have r: "r = EXISTS" by (rule order(1))
    from add_elem_EXISTS [OF ae [unfolded r]] have same: "t' = root s" "m' = m" by simp_all
    have "t_node lo (2 * N) N h (tree_of m (root s))" using node by (simp add: T_def)
    from found [OF this ok] obtain it where "find_S k s m = Some it" by blast
    then have "insert_S N k s m = Some ((it, False), s, m)"
      using ae r same by (simp add: insert_S_def)
    then show ?thesis using inv True by (auto simp: T_def)
  next
    case False
    then have r: "r \<noteq> EXISTS" by (rule order(2))
    obtain K1 K2 where K: "t_keys T = K1 @ K2" "t_keys T' = K1 @ k # K2"
      using order(4) [OF False] by blast
    show ?thesis
    proof (cases "r = SPLIT")
      case nsp: False
      then have r': "r = SUCCESS_I" using r by (cases r) simp_all
      define s' where "s' = s\<lparr>root := t', sz := sz s + 1\<rparr>"
      have n': "t_node lo (2 * N) N h T'" using fill(2) nsp by simp
      have "is_leaf T' = is_leaf T"
        using t_node_is_leaf [OF n'] t_node_is_leaf [OF node] by simp
      then have z: "is_leaf T' \<or> 0 < t_size T'"
        using t_node_size [OF n'] by (auto simp: lo_def)
      have "root_fill N T'" using n' _ z by (rule root_fillI) simp
      moreover have "t_ord T'" using order(3) [OF False] by (simp add: t_ord_def)
      moreover have "sz s' = length (t_keys T')" using K len by (simp add: s'_def)
      ultimately have inv': "invariant N s' m'"
        using ok1 hd1 ll tt by (simp add: invariant_def s'_def)
      have "t_node lo (2 * N) N h (tree_of m' (root s'))" "heap_ok m' (leaves (root s'))"
        using n' ok1 tt by (simp_all add: s'_def)
      from found [OF this] obtain it where "find_S k s' m' = Some it" by blast
      then have "insert_S N k s m = Some ((it, True), s', m')"
        using ae r' by (simp add: insert_S_def s'_def)
      moreover have "t_keys (tree_of m' (root s')) = K1 @ k # K2"
        using K(2) tt by (simp add: s'_def)
      ultimately show ?thesis using inv' False K(1) by (auto simp: T_def)
    next
      case sp: True
      have over: "t_node (2 * N + 1) (2 * N + 1) N h (tree_of (new_InternalNode m') ([t'] ! 0))"
        using fill(1) [OF sp] tt by simp
      have ok2: "heap_ok (new_InternalNode m') ([] @ leaves (Internal [] [t']) @ [])"
        using ok1 by simp
      have "\<exists>p' m''. split N 0 (Internal [] [t']) (new_InternalNode m') = Some (p', m'')
           \<and> tree_of m'' p' = t_split 0 [] (map (tree_of (new_InternalNode m')) [t'])
           \<and> step (new_InternalNode m') [] (Internal [] [t']) [] m'' p'"
        using over ok2 by (intro split_refines) simp_all
      then obtain p' m'' where
        sp': "split N 0 (Internal [] [t']) (new_InternalNode m') = Some (p', m'')"
        and tp: "tree_of m'' p' = t_split 0 [] [T']"
        and st2: "step m' [] (Internal [] [t']) [] m'' p'"
        using tt by auto
      define T2 where "T2 = t_split 0 [] [T']"
      have ok3: "heap_ok m'' (leaves p')" and hd3: "hd (leaves p') = hd (leaves t')"
        using st2 by (simp_all add: step_def)
      have "t_node (Suc (length ([] :: 'a list))) (Suc (length ([] :: 'a list))) N (Suc h)
              (t_split 0 [] [T'])"
        using fill(1) [OF sp] N by (intro t_split_fill) simp_all
      then have n2: "t_node 1 1 N (Suc h) T2" by (simp add: T2_def)
      have z: "is_leaf T2 \<or> 0 < t_size T2" using t_node_size [OF n2] by simp
      have rf2: "root_fill N T2" using n2 _ z by (rule root_fillI) (use N in simp)
      have "case [T'] ! 0 of Leaf vs \<Rightarrow> vs \<noteq> []
                | Node cks ccs \<Rightarrow> cks \<noteq> [] \<and> length ccs = Suc (length cks)"
        using fill(1) [OF sp] by (auto simp: t_node_def split: tree.splits)
      then have "tidy (flat (Node [] [T'])) (flat (t_split 0 [] [T']))"
        by (intro t_split_tidy) simp_all
      then have td: "tidy (flat T') (flat T2)" by (simp add: T2_def)
      have "sorted_wrt before ([] @ flat T2 @ [])"
        using td order(3) [OF False] unfolding tidy_def keeps_def
        by (metis append_Nil append_Nil2)
      then have ord2: "t_ord T2" by (simp add: t_ord_def)
      have k2: "t_keys T2 = K1 @ k # K2"
        using td K(2) t_keys_flat [of T2] t_keys_flat [of T'] by (simp add: tidy_def)
      define s' where "s' = s\<lparr>root := p', sz := sz s + 1\<rparr>"
      have "sz s' = length (t_keys T2)" using k2 K(1) len by (simp add: s'_def)
      then have inv': "invariant N s' m''"
        using rf2 ord2 ok3 hd3 hd1 ll tp by (simp add: invariant_def s'_def T2_def)
      have "t_node 1 1 N (Suc h) (tree_of m'' (root s'))" "heap_ok m'' (leaves (root s'))"
        using n2 ok3 tp by (simp_all add: s'_def T2_def)
      from found [OF this] obtain it where "find_S k s' m'' = Some it" by blast
      then have "insert_S N k s m = Some ((it, True), s', m'')"
        using ae sp sp' by (simp add: insert_S_def s'_def)
      moreover have "t_keys (tree_of m'' (root s')) = K1 @ k # K2"
        using k2 tp by (simp add: s'_def T2_def)
      ultimately show ?thesis using inv' False K(1) by (auto simp: T_def)
    qed
  qed
qed


lemma erase_invariant:
  assumes inv: "invariant N s m" and N: "0 < N"
  shows "\<exists>n s' m'. erase N k s m = Some (n, s', m') \<and> invariant N s' m'
     \<and> (k \<notin> set (t_keys (tree_of m (root s))) \<longrightarrow> n = 0 \<and> s' = s \<and> m' = m)
     \<and> (k \<in> set (t_keys (tree_of m (root s))) \<longrightarrow> n = 1 \<and> 0 < sz s \<and> sz s' = sz s - 1
           \<and> (\<exists>K1 K2. t_keys (tree_of m (root s)) = K1 @ k # K2
                 \<and> t_keys (tree_of m' (root s')) = K1 @ K2))"
proof -
  define T where "T = tree_of m (root s)"
  define lo :: nat where "lo = (if is_leaf T then 0 else 1)"
  define h where "h = depth T"
  have rf: "root_fill N T" and ord: "t_ord T" and len: "sz s = length (t_keys T)"
    and ok: "heap_ok m (leaves (root s))" and ll: "left_leaf s = hd (leaves (root s))"
    using inv by (simp_all add: invariant_def T_def)
  have node: "t_node lo (2 * N) N h T" using root_node [OF rf] by (simp add: lo_def h_def)
  have lo: "lo \<le> N" using N by (simp add: lo_def)
  have z: "is_leaf T \<or> 0 < t_size T" using rf by (simp add: root_fill_iff)
  have ok': "heap_ok m ([] @ leaves (root s) @ [])" using ok by simp
  obtain r T' where ta: "t_remove N k T = (r, T')" by (cases "t_remove N k T")
  from remove_elem_refines [OF node [unfolded T_def] N z [unfolded T_def] ok', of k]
  obtain t' m' where
    re: "remove_elem N k (root s) m = Some (r, t', m')" and tt: "tree_of m' t' = T'"
    and st: "step m [] (root s) [] m' t'"
    using ta by (auto simp: T_def)
  have ok1: "heap_ok m' (leaves t')" and hd1: "hd (leaves t') = hd (leaves (root s))"
    using st by (simp_all add: step_def)
  have fill: "r = MERGE \<Longrightarrow> t_node (lo - 1) (N - 1) N h T'"
    "r \<noteq> MERGE \<Longrightarrow> t_node lo (2 * N) N h T'"
    using t_remove_fill [OF node lo N z, of k] ta by simp_all
  have srt: "sorted_wrt before ([] @ flat T @ [])" using ord by (simp add: t_ord_def)
  have order: "k \<notin> set (t_keys T) \<Longrightarrow> r = NOT_EXISTENT"
    "k \<in> set (t_keys T) \<Longrightarrow> r \<noteq> NOT_EXISTENT"
    "k \<in> set (t_keys T) \<Longrightarrow> sorted_wrt before (flat T')"
    "k \<in> set (t_keys T) \<Longrightarrow> \<exists>K1 K2. t_keys T = K1 @ k # K2 \<and> t_keys T' = K1 @ K2"
    using t_remove_order [OF node lo N z srt, of k] ta by simp_all
  show ?thesis
  proof (cases "k \<in> set (t_keys T)")
    case False
    then have r: "r = NOT_EXISTENT" by (rule order(1))
    from remove_elem_NOT_EXISTENT [OF re [unfolded r]] have same: "t' = root s" "m' = m"
      by simp_all
    have "erase N k s m = Some (0, s, m)"
      using re r same by (simp add: erase_def)
    then show ?thesis using inv False by (simp add: T_def)
  next
    case True
    then have r: "r \<noteq> NOT_EXISTENT" by (rule order(2))
    obtain K1 K2 where K: "t_keys T = K1 @ k # K2" "t_keys T' = K1 @ K2"
      using order(4) [OF True] by blast
    have pos: "0 < sz s" and dec: "decrement (sz s) = length (t_keys T')"
      using K len by (simp_all add: decrement_def)
    have ord': "t_ord T'" using order(3) [OF True] by (simp add: t_ord_def)
    have fin: ?thesis
      if e: "erase N k s m = Some (1, s\<lparr>root := t2, sz := decrement (sz s)\<rparr>, m2)"
        and fr: "tree_of m2 = tree_of m'" "heap_ok m2 = heap_ok m'"
        and t2: "tree_of m' t2 = T2" "flat T2 = flat T'" "leaves t2 = leaves t'"
        and rf2: "root_fill N T2" for t2 T2 m2
    proof -
      have "t_keys T2 = t_keys T'"
        using t2(2) t_keys_flat [of T2] t_keys_flat [of T'] by simp
      moreover have "t_ord T2" using ord' t2(2) by (simp add: t_ord_def)
      ultimately have "invariant N (s\<lparr>root := t2, sz := decrement (sz s)\<rparr>) m2"
        using rf2 dec ok1 hd1 ll t2(1,3) by (simp add: invariant_def fr)
      moreover have "t_keys (tree_of m2 (root (s\<lparr>root := t2, sz := decrement (sz s)\<rparr>))) = K1 @ K2"
        using \<open>t_keys T2 = t_keys T'\<close> K(2) t2(1) by (simp add: fr)
      moreover have "sz (s\<lparr>root := t2, sz := decrement (sz s)\<rparr>) = sz s - 1"
        using pos by (simp add: decrement_def)
      ultimately show ?thesis
        using e True K(1) pos unfolding T_def [symmetric] by blast
    qed
    show ?thesis
    proof (cases "r = MERGE")
      case nm: False
      then have r': "r = SUCCESS_E" using r by (cases r) simp_all
      have n': "t_node lo (2 * N) N h T'" using fill(2) nm by simp
      have "is_leaf T' = is_leaf T"
        using t_node_is_leaf [OF n'] t_node_is_leaf [OF node] by simp
      then have z': "is_leaf T' \<or> 0 < t_size T'"
        using t_node_size [OF n'] by (auto simp: lo_def)
      have rf': "root_fill N T'" using n' _ z' by (rule root_fillI) simp
      have "erase N k s m = Some (1, s\<lparr>root := t', sz := decrement (sz s)\<rparr>, m')"
        using re r' by (simp add: erase_def)
      then show ?thesis using refl refl tt _ _ rf' by (rule fin) simp_all
    next
      case mg: True
      have n': "t_node (lo - 1) (N - 1) N h T'" using fill(1) mg by simp
      show ?thesis
      proof (cases "\<exists>cs'. t' = Internal [] cs'")
        case True
        then obtain cs' where t': "t' = Internal [] cs'" by blast
        have "length cs' = 1" and sub: "\<forall>c\<in>set cs'. t_fill N (h - 1) (tree_of m' c)"
          using n' tt t' by (auto simp: t_node_def)
        then obtain c where cs': "cs' = [c]" by (cases cs'; cases "tl cs'") auto
        have cf: "t_fill N (h - 1) (tree_of m' c)" using sub cs' by simp
        have zc: "is_leaf (tree_of m' c) \<or> 0 < t_size (tree_of m' c)"
          using t_fill_size [OF cf] N by simp
        have "t_node N (2 * N) N (h - 1) (tree_of m' c)"
          using cf by (simp add: t_fill_t_node)
        then have rfc: "root_fill N (tree_of m' c)" using _ zc by (rule root_fillI) simp
        have "erase N k s m
                = Some (1, s\<lparr>root := c, sz := decrement (sz s)\<rparr>, delete_InternalNode m')"
          using re mg t' cs' by (simp add: erase_def child_at_def)
        then show ?thesis
          using _ _ refl _ _ rfc
        proof (rule fin)
          show "tree_of (delete_InternalNode m') = tree_of m'"
            "heap_ok (delete_InternalNode m') = heap_ok m'" by simp_all
          show "flat (tree_of m' c) = flat T'" using tt t' cs' by auto
          show "leaves c = leaves t'" using t' cs' by simp
        qed
      next
        case False
        have e: "erase N k s m = Some (1, s\<lparr>root := t', sz := decrement (sz s)\<rparr>, m')"
        proof (cases t')
          case (External a)
          then show ?thesis using re mg by (simp add: erase_def)
        next
          case (Internal ks' cs')
          then have "ks' \<noteq> []" using False by auto
          then obtain k0 ks0 where "ks' = k0 # ks0" by (cases ks') auto
          then show ?thesis using re mg Internal by (simp add: erase_def)
        qed
        have z': "is_leaf T' \<or> 0 < t_size T'"
          using False tt by (cases t') auto
        have "N - 1 \<le> 2 * N" by simp
        with n' have rf': "root_fill N T'" using z' by (rule root_fillI)
        show ?thesis using e refl refl tt _ _ rf' by (rule fin) simp_all
      qed
    qed
  qed
qed

lemma fresh_leaf_invariant:
  "invariant N \<lparr>sz = 0, root = External (brk m), left_leaf = brk m\<rparr>
     \<lparr>heap = (heap m)(brk m \<mapsto> empty_leaf), brk = Suc (brk m), internals = internals m\<rparr>"
  by (simp add: invariant_def root_fill_def t_node_def t_ord_def heap_ok_def vals_at_def
      empty_leaf_def)

lemma ADS_set_new_invariant: "ADS_set_new m = (s, m') \<Longrightarrow> invariant N s m'"
  using fresh_leaf_invariant [of N m]
  by (auto simp: ADS_set_new_def new_ExternalNode_def)

lemma clear_invariant: "clear s m = (s', m') \<Longrightarrow> invariant N s' m'"
  using fresh_leaf_invariant [of N "delete_Node (root s) m"]
  by (auto simp: clear_def new_ExternalNode_def)

lemma fresh_leaf_keys:
  "ADS_set_new m = (s, m') \<Longrightarrow> t_keys (tree_of m' (root s)) = []"
  "clear s0 m = (s, m') \<Longrightarrow> t_keys (tree_of m' (root s)) = []"
  by (auto simp: ADS_set_new_def clear_def new_ExternalNode_def vals_at_def empty_leaf_def)

section \<open>Runs of public operations\<close>

text \<open>Every run of operations on a constructed container ends in a state with the invariant,
  holding the keys that \<open>effect\<close> computes.\<close>

lemma distinct_remove_key:
  fixes k :: "'k::linorder"
  assumes "sorted_wrt (<) (K1 @ k # K2)"
  shows "remove1 k (K1 @ k # K2) = K1 @ K2" and "set (K1 @ K2) = set (K1 @ k # K2) - {k}"
proof -
  have "k \<notin> set K1" "k \<notin> set K2" using assms by (auto simp: sorted_wrt_append)
  then show "remove1 k (K1 @ k # K2) = K1 @ K2" "set (K1 @ K2) = set (K1 @ k # K2) - {k}"
    by (auto simp: remove1_append)
qed

lemma apply_op_invariant:
  assumes inv: "invariant N s m" and N: "0 < N"
  shows "\<exists>s' m'. apply_op N f (s, m) = Some (s', m') \<and> invariant N s' m'
           \<and> set (t_keys (tree_of m' (root s'))) = effect f (set (t_keys (tree_of m (root s))))"
proof (cases f)
  case (Insert k)
  from insert_S_invariant [OF inv N, of k] obtain it b s' m' where
    i: "insert_S N k s m = Some ((it, b), s', m')" "invariant N s' m'"
      "b = (k \<notin> set (t_keys (tree_of m (root s))))" "\<not> b \<longrightarrow> s' = s \<and> m' = m"
      "b \<longrightarrow> (\<exists>K1 K2. t_keys (tree_of m (root s)) = K1 @ K2
                 \<and> t_keys (tree_of m' (root s')) = K1 @ k # K2)"
    by blast
  have "set (t_keys (tree_of m' (root s'))) = insert k (set (t_keys (tree_of m (root s))))"
    using i(3,4,5) by (cases b) auto
  then show ?thesis using i(1,2) Insert by simp
next
  case (Erase k)
  from erase_invariant [OF inv N, of k] obtain n s' m' where
    e: "erase N k s m = Some (n, s', m')" "invariant N s' m'"
      "k \<notin> set (t_keys (tree_of m (root s))) \<longrightarrow> n = 0 \<and> s' = s \<and> m' = m"
      "k \<in> set (t_keys (tree_of m (root s))) \<longrightarrow>
           (\<exists>K1 K2. t_keys (tree_of m (root s)) = K1 @ k # K2
                 \<and> t_keys (tree_of m' (root s')) = K1 @ K2)"
    by blast
  have srt: "sorted_wrt (<) (t_keys (tree_of m (root s)))"
    using inv t_ord_sorted by (auto simp: invariant_def)
  have "set (t_keys (tree_of m' (root s'))) = set (t_keys (tree_of m (root s))) - {k}"
  proof (cases "k \<in> set (t_keys (tree_of m (root s)))")
    case True
    then obtain K1 K2 where K: "t_keys (tree_of m (root s)) = K1 @ k # K2"
      "t_keys (tree_of m' (root s')) = K1 @ K2" using e(4) by blast
    then show ?thesis using distinct_remove_key(2) [of K1 k K2] srt by simp
  next
    case False
    then show ?thesis using e(3) by simp
  qed
  then show ?thesis using e(1,2) Erase by simp
next
  case Clear
  obtain s' m' where c: "clear s m = (s', m')" by (cases "clear s m")
  then show ?thesis
    using clear_invariant [OF c, of N] fresh_leaf_keys(2) [OF c] Clear by simp
qed

lemma run_invariant:
  assumes "invariant N s m" and "0 < N"
  shows "\<exists>s' m'. run N fs (s, m) = Some (s', m') \<and> invariant N s' m'
           \<and> set (t_keys (tree_of m' (root s'))) = fold effect fs (set (t_keys (tree_of m (root s))))"
  using assms(1)
proof (induction fs arbitrary: s m)
  case Nil
  then show ?case by simp
next
  case (Cons f fs)
  from apply_op_invariant [OF Cons.prems assms(2), of f] obtain s1 m1 where
    a: "apply_op N f (s, m) = Some (s1, m1)" "invariant N s1 m1"
      "set (t_keys (tree_of m1 (root s1))) = effect f (set (t_keys (tree_of m (root s))))"
    by blast
  from Cons.IH [OF a(2)] show ?case using a(1,3) by simp
qed

lemma constructed_invariant:
  assumes "0 < N"
  shows "\<exists>s m. run N fs (ADS_set_new m0) = Some (s, m) \<and> invariant N s m
           \<and> set (t_keys (tree_of m (root s))) = fold effect fs {}"
proof -
  obtain s1 m1 where n: "ADS_set_new m0 = (s1, m1)" by (cases "ADS_set_new m0")
  from run_invariant [OF ADS_set_new_invariant [OF n] assms, of fs]
  show ?thesis using n fresh_leaf_keys(1) [OF n] by simp
qed

lemma t_fill_filled:
  assumes "t_fill N h (tree_of m t)" and "\<forall>a\<in>set (leaves t). heap m a \<noteq> None"
  shows "filled N m t"
  using assms
proof (induction t arbitrary: h)
  case (External a)
  then show ?case by (auto simp: vals_at_def)
next
  case (Internal ks cs)
  have "filled N m c" if "c \<in> set cs" for c
  proof -
    have "t_fill N (h - 1) (tree_of m c)" using Internal.prems(1) that by simp
    moreover have "\<forall>a\<in>set (leaves c). heap m a \<noteq> None" using Internal.prems(2) that by auto
    ultimately show ?thesis using Internal.IH that by blast
  qed
  then show ?case using Internal.prems(1) by simp
qed

lemma invariant_root_filled:
  assumes "invariant N s m"
  shows "root_filled N m (root s)"
proof -
  define T where "T = tree_of m (root s)"
  have node: "t_node 0 (2 * N) N (depth T) T" and ok: "heap_ok m (leaves (root s))"
    using assms by (simp_all add: invariant_def root_fill_iff T_def)
  have live: "\<forall>a\<in>set (leaves (root s)). heap m a \<noteq> None"
    using heap_ok_live [OF ok] by fastforce
  show ?thesis
  proof (cases "root s")
    case (External a)
    then show ?thesis
      using node live by (auto simp: root_filled_def T_def t_node_def vals_at_def)
  next
    case (Internal ks cs)
    have "filled N m c" if "c \<in> set cs" for c
    proof -
      have "t_fill N (depth T - 1) (tree_of m c)"
        using node Internal that by (simp add: T_def t_node_def)
      moreover have "\<forall>a\<in>set (leaves c). heap m a \<noteq> None" using live Internal that by auto
      ultimately show ?thesis by (rule t_fill_filled)
    qed
    then show ?thesis
      using node Internal by (simp add: root_filled_def T_def t_node_def)
  qed
qed

lemma insert_S_iterator:
  "insert_S N k s m = Some ((it, b), s', m') \<Longrightarrow> find_S k s' m' = Some it"
  by (auto simp: insert_S_def Let_def split: bind_splits InsertMsg.splits prod.splits)

lemma t_fill_keys_nonempty: "t_fill N h t \<Longrightarrow> 0 < N \<Longrightarrow> t_keys t \<noteq> []"
proof (induction t arbitrary: h)
  case (Leaf vs)
  then show ?case by auto
next
  case (Node ks cs)
  then obtain c cs' where cs: "cs = c # cs'" by (cases cs) auto
  then have "t_fill N (h - 1) c" using Node.prems by simp
  then have "t_keys c \<noteq> []" using Node.IH [of c] cs Node.prems(2) by simp
  then show ?case using cs by simp
qed

lemma empty_root_is_leaf:
  assumes inv: "invariant N s m" and N: "0 < N" and e: "t_keys (tree_of m (root s)) = []"
  shows "\<exists>a. root s = External a"
proof (cases "root s")
  case (External a)
  then show ?thesis by simp
next
  case (Internal ks cs)
  have node: "t_node 0 (2 * N) N (depth (tree_of m (root s))) (tree_of m (root s))"
    using inv by (simp add: invariant_def root_fill_iff)
  then obtain c cs' where cs: "cs = c # cs'" using Internal by (cases cs) (auto simp: t_node_def)
  then have "t_fill N (depth (tree_of m (root s)) - 1) (tree_of m c)"
    using node Internal by (simp add: t_node_def)
  then have "t_keys (tree_of m c) \<noteq> []" using N by (rule t_fill_keys_nonempty)
  then show ?thesis using e Internal cs by simp
qed

text \<open>The container of order 1 after \<open>insert(1)\<close>, \<open>insert(2)\<close>, \<open>insert(3)\<close>: the third key
  splits the root leaf.\<close>

lemma run_example:
  "run 1 [Insert 1, Insert 2, Insert 3] (ADS_set_new \<lparr>heap = (\<lambda>a. None), brk = 0, internals = 0\<rparr>)
     = Some (\<lparr>sz = 3, root = Internal [2 :: int] [External 0, External 1], left_leaf = 0\<rparr>,
             \<lparr>heap = (\<lambda>a. None)
                (0 \<mapsto> \<lparr>vals = [1], left_neighbour = None, right_neighbour = Some 1\<rparr>,
                 1 \<mapsto> \<lparr>vals = [2, 3], left_neighbour = Some 0, right_neighbour = None\<rparr>),
              brk = 2, internals = 1\<rparr>)"
  by (simp add: ADS_set_new_def new_ExternalNode_def empty_leaf_def insert_S_def add_elem_E_def
      find_pos_E_def bsearch.simps Let_def update_def max_size_def ins_at_def find_S_def
      find_E_def split_def split_E_def child_at_def as_External_def fun_eq_iff)

section \<open>The internal nodes in memory\<close>

text \<open>Every operation that returns changes the count of internal nodes in memory by the
  number of internal nodes that the tree gains or loses.\<close>

lemma sum_ins_at: "sum_list (map f (ins_at i x xs)) = f x + sum_list (map f xs :: int list)"
proof -
  have "sum_list (map f (take i xs @ drop i xs)) = sum_list (map f xs)" by simp
  then show ?thesis unfolding ins_at_def by (simp del: append_take_drop_id)
qed

lemma sum_update:
  "i < length xs \<Longrightarrow> sum_list (map f (xs[i := y])) = sum_list (map f xs :: int list) - f (xs ! i) + f y"
proof (induction xs arbitrary: i)
  case Nil
  then show ?case by simp
next
  case (Cons x xs)
  then show ?case by (cases i) auto
qed

lemma sum_del_at:
  "i < length xs \<Longrightarrow> sum_list (map f (del_at i xs)) = sum_list (map f xs :: int list) - f (xs ! i)"
proof -
  assume i: "i < length xs"
  have "xs = take i xs @ xs ! i # drop (Suc i) xs" using i by (rule id_take_nth_drop)
  then have "sum_list (map f xs) = sum_list (map f (take i xs)) + f (xs ! i) + sum_list (map f (drop (Suc i) xs))"
    by (metis add.assoc list.simps(9) map_append sum_list.Cons sum_list.append)
  then show ?thesis by (simp add: del_at_def)
qed

lemma split_E_inodes:
  "split_E N pos ks cs a m = Some (p', m') \<Longrightarrow>
     internals m' = internals m \<and> inodes p' = inodes (Internal ks cs)"
  by (auto simp: split_E_def Let_def new_ExternalNode_def sum_ins_at
      split: bind_splits if_splits option.splits dest!: update_internals)

lemma sum_take_drop:
  "sum_list (map f (take n xs)) + sum_list (map f (drop n xs)) = sum_list (map f xs :: int list)"
  by (metis append_take_drop_id map_append sum_list.append)

lemma split_I_inodes:
  assumes "split_I N pos ks cs cks ccs = Some p'" and "pos < length cs"
    and "cs ! pos = Internal cks ccs" and "length ccs = Suc (length cks)"
  shows "inodes p' = inodes (Internal ks cs) + 1"
proof -
  define h where "h = length cks div 2"
  have odd: "2 * h < length cks" and p': "p' = Internal (ins_at pos (cks ! h) ks)
       (ins_at (Suc pos) (Internal (map (\<lambda>i. cks ! (i + h + 1)) [0..<h]) (map (\<lambda>i. ccs ! (i + h + 1)) [0..<Suc h]))
          (cs[pos := Internal (take h cks) (take (Suc h) ccs)]))"
    using assms(1) by (auto simp: split_I_def Let_def h_def split: if_splits)
  have len: "length ccs = 2 * h + 2" using odd assms(4) h_def by linarith
  have "map (\<lambda>i. ccs ! Suc (i + h)) [0..<Suc h] = drop (Suc h) ccs"
    using len by (intro map_nth_drop_Suc) simp
  then have "map (\<lambda>i. ccs ! (i + h + 1)) [0..<Suc h] = drop (Suc h) ccs"
    by simp
  then show ?thesis
    using assms(2,3) sum_take_drop [of inodes "Suc h" ccs]
    by (simp add: p' sum_ins_at sum_update del: upt_Suc)
qed

lemma split_inodes:
  "split N pos p m = Some (p', m') \<Longrightarrow> internals m' - internals m = inodes p' - inodes p"
proof (cases p)
  case (External a)
  assume "split N pos p m = Some (p', m')"
  then show ?thesis using External by (simp add: split_def)
next
  case (Internal ks cs)
  assume s: "split N pos p m = Some (p', m')"
  then have shape: "length cs = Suc (length ks)" and pos: "pos < length cs"
    using Internal by (auto simp: split_def child_at_def split: if_splits)
  show ?thesis
  proof (cases "cs ! pos")
    case (External a)
    then have "split_E N pos ks cs a m = Some (p', m')"
      using s Internal shape pos by (simp add: split_def child_at_def)
    from split_E_inodes [OF this] show ?thesis using Internal by simp
  next
    case c: (Internal cks ccs)
    then have l: "length ccs = Suc (length cks)" and m': "m' = new_InternalNode m"
      and sp: "split_I N pos ks cs cks ccs = Some p'"
      using s Internal shape pos by (auto simp: split_def child_at_def split: if_splits)
    from split_I_inodes [OF sp pos c l] show ?thesis using Internal m' by simp
  qed
qed

lemma add_elem_E_internals:
  "add_elem_E N x a m = Some (r, m') \<Longrightarrow> internals m' = internals m"
  by (auto simp: add_elem_E_def split: bind_splits if_splits dest!: update_internals)

lemma inodes_update:
  "i < length cs \<Longrightarrow>
     inodes (Internal ks' (cs[i := c'])) = inodes (Internal ks cs) - inodes (cs ! i) + inodes c'"
  by (simp add: sum_update)

lemma add_elem_inodes:
  "add_elem N x t m = Some (r, t', m') \<Longrightarrow> internals m' - internals m = inodes t' - inodes t"
proof (induction N x t m arbitrary: r t' m' rule: add_elem.induct)
  case (1 N elem a m)
  then show ?case by (auto dest: add_elem_E_internals)
next
  case (2 N elem ks cs m)
  let ?pos = "find_pos_I elem ks"
  have shape: "length cs = Suc (length ks)" using "2.prems" by (simp split: if_splits)
  then have pos: "?pos < length cs" using find_pos_I_le [of elem ks] by simp
  obtain r1 c' m1 where a: "add_elem N elem (cs ! ?pos) m = Some (r1, c', m1)"
    using "2.prems" shape by (auto split: option.splits)
  have ih: "internals m1 - internals m = inodes c' - inodes (cs ! ?pos)"
    using "2.IH" shape a by simp
  show ?case
  proof (cases "r1 = SPLIT")
    case True
    then obtain p' m'' where sp: "split N ?pos (Internal ks (cs[?pos := c'])) m1 = Some (p', m'')"
      and res: "t' = p'" "m' = m''"
      using "2.prems" shape a by (auto split: option.splits)
    from split_inodes [OF sp] show ?thesis
      using ih res inodes_update [OF pos, of ks c' ks] by simp
  next
    case False
    then have "t' = Internal ks (cs[?pos := c'])" "m' = m1"
      using "2.prems" shape a by auto
    then show ?thesis using ih inodes_update [OF pos, of ks c' ks] by simp
  qed
qed

lemma move_E_inodes:
  "move_from_right_E N pos ks cs m = Some (p', m') \<Longrightarrow>
     internals m' = internals m \<and> inodes p' = inodes (Internal ks cs)"
  "move_from_left_E N pos ks cs m = Some (p', m') \<Longrightarrow>
     internals m' = internals m \<and> inodes p' = inodes (Internal ks cs)"
  by (auto simp: move_from_right_E_def move_from_left_E_def
      split: bind_splits if_splits prod.splits dest!: update_internals)

lemma as_Internal_Some: "as_Internal c = Some (ks, cs) \<Longrightarrow> c = Internal ks cs \<and> length cs = Suc (length ks)"
  by (auto simp: as_Internal_def split: Node.splits if_splits)

lemma as_External_Some: "as_External m c = Some (a, l) \<Longrightarrow> c = External a \<and> heap m a = Some l"
  by (auto simp: as_External_def split: Node.splits)

lemma child_at_Some: "child_at cs i = Some c \<Longrightarrow> i < length cs \<and> cs ! i = c"
  by (auto simp: child_at_def split: if_splits)

lemma sum_tl: "xs \<noteq> [] \<Longrightarrow> f (xs ! 0) + sum_list (map f (tl xs)) = sum_list (map f xs :: int list)"
  by (cases xs) auto

lemma sum_butlast:
  "xs \<noteq> [] \<Longrightarrow> f (last xs) + sum_list (map f (butlast xs)) = sum_list (map f xs :: int list)"
  by (induction xs rule: rev_induct) auto

lemma move_from_right_I_inodes:
  assumes "move_from_right_I N pos ks cs = Some p'"
  shows "inodes p' = inodes (Internal ks cs)"
proof -
  obtain cks ccs sks scs where
    c: "pos < length cs" "cs ! pos = Internal cks ccs"
    and s: "pos + 1 < length cs" "cs ! (pos + 1) = Internal sks scs" "length scs = Suc (length sks)"
    and p': "p' = Internal (ks[pos := sks ! 0])
                  (cs[pos := Internal (cks @ [ks ! pos]) (ccs @ [scs ! 0]),
                      pos + 1 := Internal (tl sks) (tl scs)])"
    using assms
    by (auto simp: move_from_right_I_def split: bind_splits if_splits prod.splits
        dest!: child_at_Some as_Internal_Some)
  have "scs \<noteq> []" using s(3) by auto
  from sum_tl [OF this, of inodes] show ?thesis
    using c s by (simp add: p' sum_update)
qed

lemma move_from_left_I_inodes:
  assumes "move_from_left_I N pos ks cs = Some p'"
  shows "inodes p' = inodes (Internal ks cs)"
proof -
  obtain cks ccs sks scs where
    c: "pos < length cs" "cs ! pos = Internal cks ccs"
    and s: "0 < pos" "cs ! (pos - 1) = Internal sks scs" "length scs = Suc (length sks)"
    and p': "p' = Internal (ks[pos - 1 := last sks])
                  (cs[pos := Internal (ks ! (pos - 1) # cks) (last scs # ccs),
                      pos - 1 := Internal (butlast sks) (butlast scs)])"
    using assms
    by (auto simp: move_from_left_I_def split: bind_splits if_splits prod.splits
        dest!: child_at_Some as_Internal_Some)
  have "scs \<noteq> []" using s(3) by auto
  from sum_butlast [OF this, of inodes] show ?thesis
    using c s by (simp add: p' sum_update)
qed

lemma fuse_E_inodes:
  "fuse_right_E N pos ks cs m = Some (p', m') \<Longrightarrow>
     internals m' = internals m \<and> inodes p' = inodes (Internal ks cs)"
  "fuse_left_E N pos ks cs m = Some (p', m') \<Longrightarrow>
     internals m' = internals m \<and> inodes p' = inodes (Internal ks cs)"
  by (auto simp: fuse_right_E_def fuse_left_E_def sum_del_at
      split: bind_splits if_splits prod.splits option.splits
      dest!: update_internals child_at_Some as_External_Some)

lemma fuse_right_I_inodes:
  assumes "fuse_right_I N pos ks cs = Some p'"
  shows "inodes p' = inodes (Internal ks cs) - 1"
proof -
  obtain aks acs bks bcs where
    c: "pos < length cs" "cs ! pos = Internal aks acs"
    and s: "pos + 1 < length cs" "cs ! (pos + 1) = Internal bks bcs"
    and p': "p' = Internal (del_at pos ks)
                  (del_at (pos + 1) (cs[pos := Internal (aks @ [ks ! pos] @ bks) (acs @ bcs)]))"
    using assms
    by (auto simp: fuse_right_I_def split: bind_splits if_splits prod.splits
        dest!: child_at_Some as_Internal_Some)
  show ?thesis using c s by (simp add: p' sum_update sum_del_at)
qed

lemma fuse_left_I_inodes:
  assumes "fuse_left_I N pos ks cs = Some p'"
  shows "inodes p' = inodes (Internal ks cs) - 1"
proof -
  obtain aks acs bks bcs where
    c: "pos < length cs" "cs ! pos = Internal aks acs"
    and s: "0 < pos" "cs ! (pos - 1) = Internal bks bcs"
    and p': "p' = Internal (left_keys pos ks)
                  (del_at pos (cs[pos - 1 := Internal (bks @ [ks ! (pos - 1)] @ aks) (bcs @ acs)]))"
    using assms
    by (auto simp: fuse_left_I_def split: bind_splits if_splits prod.splits
        dest!: child_at_Some as_Internal_Some)
  show ?thesis using c s by (simp add: p' sum_update sum_del_at)
qed

lemma fuse_inodes:
  assumes "fuse N d pos ks cs m = Some (p', m')"
  shows "internals m' - internals m = inodes p' - inodes (Internal ks cs)"
proof -
  obtain c where c: "child_at cs pos = Some c"
    using assms by (auto simp: fuse_def split: bind_splits)
  show ?thesis
  proof (cases d)
    case LEFT
    show ?thesis
    proof (cases "node_type c = EXTERNAL")
      case True
      then have "fuse_left_E N pos ks cs m = Some (p', m')"
        using assms c LEFT by (simp add: fuse_def)
      from fuse_E_inodes(2) [OF this] show ?thesis by simp
    next
      case False
      then have "fuse_left_I N pos ks cs = Some p'" "m' = delete_InternalNode m"
        using assms c LEFT by (auto simp: fuse_def)
      then show ?thesis using fuse_left_I_inodes [of N pos ks cs p'] by simp
    qed
  next
    case RIGHT
    show ?thesis
    proof (cases "node_type c = EXTERNAL")
      case True
      then have "fuse_right_E N pos ks cs m = Some (p', m')"
        using assms c RIGHT by (simp add: fuse_def)
      from fuse_E_inodes(1) [OF this] show ?thesis by simp
    next
      case False
      then have "fuse_right_I N pos ks cs = Some p'" "m' = delete_InternalNode m"
        using assms c RIGHT by (auto simp: fuse_def)
      then show ?thesis using fuse_right_I_inodes [of N pos ks cs p'] by simp
    qed
  qed
qed

lemma resplit_inodes:
  "resplit N i p m = Some (p', m') \<Longrightarrow> internals m' - internals m = inodes p' - inodes p"
  by (auto simp: resplit_def split: bind_splits if_splits dest: split_inodes)

lemma merge_inodes:
  assumes "merge N pos ks cs m = Some (p', m')"
  shows "internals m' - internals m = inodes p' - inodes (Internal ks cs)"
proof -
  obtain c action where c: "child_at cs pos = Some c"
    and shape: "length cs = Suc (length ks)"
    and act: "merge_action N pos ks cs m = Some action"
    using assms by (auto simp: merge_def split: bind_splits if_splits)
  show ?thesis
  proof (cases action)
    case MoveFromRight
    then show ?thesis
      using assms c shape act move_E_inodes(1) [of N pos ks cs m p' m']
        move_from_right_I_inodes [of N pos ks cs p']
      by (auto simp: merge_def split: if_splits)
  next
    case MoveFromLeft
    then show ?thesis
      using assms c shape act move_E_inodes(2) [of N pos ks cs m p' m']
        move_from_left_I_inodes [of N pos ks cs p']
      by (auto simp: merge_def split: if_splits)
  next
    case (Fuse d)
    then obtain p1 m1 where f: "fuse N d pos ks cs m = Some (p1, m1)"
      and r: "resplit N (fused_at d pos) p1 m1 = Some (p', m')"
      using assms c shape act by (auto simp: merge_def split: bind_splits)
    from fuse_inodes [OF f] resplit_inodes [OF r] show ?thesis by simp
  qed
qed

lemma remove_elem_E_internals:
  "remove_elem_E N x a m = Some (r, m') \<Longrightarrow> internals m' = internals m"
  by (auto simp: remove_elem_E_def Let_def split: bind_splits if_splits dest!: update_internals)

lemma remove_elem_inodes:
  "remove_elem N x t m = Some (r, t', m') \<Longrightarrow>
     internals m' - internals m = inodes t' - inodes t"
proof (induction N x t m arbitrary: r t' m' rule: remove_elem.induct)
  case (1 N elem a m)
  then show ?case by (auto dest: remove_elem_E_internals)
next
  case (2 N elem ks cs m)
  let ?pos = "find_pos_I elem ks"
  have shape: "length cs = Suc (length ks)" using "2.prems" by (simp split: if_splits)
  then have pos: "?pos < length cs" using find_pos_I_le [of elem ks] by simp
  obtain r1 c' m1 where a: "remove_elem N elem (cs ! ?pos) m = Some (r1, c', m1)"
    using "2.prems" shape by (auto split: option.splits)
  have ih: "internals m1 - internals m = inodes c' - inodes (cs ! ?pos)"
    using "2.IH" shape a by simp
  show ?case
  proof (cases "r1 = MERGE")
    case True
    then obtain p' m'' where sp: "merge N ?pos ks (cs[?pos := c']) m1 = Some (p', m'')"
      and res: "t' = p'" "m' = m''"
      using "2.prems" shape a by (auto split: option.splits)
    from merge_inodes [OF sp] show ?thesis
      using ih res inodes_update [OF pos, of ks c' ks] by simp
  next
    case False
    then have "t' = Internal ks (cs[?pos := c'])" "m' = m1"
      using "2.prems" shape a by auto
    then show ?thesis using ih inodes_update [OF pos, of ks c' ks] by simp
  qed
qed

text \<open>\<open>delete\<close> of a filled tree destroys its internal nodes.\<close>

lemma fold_delete_inodes:
  "(\<And>c m. c \<in> set xs \<Longrightarrow> internals (delete_Node c m) = internals m - inodes c) \<Longrightarrow>
     internals (fold delete_Node xs m) = internals m - sum_list (map inodes xs)"
  by (induction xs arbitrary: m) simp_all

lemma delete_Node_fill:
  "t_fill N h (tree_of m0 t) \<Longrightarrow> internals (delete_Node t m) = internals m - inodes t"
proof (induction t arbitrary: h m)
  case (External a)
  then show ?case by simp
next
  case (Internal ks cs)
  have shape: "length cs = Suc (length ks)" using Internal.prems by simp
  have "internals (delete_Node c m) = internals m - inodes c" if "c \<in> set cs" for c m
    using Internal.IH [OF that, of "h - 1" m] Internal.prems that by simp
  from fold_delete_inodes [of cs, OF this] show ?case using shape by simp
qed

lemma delete_Node_node:
  assumes "t_node lo hi N h (tree_of m0 t)"
  shows "internals (delete_Node t m) = internals m - inodes t"
proof (cases t)
  case (External a)
  then show ?thesis by simp
next
  case (Internal ks cs)
  have shape: "length cs = Suc (length ks)" using assms Internal by (simp add: t_node_def)
  have "internals (delete_Node c m) = internals m - inodes c" if "c \<in> set cs" for c m
    using assms Internal that delete_Node_fill [of N "h - 1" m0 c m] by (simp add: t_node_def)
  from fold_delete_inodes [of cs, OF this] show ?thesis using shape Internal by simp
qed

text \<open>An internal root that \<open>remove_elem\<close> leaves without keys has one child, which is
  filled; the result is \<open>MERGE\<close>.\<close>

lemma root_underflow:
  assumes inv: "invariant N s m" and N: "0 < N"
    and rem: "remove_elem N k (root s) m = Some (r, Internal [] cs', m1)"
  shows "\<exists>c. cs' = [c] \<and> r = MERGE \<and> 0 < sz s \<and> 0 < depth (tree_of m (root s))
           \<and> t_fill N (depth (tree_of m (root s)) - 1) (tree_of m1 c)
           \<and> heap_ok m1 (leaves c)"
proof -
  define T where "T = tree_of m (root s)"
  define lo :: nat where "lo = (if is_leaf T then 0 else 1)"
  define h where "h = depth T"
  have rf: "root_fill N T" and len: "sz s = length (t_keys T)"
    and ok: "heap_ok m (leaves (root s))"
    using inv by (simp_all add: invariant_def T_def)
  have node: "t_node lo (2 * N) N h T" using root_node [OF rf] by (simp add: lo_def h_def)
  have lo: "lo \<le> N" using N by (simp add: lo_def)
  have z: "is_leaf T \<or> 0 < t_size T" using rf by (simp add: root_fill_iff)
  have ok': "heap_ok m ([] @ leaves (root s) @ [])" using ok by simp
  obtain r0 T' where ta: "t_remove N k T = (r0, T')" by (cases "t_remove N k T")
  from remove_elem_refines [OF node [unfolded T_def] N z [unfolded T_def] ok', of k]
  have tt: "tree_of m1 (Internal [] cs') = T'" and st: "step m [] (root s) [] m1 (Internal [] cs')"
    and r0: "r0 = r"
    using ta rem by (auto simp: T_def)
  have ok1: "heap_ok m1 (leaves (Internal [] cs'))" using st by (simp add: step_def)
  have fill: "r = MERGE \<Longrightarrow> t_node (lo - 1) (N - 1) N h T'"
    "r \<noteq> MERGE \<Longrightarrow> t_node lo (2 * N) N h T'"
    using t_remove_fill [OF node lo N z, of k] ta r0 by simp_all
  obtain ks cs where root: "root s = Internal ks cs"
    using rem by (cases "root s") auto
  then have lo1: "lo = 1" by (simp add: lo_def T_def)
  have "\<not> (\<exists>a. root s = External a)" using root by simp
  then have "t_keys T \<noteq> []" using empty_root_is_leaf [OF inv N] by (auto simp: T_def)
  then have pos: "0 < sz s" using len by simp
  have mg: "r = MERGE"
  proof (rule ccontr)
    assume "r \<noteq> MERGE"
    from fill(2) [OF this] show False using tt lo1 by (auto simp: t_node_def)
  qed
  have n': "t_node (lo - 1) (N - 1) N h T'" using fill(1) mg by simp
  have h: "0 < h" and "length cs' = 1" and sub: "\<forall>c\<in>set cs'. t_fill N (h - 1) (tree_of m1 c)"
    using n' tt by (auto simp: t_node_def)
  then obtain c where cs': "cs' = [c]" by (cases cs'; cases "tl cs'") auto
  show ?thesis
    using cs' mg pos h sub ok1 by (simp add: h_def T_def)
qed

text \<open>After a run of public operations on a constructed container, the internal nodes in
  memory are those of the tree.\<close>

lemma apply_op_inodes:
  assumes inv: "invariant N s m" and N: "0 < N"
    and ap: "apply_op N f (s, m) = Some (s', m')"
  shows "internals m' - inodes (root s') = internals m - inodes (root s)"
proof (cases f)
  case (Insert k)
  then obtain res where i: "insert_S N k s m = Some (res, s', m')" using ap by auto
  then obtain r t1 m1 where a: "add_elem N k (root s) m = Some (r, t1, m1)"
    by (auto simp: insert_S_def Let_def split: bind_splits)
  note d = add_elem_inodes [OF a]
  show ?thesis
  proof (cases r)
    case SUCCESS_I
    then show ?thesis using i a d by (auto simp: insert_S_def Let_def split: bind_splits)
  next
    case EXISTS
    then show ?thesis using i a d by (auto simp: insert_S_def Let_def split: bind_splits)
  next
    case SPLIT
    then obtain p' where "split N 0 (Internal [] [t1]) (new_InternalNode m1) = Some (p', m')"
      "root s' = p'"
      using i a by (auto simp: insert_S_def Let_def split: bind_splits)
    then show ?thesis using split_inodes [of N 0 "Internal [] [t1]" "new_InternalNode m1" p' m'] d
      by simp
  qed
next
  case (Erase k)
  then obtain n where e: "erase N k s m = Some (n, s', m')" using ap by auto
  then obtain r t1 m1 where a: "remove_elem N k (root s) m = Some (r, t1, m1)"
    by (auto simp: erase_def split: bind_splits)
  note d = remove_elem_inodes [OF a]
  show ?thesis
  proof (cases "\<exists>cs'. r = MERGE \<and> t1 = Internal [] cs'")
    case True
    then obtain cs' where t1: "r = MERGE" "t1 = Internal [] cs'" by blast
    from root_underflow [OF inv N a [unfolded t1]] obtain c where "cs' = [c]" by blast
    then show ?thesis using e a d t1 by (auto simp: erase_def child_at_def)
  next
    case False
    have "root s' = t1 \<and> m' = m1"
    proof (cases r)
      case SUCCESS_E
      then show ?thesis using e a by (auto simp: erase_def)
    next
      case NOT_EXISTENT
      then show ?thesis using e a by (auto simp: erase_def)
    next
      case MERGE
      then show ?thesis using e a False
        by (auto simp: erase_def split: Node.splits list.splits)
    qed
    then show ?thesis using d by simp
  qed
next
  case Clear
  have "t_node 0 (2 * N) N (depth (tree_of m (root s))) (tree_of m (root s))"
    using inv by (simp add: invariant_def root_fill_iff)
  from delete_Node_node [OF this, of m] show ?thesis
    using ap Clear by (auto simp: clear_def new_ExternalNode_def)
qed

lemma run_inodes:
  assumes "invariant N s m" and "0 < N" and "run N fs (s, m) = Some (s', m')"
  shows "internals m' - inodes (root s') = internals m - inodes (root s)"
  using assms(1,3)
proof (induction fs arbitrary: s m)
  case Nil
  then show ?case by simp
next
  case (Cons f fs)
  from apply_op_invariant [OF Cons.prems(1) assms(2), of f] obtain s1 m1 where
    a: "apply_op N f (s, m) = Some (s1, m1)" "invariant N s1 m1"
    by blast
  from Cons.IH [OF a(2)] apply_op_inodes [OF Cons.prems(1) assms(2) a(1)] show ?case
    using Cons.prems(2) a(1) by simp
qed

lemma constructed_inodes:
  assumes "0 < N" and "run N fs (ADS_set_new m0) = Some (s, m)"
  shows "internals m = internals m0 + inodes (root s)"
proof -
  obtain s1 m1 where n: "ADS_set_new m0 = (s1, m1)" by (cases "ADS_set_new m0")
  have "internals m1 = internals m0" "inodes (root s1) = 0"
    using n by (auto simp: ADS_set_new_def new_ExternalNode_def)
  then show ?thesis
    using run_inodes [OF ADS_set_new_invariant [OF n] assms(1), of fs s m] assms(2) n by simp
qed

section \<open>Shrinking the root\<close>

text \<open>The height of a filled tree is the depth of its leaves.\<close>

lemma fold_max_const:
  "\<forall>x\<in>set xs. x = v \<Longrightarrow> fold max xs (a :: nat) = (if xs = [] then a else max v a)"
  by (induction xs arbitrary: a) auto

lemma height_fill: "t_fill N h (tree_of m t) \<Longrightarrow> height t = Suc h"
proof (induction t arbitrary: h)
  case (External a)
  then show ?case by simp
next
  case (Internal ks cs)
  have h: "0 < h" and ne: "cs \<noteq> []" using Internal.prems by auto
  have "\<forall>x\<in>set (map height cs). x = h"
    using Internal.IH [of _ "h - 1"] Internal.prems h by auto
  from fold_max_const [OF this, of 0] show ?case using ne by simp
qed

lemma height_node: "t_node lo hi N h (tree_of m t) \<Longrightarrow> height t = Suc h"
proof (cases t)
  case (External a)
  assume "t_node lo hi N h (tree_of m t)"
  then show ?thesis using External by (simp add: t_node_def)
next
  case (Internal ks cs)
  assume n: "t_node lo hi N h (tree_of m t)"
  then have h: "0 < h" and ne: "cs \<noteq> []" using Internal by (auto simp: t_node_def)
  have "\<forall>x\<in>set (map height cs). x = h"
    using n Internal h height_fill [of N "h - 1" m] by (auto simp: t_node_def)
  from fold_max_const [OF this, of 0] show ?thesis using ne Internal by simp
qed

text \<open>The container of order 1 after \<open>insert(1)\<close>, \<open>insert(2)\<close>, \<open>insert(3)\<close>, \<open>erase(3)\<close>: a
  root with one key above the leaves \<open>[1]\<close> and \<open>[2]\<close>.\<close>

lemma run_append:
  "run N (fs @ gs) st = (case run N fs st of None \<Rightarrow> None | Some st' \<Rightarrow> run N gs st')"
  by (induction fs arbitrary: st) (auto split: option.splits)

lemma run_example_erase:
  "run 1 [Insert 1, Insert 2, Insert 3, Erase 3] (ADS_set_new \<lparr>heap = (\<lambda>a. None), brk = 0, internals = 0\<rparr>)
     = Some (\<lparr>sz = 2, root = Internal [2 :: int] [External 0, External 1], left_leaf = 0\<rparr>,
             \<lparr>heap = (\<lambda>a. None)
                (0 \<mapsto> \<lparr>vals = [1], left_neighbour = None, right_neighbour = Some 1\<rparr>,
                 1 \<mapsto> \<lparr>vals = [2], left_neighbour = Some 0, right_neighbour = None\<rparr>),
              brk = 2, internals = 1\<rparr>)"
proof -
  let ?init = "ADS_set_new (\<lparr>heap = (\<lambda>a. None), brk = 0, internals = 0\<rparr> :: int memory)"
  let ?S3 = "\<lparr>sz = 3, root = Internal [2 :: int] [External 0, External 1], left_leaf = 0\<rparr>"
  let ?M3 = "\<lparr>heap = (\<lambda>a. None)
                (0 \<mapsto> \<lparr>vals = [1], left_neighbour = None, right_neighbour = Some 1\<rparr>,
                 1 \<mapsto> \<lparr>vals = [2, 3], left_neighbour = Some 0, right_neighbour = None\<rparr>),
              brk = 2, internals = 1\<rparr>"
  have f: "find_pos_E [2, 3 :: int] 3 = 1"
    using find_pos_E_present [of "[2, 3 :: int]" 1] by simp
  have e: "erase 1 3 ?S3 ?M3
     = Some (1, \<lparr>sz = 2, root = Internal [2 :: int] [External 0, External 1], left_leaf = 0\<rparr>,
             \<lparr>heap = (\<lambda>a. None)
                (0 \<mapsto> \<lparr>vals = [1], left_neighbour = None, right_neighbour = Some 1\<rparr>,
                 1 \<mapsto> \<lparr>vals = [2], left_neighbour = Some 0, right_neighbour = None\<rparr>),
              brk = 2, internals = 1\<rparr>)"
    by (simp add: erase_def remove_elem_E_def f update_def del_at_def min_size_def decrement_def
        fun_eq_iff)
  have "run 1 [Insert 1, Insert 2, Insert 3, Erase 3] ?init
          = run 1 ([Insert 1, Insert 2, Insert 3] @ [Erase 3]) ?init"
    by (simp only: append.simps)
  also have "\<dots> = (case run 1 [Insert 1, Insert 2, Insert 3] ?init of None \<Rightarrow> None
                     | Some st' \<Rightarrow> run 1 [Erase 3] st')"
    by (rule run_append)
  also have "\<dots> = run 1 [Erase 3] (?S3, ?M3)"
    by (simp only: run_example option.case)
  also have "\<dots> = Some (\<lparr>sz = 2, root = Internal [2 :: int] [External 0, External 1], left_leaf = 0\<rparr>,
             \<lparr>heap = (\<lambda>a. None)
                (0 \<mapsto> \<lparr>vals = [1], left_neighbour = None, right_neighbour = Some 1\<rparr>,
                 1 \<mapsto> \<lparr>vals = [2], left_neighbour = Some 0, right_neighbour = None\<rparr>),
              brk = 2, internals = 1\<rparr>)"
    using e by simp
  finally show ?thesis .
qed

text \<open>
  Claim C6. In a container that a sequence of public operations has left (order \<open>N \<ge> 1\<close>),
  when \<open>remove_elem\<close> on the root leaves an internal root without separators, that root has
  exactly one child and the result is \<open>MERGE\<close>. \<open>erase\<close> then returns 1, makes the child the
  new root and takes one off \<open>sz\<close>, which was positive. The tree is one level lower. The
  former root is destroyed: memory holds one internal node less than after \<open>remove_elem\<close>,
  and the internal nodes left are those of the new tree. The adopted child is not
  destroyed: no leaf is touched and every leaf of the new root is allocated.
\<close>

theorem erase_shrinks_root:
  assumes N: "0 < N"
    and reach: "run N fs (ADS_set_new m0) = Some (s, m)"
    and rem: "remove_elem N k (root s) m = Some (r, Internal [] cs', m1)"
  shows "\<exists>c m'. cs' = [c] \<and> r = MERGE
           \<and> erase N k s m = Some (1, s\<lparr>root := c, sz := sz s - 1\<rparr>, m')
           \<and> 0 < sz s
           \<and> height (root s) = Suc (height c)
           \<and> internals m' = internals m1 - 1
           \<and> internals m' = internals m0 + inodes c
           \<and> heap m' = heap m1
           \<and> (\<forall>a\<in>set (leaves c). heap m' a \<noteq> None)"
proof -
  have inv: "invariant N s m"
    using constructed_invariant [OF N, of fs m0] reach by auto
  from root_underflow [OF inv N rem] obtain c where
    c: "cs' = [c]" "r = MERGE" "0 < sz s" "0 < depth (tree_of m (root s))"
      "t_fill N (depth (tree_of m (root s)) - 1) (tree_of m1 c)" "heap_ok m1 (leaves c)"
    by blast
  have e: "erase N k s m = Some (1, s\<lparr>root := c, sz := sz s - 1\<rparr>, delete_InternalNode m1)"
    using rem c(1,2,3) by (simp add: erase_def child_at_def decrement_def)
  have "t_node 0 (2 * N) N (depth (tree_of m (root s))) (tree_of m (root s))"
    using inv by (simp add: invariant_def root_fill_iff)
  then have "height (root s) = Suc (depth (tree_of m (root s)))" by (rule height_node)
  then have h: "height (root s) = Suc (height c)"
    using height_fill [OF c(5)] c(4) by simp
  have "internals m1 - internals m = inodes (Internal [] cs') - inodes (root s)"
    using rem by (rule remove_elem_inodes)
  then have i: "internals (delete_InternalNode m1) = internals m0 + inodes c"
    using constructed_inodes [OF N reach] c(1) by simp
  have live: "\<forall>a\<in>set (leaves c). heap (delete_InternalNode m1) a \<noteq> None"
    using heap_ok_live [OF c(6)] by auto
  show ?thesis
    using c(1,2,3) e h i live
    by (intro exI [of _ c] exI [of _ "delete_InternalNode m1"]) simp
qed

text \<open>Order 1, the leaves \<open>[1]\<close> and \<open>[2]\<close> under a root with the key 2: \<open>erase(1)\<close> fuses the
  leaves, and the leaf at address 0 becomes the root.\<close>

theorem erase_shrinks_root_witness:
  "run 1 [Insert 1, Insert 2, Insert 3, Erase 3] (ADS_set_new \<lparr>heap = (\<lambda>a. None), brk = 0, internals = 0\<rparr>)
     = Some (\<lparr>sz = 2, root = Internal [2 :: int] [External 0, External 1], left_leaf = 0\<rparr>,
             \<lparr>heap = (\<lambda>a. None)
                (0 \<mapsto> \<lparr>vals = [1], left_neighbour = None, right_neighbour = Some 1\<rparr>,
                 1 \<mapsto> \<lparr>vals = [2], left_neighbour = Some 0, right_neighbour = None\<rparr>),
              brk = 2, internals = 1\<rparr>)
   \<and> (\<exists>m1 m'.
         remove_elem 1 1 (Internal [2 :: int] [External 0, External 1])
             \<lparr>heap = (\<lambda>a. None)
                (0 \<mapsto> \<lparr>vals = [1], left_neighbour = None, right_neighbour = Some 1\<rparr>,
                 1 \<mapsto> \<lparr>vals = [2], left_neighbour = Some 0, right_neighbour = None\<rparr>),
              brk = 2, internals = 1\<rparr>
           = Some (MERGE, Internal [] [External 0], m1)
         \<and> erase 1 1 \<lparr>sz = 2, root = Internal [2 :: int] [External 0, External 1], left_leaf = 0\<rparr>
             \<lparr>heap = (\<lambda>a. None)
                (0 \<mapsto> \<lparr>vals = [1], left_neighbour = None, right_neighbour = Some 1\<rparr>,
                 1 \<mapsto> \<lparr>vals = [2], left_neighbour = Some 0, right_neighbour = None\<rparr>),
              brk = 2, internals = 1\<rparr>
           = Some (1, \<lparr>sz = 1, root = External 0, left_leaf = 0\<rparr>, m')
         \<and> height (Internal [2 :: int] [External 0, External 1]) = Suc (height (External 0 :: int Node))
         \<and> internals m1 = 1 \<and> internals m' = 0 \<and> heap m' = heap m1
         \<and> map_option vals (heap m' 0) = Some [2])"
proof -
  let ?init = "\<lparr>heap = (\<lambda>a. None), brk = 0, internals = 0\<rparr> :: int memory"
  let ?S = "\<lparr>sz = 2, root = Internal [2 :: int] [External 0, External 1], left_leaf = 0\<rparr>"
  let ?M = "\<lparr>heap = (\<lambda>a. None)
                (0 \<mapsto> \<lparr>vals = [1], left_neighbour = None, right_neighbour = Some 1\<rparr>,
                 1 \<mapsto> \<lparr>vals = [2], left_neighbour = Some 0, right_neighbour = None\<rparr>),
              brk = 2, internals = 1\<rparr>"
  have run: "run 1 [Insert 1, Insert 2, Insert 3, Erase 3] (ADS_set_new ?init) = Some (?S, ?M)"
    by (rule run_example_erase)
  have f: "find_pos_E [1 :: int] 1 = 0"
    using find_pos_E_present [of "[1 :: int]" 0] by simp
  have "\<exists>m1. remove_elem 1 1 (root ?S) ?M = Some (MERGE, Internal [] [External 0], m1)
     \<and> map_option vals (heap m1 0) = Some [2]"
    by (simp add: remove_elem_E_def f update_def del_at_def min_size_def max_size_def
        merge_def child_at_def merge_action_def merge_direction_def from_right_cond_def
        from_left_cond_def node_size_def fuse_def node_type_def fuse_right_E_def as_External_def
        delete_ExternalNode_def resplit_def resplit_needed_def fused_at_def)
  then obtain m1 where
    rem: "remove_elem 1 1 (root ?S) ?M = Some (MERGE, Internal [] [External 0], m1)"
    and v: "map_option vals (heap m1 0) = Some [2]"
    by blast
  from erase_shrinks_root [OF zero_less_one run rem] obtain c m' where
    r: "[External 0] = [c]"
      "erase 1 1 ?S ?M = Some (1, ?S\<lparr>root := c, sz := sz ?S - 1\<rparr>, m')"
      "height (root ?S) = Suc (height c)"
      "internals m' = internals m1 - 1" "internals m' = internals ?init + inodes c"
      "heap m' = heap m1"
    by blast
  have c: "c = External 0" using r(1) by simp
  show ?thesis
    using run rem r(2-6) v unfolding c
    by (intro conjI exI [of _ m1] exI [of _ m']) simp_all
qed

section \<open>The fill of the nodes\<close>

text \<open>
  Claim C2. For an order \<open>N \<ge> 1\<close>, every sequence of \<open>insert\<close>, \<open>erase\<close> and \<open>clear\<close> on a
  freshly constructed container runs to its end, and in the tree it leaves every node below
  the root holds between \<open>N\<close> and \<open>2N\<close> keys; the root holds at most \<open>2N\<close> keys. The sequence
  is arbitrary, so this holds after each of its operations.
\<close>

theorem fill_after_operations:
  assumes "0 < N"
  shows "\<exists>s m. run N fs (ADS_set_new m0) = Some (s, m) \<and> root_filled N m (root s)"
  using constructed_invariant [OF assms, of fs m0] invariant_root_filled by blast

text \<open>Order 1 and the keys 1, 2, 3: a root with one key above the leaves \<open>[1]\<close> and
  \<open>[2, 3]\<close>.\<close>

theorem fill_after_operations_witness:
  "run 1 [Insert 1, Insert 2, Insert 3] (ADS_set_new \<lparr>heap = (\<lambda>a. None), brk = 0, internals = 0\<rparr>)
     = Some (\<lparr>sz = 3, root = Internal [2 :: int] [External 0, External 1], left_leaf = 0\<rparr>,
             \<lparr>heap = (\<lambda>a. None)
                (0 \<mapsto> \<lparr>vals = [1], left_neighbour = None, right_neighbour = Some 1\<rparr>,
                 1 \<mapsto> \<lparr>vals = [2, 3], left_neighbour = Some 0, right_neighbour = None\<rparr>),
              brk = 2, internals = 1\<rparr>)
   \<and> root_filled 1
        \<lparr>heap = (\<lambda>a. None)
           (0 \<mapsto> \<lparr>vals = [1 :: int], left_neighbour = None, right_neighbour = Some 1\<rparr>,
            1 \<mapsto> \<lparr>vals = [2, 3], left_neighbour = Some 0, right_neighbour = None\<rparr>),
         brk = 2, internals = 1\<rparr>
        (Internal [2] [External 0, External 1])"
proof -
  obtain s m where
    r: "run 1 [Insert 1, Insert 2, Insert (3 :: int)] (ADS_set_new \<lparr>heap = (\<lambda>a. None), brk = 0, internals = 0\<rparr>)
          = Some (s, m)"
    and f: "root_filled 1 m (root s)"
    using fill_after_operations [OF zero_less_one, of "[Insert 1, Insert 2, Insert (3 :: int)]"
        "\<lparr>heap = (\<lambda>a. None), brk = 0, internals = 0\<rparr>"]
    by blast
  show ?thesis using r f unfolding run_example by auto
qed

section \<open>Iteration\<close>

text \<open>
  Claim C3. In the container that a sequence of public operations leaves (order \<open>N \<ge> 1\<close>),
  walking from \<open>begin()\<close> to \<open>end()\<close> ends and yields the keys of the leaves from left to
  right; they are strictly increasing, so each occurs once, there are \<open>size()\<close> of them, and
  they are the keys inserted and not erased since.
\<close>

theorem iteration_sorted:
  assumes "0 < N" and "run N fs (ADS_set_new m0) = Some (s, m)"
  shows "\<exists>xs. elements s m = Some xs \<and> xs = t_keys (tree_of m (root s))
           \<and> sorted_wrt (<) xs \<and> distinct xs \<and> length xs = size_of s
           \<and> set xs = fold effect fs {}"
proof -
  from constructed_invariant [OF assms(1), of fs m0] assms(2)
  have inv: "invariant N s m" and keys: "set (t_keys (tree_of m (root s))) = fold effect fs {}"
    by auto
  have srt: "sorted_wrt (<) (t_keys (tree_of m (root s)))"
    using inv t_ord_sorted by (auto simp: invariant_def)
  then have "distinct (t_keys (tree_of m (root s)))"
    using strict_sorted_iff by blast
  moreover have "length (t_keys (tree_of m (root s))) = size_of s"
    using inv by (simp add: invariant_def size_of_def)
  ultimately show ?thesis
    using elements_invariant [OF inv assms(1)] srt keys by simp
qed

theorem iteration_sorted_witness:
  "elements \<lparr>sz = 3, root = Internal [2 :: int] [External 0, External 1], left_leaf = 0\<rparr>
     \<lparr>heap = (\<lambda>a. None)
        (0 \<mapsto> \<lparr>vals = [1], left_neighbour = None, right_neighbour = Some 1\<rparr>,
         1 \<mapsto> \<lparr>vals = [2, 3], left_neighbour = Some 0, right_neighbour = None\<rparr>),
      brk = 2, internals = 1\<rparr> = Some [1, 2, 3]
   \<and> fold effect [Insert 1, Insert 2, Insert 3] {} = {1, 2, 3 :: int}"
  using iteration_sorted [OF _ run_example] by (auto simp: vals_at_def)

section \<open>The result of \<open>erase\<close>\<close>

text \<open>
  Claim C7. In the container that a sequence of public operations leaves (order \<open>N \<ge> 1\<close>),
  with \<open>xs\<close> the keys that iteration yields: \<open>erase(k)\<close> for a key among \<open>xs\<close> returns 1,
  \<open>size()\<close> was positive and is one less afterwards, and iteration then yields \<open>xs\<close> without
  \<open>k\<close>; \<open>erase(k)\<close> for any other key returns 0 and leaves the container and the memory as they
  were. So \<open>erase\<close> returns 0 or 1. A container without keys has a leaf as its root, and
  \<open>erase\<close> leaves it so.
\<close>

theorem erase_result:
  assumes "0 < N" and "run N fs (ADS_set_new m0) = Some (s, m)"
  shows "\<exists>xs. elements s m = Some xs \<and> xs = t_keys (tree_of m (root s))
           \<and> (k \<in> set xs \<longrightarrow>
                (\<exists>s' m'. erase N k s m = Some (1, s', m') \<and> 0 < size_of s
                   \<and> size_of s' = size_of s - 1 \<and> elements s' m' = Some (remove1 k xs)))
           \<and> (k \<notin> set xs \<longrightarrow> erase N k s m = Some (0, s, m))
           \<and> (xs = [] \<longrightarrow> (\<exists>a. root s = External a))"
proof -
  define xs where "xs = t_keys (tree_of m (root s))"
  from constructed_invariant [OF assms(1), of fs m0] assms(2)
  have inv: "invariant N s m" by auto
  have el: "elements s m = Some xs"
    using elements_invariant [OF inv assms(1)] by (simp add: xs_def)
  have srt: "sorted_wrt (<) xs"
    using inv t_ord_sorted by (auto simp: invariant_def xs_def)
  from erase_invariant [OF inv assms(1), of k] obtain n s' m' where
    e: "erase N k s m = Some (n, s', m')" "invariant N s' m'"
      "k \<notin> set xs \<longrightarrow> n = 0 \<and> s' = s \<and> m' = m"
      "k \<in> set xs \<longrightarrow> n = 1 \<and> 0 < sz s \<and> sz s' = sz s - 1
           \<and> (\<exists>K1 K2. xs = K1 @ k # K2 \<and> t_keys (tree_of m' (root s')) = K1 @ K2)"
    unfolding xs_def by blast
  have a: "\<exists>s' m'. erase N k s m = Some (1, s', m') \<and> 0 < size_of s
                   \<and> size_of s' = size_of s - 1 \<and> elements s' m' = Some (remove1 k xs)"
    if kx: "k \<in> set xs"
  proof -
    obtain K1 K2 where K: "xs = K1 @ k # K2" "t_keys (tree_of m' (root s')) = K1 @ K2"
      using e(4) kx by blast
    have "remove1 k xs = K1 @ K2" using distinct_remove_key(1) [of K1 k K2] srt K(1) by simp
    then have "elements s' m' = Some (remove1 k xs)"
      using elements_invariant [OF e(2) assms(1)] K(2) by simp
    then show ?thesis using e(1,4) kx by (auto simp: size_of_def)
  qed
  have b: "erase N k s m = Some (0, s, m)" if "k \<notin> set xs"
    using e(1,3) that by simp
  have c: "\<exists>a. root s = External a" if "xs = []"
    using empty_root_is_leaf [OF inv assms(1)] that by (simp add: xs_def)
  show ?thesis using el a b c unfolding xs_def [symmetric] by blast
qed

text \<open>The container with the leaves \<open>[1]\<close> and \<open>[2, 3]\<close>: erasing 2, which it holds, and 5,
  which it does not.\<close>

theorem erase_result_witness:
  "(\<exists>s' m'. erase 1 2
        \<lparr>sz = 3, root = Internal [2 :: int] [External 0, External 1], left_leaf = 0\<rparr>
        \<lparr>heap = (\<lambda>a. None)
           (0 \<mapsto> \<lparr>vals = [1], left_neighbour = None, right_neighbour = Some 1\<rparr>,
            1 \<mapsto> \<lparr>vals = [2, 3], left_neighbour = Some 0, right_neighbour = None\<rparr>),
         brk = 2, internals = 1\<rparr> = Some (1, s', m')
      \<and> size_of s' = 2 \<and> elements s' m' = Some [1, 3])
   \<and> erase 1 5
        \<lparr>sz = 3, root = Internal [2 :: int] [External 0, External 1], left_leaf = 0\<rparr>
        \<lparr>heap = (\<lambda>a. None)
           (0 \<mapsto> \<lparr>vals = [1], left_neighbour = None, right_neighbour = Some 1\<rparr>,
            1 \<mapsto> \<lparr>vals = [2, 3], left_neighbour = Some 0, right_neighbour = None\<rparr>),
         brk = 2, internals = 1\<rparr>
      = Some (0, \<lparr>sz = 3, root = Internal [2] [External 0, External 1], left_leaf = 0\<rparr>,
          \<lparr>heap = (\<lambda>a. None)
             (0 \<mapsto> \<lparr>vals = [1], left_neighbour = None, right_neighbour = Some 1\<rparr>,
              1 \<mapsto> \<lparr>vals = [2, 3], left_neighbour = Some 0, right_neighbour = None\<rparr>),
           brk = 2, internals = 1\<rparr>)"
  using erase_result [OF _ run_example, of 2] erase_result [OF _ run_example, of 5]
  by (auto simp: vals_at_def size_of_def)

section \<open>Inserting a key twice\<close>

text \<open>
  Claim C8. In the container that a sequence of public operations leaves (order \<open>N \<ge> 1\<close>),
  with \<open>xs\<close> the keys that iteration yields: \<open>insert(k)\<close> returns, reporting an insertion
  exactly when \<open>k\<close> is not among \<open>xs\<close>; a second \<open>insert(k)\<close> right after it returns the same
  iterator with \<open>false\<close> and leaves the container and the memory exactly as the first call
  left them, \<open>size()\<close> included.
\<close>

theorem insert_idempotent:
  assumes "0 < N" and "run N fs (ADS_set_new m0) = Some (s, m)"
  shows "\<exists>xs it s1 m1. elements s m = Some xs \<and> xs = t_keys (tree_of m (root s))
           \<and> insert_S N k s m = Some ((it, k \<notin> set xs), s1, m1)
           \<and> insert_S N k s1 m1 = Some ((it, False), s1, m1)"
proof -
  define xs where "xs = t_keys (tree_of m (root s))"
  from constructed_invariant [OF assms(1), of fs m0] assms(2)
  have inv: "invariant N s m" by auto
  have el: "elements s m = Some xs"
    using elements_invariant [OF inv assms(1)] by (simp add: xs_def)
  from insert_S_invariant [OF inv assms(1), of k] obtain it b s1 m1 where
    i: "insert_S N k s m = Some ((it, b), s1, m1)" "invariant N s1 m1"
      "b = (k \<notin> set xs)" "\<not> b \<longrightarrow> s1 = s \<and> m1 = m"
      "b \<longrightarrow> (\<exists>K1 K2. xs = K1 @ K2 \<and> t_keys (tree_of m1 (root s1)) = K1 @ k # K2)"
    unfolding xs_def by blast
  have mem: "k \<in> set (t_keys (tree_of m1 (root s1)))"
    using i(3,4,5) by (cases b) (auto simp: xs_def)
  from insert_S_invariant [OF i(2) assms(1), of k] mem obtain it' where
    j: "insert_S N k s1 m1 = Some ((it', False), s1, m1)"
    by auto
  have "it' = it"
    using insert_S_iterator [OF i(1)] insert_S_iterator [OF j] by simp
  then show ?thesis using el i(1,3) j unfolding xs_def [symmetric] by blast
qed

text \<open>The container with the leaves \<open>[1]\<close> and \<open>[2, 3]\<close>: inserting 7 twice.\<close>

theorem insert_idempotent_witness:
  "\<exists>it s1 m1. insert_S 1 7
        \<lparr>sz = 3, root = Internal [2 :: int] [External 0, External 1], left_leaf = 0\<rparr>
        \<lparr>heap = (\<lambda>a. None)
           (0 \<mapsto> \<lparr>vals = [1], left_neighbour = None, right_neighbour = Some 1\<rparr>,
            1 \<mapsto> \<lparr>vals = [2, 3], left_neighbour = Some 0, right_neighbour = None\<rparr>),
         brk = 2, internals = 1\<rparr>
      = Some ((it, True), s1, m1)
    \<and> insert_S 1 7 s1 m1 = Some ((it, False), s1, m1)"
  using insert_idempotent [OF _ run_example, of 7]
  by (auto simp: vals_at_def)

end
